(* ===== verification/Prelude.thy ===== *)
theory Prelude
  imports Main "HOL-Library.Word" "HOL-Library.Monad_Syntax" "HOL-Library.Multiset"
begin

text \<open>
  Prelude of the development: the vocabulary every component shares.

  Go's errors are values that are compared by walking their \<open>Unwrap\<close> chain, so they are a
  datatype here: a sentinel (\<open>errors.New\<close>, compared by identity), a wrapper (\<open>fmt.Errorf\<close>
  with \<open>%w\<close>, \<open>pkg/errors.WithStack\<close>), a join (several wrapped errors), the struct errors
  the server looks for with \<open>errors.As\<close>, and an opaque error of a third party. An error carries
  its message, because several handlers copy \<open>err.Error()\<close> into their reply.

  Go's \<open>(T, error)\<close> results are \<open>go_error + 'a\<close>, and an operation that can panic returns an
  \<open>'a outcome\<close>.
\<close>

named_theorems go_simps \<open>evaluation rules for the Go vocabulary of the prelude\<close>
named_theorems step_defs \<open>definitions of single handler steps\<close>

section \<open>Errors\<close>

datatype sentinel =
    ErrSkipRetry | ErrDeadLetter
  | ErrUnregisteredEvent | ErrUnknownType | ErrInvalidEventType
  | ErrBadRequest | ErrValidation | ErrUnauth | ErrForbidden | ErrNotFound
  | ErrIdempotentLocked | ErrIdempotentMissing
  | ErrUnsupportedStorageType | ErrInvalidRootDir
  | PgxErrNoRows | SqlErrNoRows | GormErrRecordNotFound
  | JetstreamErrKeyExists | ErrServerClosed | ContextCanceled | DeadlineExceeded
  | AsynqRevokeTask | AsynqSkipRetry

datatype go_error =
    ESentinel sentinel
  | EWrap string go_error
  | EJoin string "go_error list"
  | EHTTP nat string
  | EValidation "(string \<times> string) list"
  | EPg string string
  | EOther string

fun sentinel_text :: "sentinel \<Rightarrow> string" where
  "sentinel_text ErrSkipRetry = ''skip retry''"
| "sentinel_text ErrDeadLetter = ''deadletter''"
| "sentinel_text ErrUnregisteredEvent = ''unregistered event''"
| "sentinel_text ErrUnknownType = ''unknown type''"
| "sentinel_text ErrInvalidEventType = ''invalid event type for listener''"
| "sentinel_text ErrBadRequest = ''bad request''"
| "sentinel_text ErrValidation = ''validation error''"
| "sentinel_text ErrUnauth = ''unauthorised''"
| "sentinel_text ErrForbidden = ''forbidden''"
| "sentinel_text ErrNotFound = ''not found''"
| "sentinel_text ErrIdempotentLocked = ''idempotency key already locked''"
| "sentinel_text ErrIdempotentMissing = ''idempotency key not in cache''"
| "sentinel_text ErrUnsupportedStorageType = ''storage type is not supported''"
| "sentinel_text ErrInvalidRootDir = ''invalid filesystem root directory''"
| "sentinel_text PgxErrNoRows = ''no rows in result set''"
| "sentinel_text SqlErrNoRows = ''sql: no rows in result set''"
| "sentinel_text GormErrRecordNotFound = ''record not found''"
| "sentinel_text JetstreamErrKeyExists = ''key exists''"
| "sentinel_text ErrServerClosed = ''http: Server closed''"
| "sentinel_text ContextCanceled = ''context canceled''"
| "sentinel_text DeadlineExceeded = ''context deadline exceeded''"
| "sentinel_text AsynqRevokeTask = ''revoke task''"
| "sentinel_text AsynqSkipRetry = ''skip retry for the task''"

text \<open>\<open>err.Error()\<close>. A \<open>*validation.ValidationError\<close> prints a fixed text.\<close>

fun error_text :: "go_error \<Rightarrow> string" where
  "error_text (ESentinel s) = sentinel_text s"
| "error_text (EWrap m e) = m"
| "error_text (EJoin m es) = m"
| "error_text (EHTTP c m) = m"
| "error_text (EValidation fs) = ''not implemented yet''"
| "error_text (EPg c m) = m"
| "error_text (EOther m) = m"

text \<open>\<open>fmt.Errorf("prefix: %w", err)\<close>.\<close>

definition wrapf :: "string \<Rightarrow> go_error \<Rightarrow> go_error" where
  "wrapf p e = EWrap (p @ '': '' @ error_text e) e"

text \<open>\<open>errors.Is\<close> with a sentinel as its target: a depth-first walk of the tree.\<close>

fun errors_Is :: "go_error \<Rightarrow> sentinel \<Rightarrow> bool" where
  "errors_Is (ESentinel s) t = (s = t)"
| "errors_Is (EWrap m e) t = errors_Is e t"
| "errors_Is (EJoin m es) t = list_ex (\<lambda>e. errors_Is e t) es"
| "errors_Is _ t = False"

text \<open>\<open>errors.As\<close>: the first node of the walk, in depth-first order, that a selector accepts.\<close>

fun find_map :: "('a \<Rightarrow> 'b option) \<Rightarrow> 'a list \<Rightarrow> 'b option" where
  "find_map f [] = None"
| "find_map f (x # xs) = (case f x of Some y \<Rightarrow> Some y | None \<Rightarrow> find_map f xs)"

lemma find_map_cong [fundef_cong]:
  "xs = ys \<Longrightarrow> (\<And>x. x \<in> set ys \<Longrightarrow> f x = g x) \<Longrightarrow> find_map f xs = find_map g ys"
  by (induction xs arbitrary: ys) (auto split: option.splits)

lemma find_map_append:
  "find_map f (xs @ ys) = (case find_map f xs of Some x \<Rightarrow> Some x | None \<Rightarrow> find_map f ys)"
  by (induction xs) (auto split: option.splits)

fun errors_As :: "(go_error \<Rightarrow> 'a option) \<Rightarrow> go_error \<Rightarrow> 'a option" where
  "errors_As sel (EWrap m e) =
     (case sel (EWrap m e) of Some y \<Rightarrow> Some y | None \<Rightarrow> errors_As sel e)"
| "errors_As sel (EJoin m es) =
     (case sel (EJoin m es) of Some y \<Rightarrow> Some y | None \<Rightarrow> find_map (errors_As sel) es)"
| "errors_As sel e = sel e"

text \<open>The names that package \<open>errors\<close> gives to functions of other packages, beside \<open>Is\<close> and \<open>As\<close>: \<open>Unwrap\<close>
  does not look into a join; \<open>Stack\<close> is \<open>pkg/errors.WithStack\<close>, which keeps \<open>nil\<close> and the text.\<close>

fun errors_Unwrap :: "go_error \<Rightarrow> go_error option" where
  "errors_Unwrap (EWrap m e) = Some e"
| "errors_Unwrap _ = None"

definition errors_Stack :: "go_error option \<Rightarrow> go_error option" where
  "errors_Stack err = map_option (\<lambda>e. EWrap (error_text e) e) err"

text \<open>A stack is transparent: the text, the sentinels in the chain and what \<open>Unwrap\<close> gives are those of the
  error.\<close>

lemma stack_transparent:
  assumes "errors_Stack (Some e) = Some e'"
  shows "error_text e' = error_text e" "errors_Is e' t = errors_Is e t" "errors_Unwrap e' = Some e"
  using assms by (auto simp: errors_Stack_def)

lemma errors_Is_wrapf [simp, go_simps]: "errors_Is (wrapf p e) t = errors_Is e t"
  by (simp add: wrapf_def)

lemma error_text_wrapf [simp, go_simps]: "error_text (wrapf p e) = p @ '': '' @ error_text e"
  by (simp add: wrapf_def)

lemma wrapf_not_sentinel [simp]: "wrapf p e \<noteq> ESentinel s"
  by (simp add: wrapf_def)

section \<open>Outcomes: an operation that returns or panics\<close>

datatype 'a outcome = Ret 'a | Panic string

fun map_outcome_ret :: "('a \<Rightarrow> 'b) \<Rightarrow> 'a outcome \<Rightarrow> 'b outcome" where
  "map_outcome_ret f (Ret x) = Ret (f x)"
| "map_outcome_ret f (Panic m) = Panic m"

section \<open>Machine integers\<close>

type_synonym u8 = "8 word"
type_synonym u64 = "64 word"

text \<open>A Go \<open>int64\<close> (also \<open>int\<close>, \<open>time.Duration\<close>) is a 64-bit word read with \<open>sint\<close>.\<close>

type_synonym i64 = "64 word"

abbreviation (input) max_i64 :: int where "max_i64 \<equiv> 9223372036854775807"

lemma sint_i64_bounds: "- (2 ^ 63) \<le> sint (x :: i64)" "sint (x :: i64) < 2 ^ 63"
  using sint_ge [of x] sint_lt [of x] by simp_all

lemma sint_of_int_i64: "- (2 ^ 63) \<le> k \<Longrightarrow> k < 2 ^ 63 \<Longrightarrow> sint (word_of_int k :: i64) = k"
  by (simp add: sint_sbintrunc' signed_take_bit_int_eq_self)

section \<open>Maps and lists\<close>

lemma list_update_Cons_numeral [simp]: "(x # xs)[numeral v := y] = x # xs[pred_numeral v := y]"
  by (simp add: numeral_eq_Suc)

lemma card_dom_delete: "finite (dom m) \<Longrightarrow> card (dom (m(k := None))) = card (dom m) - (if m k = None then 0 else 1)"
  by (auto simp: dom_def[symmetric] card_Diff_singleton_if dom_minus)

text \<open>A list without its element number \<open>i\<close>: who leaves a pool of goroutines or of held locks.\<close>

definition remove_nth :: "nat \<Rightarrow> 'a list \<Rightarrow> 'a list" where
  "remove_nth i xs = take i xs @ drop (Suc i) xs"

lemma mset_remove_nth: "i < length xs \<Longrightarrow> mset xs = add_mset (xs ! i) (mset (remove_nth i xs))"
proof -
  assume i: "i < length xs"
  have "mset xs = mset (take i xs @ xs ! i # drop (Suc i) xs)" using id_take_nth_drop [OF i] by simp
  then show ?thesis by (simp add: remove_nth_def)
qed

lemma map_remove_nth: "map f (remove_nth i xs) = remove_nth i (map f xs)"
  by (simp add: remove_nth_def take_map drop_map)

lemma distinct_remove_nth:
  assumes "distinct xs" and "i < length xs"
  shows "distinct (remove_nth i xs)" "set (remove_nth i xs) = set xs - {xs ! i}"
proof -
  have m: "mset (remove_nth i xs) = mset xs - {#xs ! i#}"
    using mset_remove_nth [OF assms(2)] by simp
  then have r: "mset (remove_nth i xs) = mset (remove1 (xs ! i) xs)" by simp
  show "distinct (remove_nth i xs)"
    using mset_eq_imp_distinct_iff [OF r] assms(1) by simp
  show "set (remove_nth i xs) = set xs - {xs ! i}"
    using mset_eq_setD [OF r] assms(1) by simp
qed

end
