(* ===== verification/Platform.thy ===== *)
theory Platform
  imports Prelude
begin

text \<open>
  The small packages around external services: request and reply over NATS (\<open>comms\<close>), object
  storage (\<open>storage\<close>), migrations and connections (\<open>database/postgres\<close>), the Redis client and
  its write probe (\<open>redis\<close>), the choice of profiles (\<open>profiling\<close>), the tracer's set-up
  (\<open>tracing\<close>, \<open>otel\<close>) and the gRPC log interceptor. Their libraries are parameters: what a
  call returns is an argument, in the order the code makes the calls.
\<close>

section \<open>comms\<close>

record response =
  Data :: "u8 list"
  Error :: string

definition NewResponder :: "go_error option \<Rightarrow> go_error option" where
  "NewResponder connect_err = map_option (wrapf ''connect to nats'') connect_err"

text \<open>What the subscription's function sends back for a message.\<close>

definition respond :: "(u8 list \<Rightarrow> u8 list \<times> go_error option) \<Rightarrow> (response \<Rightarrow> 'm) \<Rightarrow> u8 list \<Rightarrow> 'm" where
  "respond h marshal data =
     (let (resp, err) = h data;
          errStr = (case err of Some e \<Rightarrow> error_text e | None \<Rightarrow> '''')
      in marshal \<lparr>Data = resp, Error = errStr\<rparr>)"

text \<open>\<open>Listen\<close> returns when its context ends.\<close>

definition Responder_Listen :: "go_error option \<Rightarrow> go_error option \<Rightarrow> go_error option" where
  "Responder_Listen subscribe_err unsubscribe_err =
     (case subscribe_err of
        Some e \<Rightarrow> Some (wrapf ''subscribe to subject'' e)
      | None \<Rightarrow> map_option (wrapf ''unsubscribe from stream'') unsubscribe_err)"

definition NewSender :: "go_error option \<Rightarrow> i64 \<Rightarrow> go_error + i64" where
  "NewSender connect_err timeout =
     (case connect_err of
        Some e \<Rightarrow> Inl (wrapf ''connect to nats'' e)
      | None \<Rightarrow> Inr (if timeout = 0 then 3000000000 else timeout))"

text \<open>\<open>Send\<close> returns both the data and an error; \<open>request\<close> is the round trip over NATS.\<close>

definition Send :: "(u8 list \<Rightarrow> i64 \<Rightarrow> go_error + 'm) \<Rightarrow> ('m \<Rightarrow> go_error + response) \<Rightarrow> i64 \<Rightarrow> u8 list \<Rightarrow> u8 list option \<times> go_error option" where
  "Send request unmarshal timeout payload =
     (case request payload timeout of
        Inl e \<Rightarrow> (None, Some (wrapf ''send request'' e))
      | Inr reply \<Rightarrow>
          (case unmarshal reply of
             Inl e \<Rightarrow> (None, Some (wrapf ''unmarshal response'' e))
           | Inr r \<Rightarrow> (Some (Data r), if Error r \<noteq> '''' then Some (EOther (Error r)) else None)))"

section \<open>storage\<close>

text \<open>\<open>Backend\<close> is an \<open>int\<close> type; a value of the configuration is a string, a tracer or another.\<close>

type_synonym Backend = int

definition S3 :: Backend where "S3 = 0"
definition Filesystem :: Backend where "Filesystem = 1"
definition Memory :: Backend where "Memory = 2"

datatype conf_value = ConfString string | ConfTracer nat | ConfOther string

datatype bucket = S3Bucket string | FsBucket string | MemBucket | Traced nat bucket

record storage_lib =
  yaml_Marshal :: "(string \<Rightarrow> conf_value option) \<Rightarrow> go_error + string"
  s3_NewBucket :: "string \<Rightarrow> go_error option"
  fs_NewBucket :: "string \<Rightarrow> go_error option"

definition newS3 :: "storage_lib \<Rightarrow> (string \<Rightarrow> conf_value option) \<Rightarrow> go_error + bucket" where
  "newS3 lib conf =
     (case yaml_Marshal lib conf of
        Inl e \<Rightarrow> Inl e
      | Inr by \<Rightarrow> (case s3_NewBucket lib by of Some e \<Rightarrow> Inl e | None \<Rightarrow> Inr (S3Bucket by)))"

definition newFilesystem :: "storage_lib \<Rightarrow> (string \<Rightarrow> conf_value option) \<Rightarrow> go_error + bucket" where
  "newFilesystem lib conf =
     (case conf ''dir'' of
        None \<Rightarrow> Inl (wrapf ''root dir not set'' (ESentinel ErrInvalidRootDir))
      | Some (ConfString rootDir) \<Rightarrow>
          (case fs_NewBucket lib rootDir of
             Some e \<Rightarrow> Inl (wrapf ''open filesystem bucket'' e) | None \<Rightarrow> Inr (FsBucket rootDir))
      | Some _ \<Rightarrow> Inl (wrapf ''root dir not a string'' (ESentinel ErrInvalidRootDir)))"

definition newMemory :: "go_error + bucket" where "newMemory = Inr MemBucket"

definition storage_New :: "storage_lib \<Rightarrow> Backend \<Rightarrow> (string \<Rightarrow> conf_value option) \<Rightarrow> go_error + bucket" where
  "storage_New lib backend conf =
     (if backend \<notin> {S3, Filesystem, Memory} then Inl (ESentinel ErrUnsupportedStorageType)
      else case (if backend = S3 then newS3 lib conf
                 else if backend = Filesystem then newFilesystem lib conf else newMemory) of
             Inl e \<Rightarrow> Inl e
           | Inr b \<Rightarrow> Inr (case conf ''tracer'' of Some (ConfTracer t) \<Rightarrow> Traced t b | _ \<Rightarrow> b))"

section \<open>database/postgres\<close>

definition NewMigrator :: "go_error option \<Rightarrow> go_error option \<Rightarrow> go_error option \<Rightarrow> go_error option" where
  "NewMigrator driver_err iofs_err new_err =
     (case driver_err of Some e \<Rightarrow> Some e
      | None \<Rightarrow> (case iofs_err of Some e \<Rightarrow> Some e | None \<Rightarrow> new_err))"

text \<open>golang-migrate over its state: \<open>Up\<close>, \<open>Down\<close>, \<open>Drop\<close> and \<open>Steps\<close>.\<close>

record 's migrate =
  m_Up :: "'s \<Rightarrow> go_error option \<times> 's"
  m_Down :: "'s \<Rightarrow> go_error option \<times> 's"
  m_Drop :: "'s \<Rightarrow> go_error option \<times> 's"
  m_Steps :: "i64 \<Rightarrow> 's \<Rightarrow> go_error option \<times> 's"

definition no_change_ok :: "go_error option \<times> 's \<Rightarrow> go_error option \<times> 's" where
  "no_change_ok r =
     (case r of (None, s) \<Rightarrow> (None, s)
      | (Some e, s) \<Rightarrow> if error_text e = ''no change'' then (None, s) else (Some e, s))"

definition Migrator_Up :: "'s migrate \<Rightarrow> 's \<Rightarrow> go_error option \<times> 's" where
  "Migrator_Up m s = no_change_ok (m_Up m s)"

definition Migrator_Down :: "'s migrate \<Rightarrow> 's \<Rightarrow> go_error option \<times> 's" where
  "Migrator_Down m s = no_change_ok (m_Down m s)"

definition Migrator_Fresh :: "'s migrate \<Rightarrow> 's \<Rightarrow> go_error option \<times> 's" where
  "Migrator_Fresh m s =
     (case m_Drop m s of (Some e, s') \<Rightarrow> (Some (wrapf ''drop db'' e), s') | (None, s') \<Rightarrow> m_Up m s')"

definition Migrator_Rollback :: "'s migrate \<Rightarrow> i64 \<Rightarrow> 's \<Rightarrow> go_error option \<times> 's" where
  "Migrator_Rollback m steps s = no_change_ok (m_Steps m (- steps) s)"

definition postgres_Open :: "bool \<Rightarrow> go_error option \<Rightarrow> go_error option \<Rightarrow> go_error option \<Rightarrow> go_error option" where
  "postgres_Open tracing otelsql_err sql_err ping_err =
     (case (if tracing then otelsql_err else sql_err) of Some e \<Rightarrow> Some e | None \<Rightarrow> ping_err)"

text \<open>\<open>OpenPgx\<close>: the parsed configuration gets its tracer whether or not tracing is enabled.\<close>

record pgx_conf =
  Tracer :: bool
  ConnectTimeout :: i64

definition OpenPgx ::
    "bool \<Rightarrow> go_error + pgx_conf \<Rightarrow> (pgx_conf \<Rightarrow> go_error + 'pool) \<Rightarrow> ('pool \<Rightarrow> go_error option) \<Rightarrow> go_error + 'pool" where
  "OpenPgx tracing parsed new_pool record_stats =
     (case parsed of Inl e \<Rightarrow> Inl (wrapf ''parse pool config'' e)
      | Inr conf \<Rightarrow>
          (case new_pool (conf\<lparr>Tracer := True, ConnectTimeout := 10000000000\<rparr>) of
             Inl e \<Rightarrow> Inl (wrapf ''create pool from config'' e)
           | Inr conn \<Rightarrow>
               (case (if tracing then record_stats conn else None) of
                  Some e \<Rightarrow> Inl (wrapf ''insturment pgx tracer'' e)
                | None \<Rightarrow> Inr conn)))"

definition OpenStd :: "('pool \<Rightarrow> 'db) \<Rightarrow> 'pool \<Rightarrow> go_error + 'db" where
  "OpenStd open_db pool = Inr (open_db pool)"

section \<open>redis\<close>

record redis_opts =
  Addr :: string
  Password :: string
  MaxFlushDelay :: i64
  TracingEnabled :: bool

record client_option =
  InitAddress :: "string list"
  co_Password :: string
  co_MaxFlushDelay :: i64

fun strings_Join :: "string list \<Rightarrow> string \<Rightarrow> string" where
  "strings_Join [] sep = ''''"
| "strings_Join [s] sep = s"
| "strings_Join (s # ss) sep = s @ sep @ strings_Join ss sep"

text \<open>The client with traces is given the function that shows a command as its words.\<close>

definition redis_New ::
    "(client_option \<Rightarrow> (string list \<Rightarrow> string) \<Rightarrow> go_error + 'c) \<Rightarrow> (client_option \<Rightarrow> go_error + 'c) \<Rightarrow> redis_opts \<Rightarrow> go_error + 'c" where
  "redis_New otel_NewClient NewClient opts =
     (let copts = \<lparr>InitAddress = [Addr opts], co_Password = Password opts, co_MaxFlushDelay = 0\<rparr>;
          copts' = (if MaxFlushDelay opts \<noteq> 0 then copts\<lparr>co_MaxFlushDelay := MaxFlushDelay opts\<rparr> else copts)
      in if TracingEnabled opts then otel_NewClient copts' (\<lambda>cmdTokens. strings_Join cmdTokens '' '') else NewClient copts')"

text \<open>\<open>CheckCanWrite\<close>: one report for each tick before the context ends; \<open>writes\<close> is whether the
  probe of each tick failed.\<close>

fun CheckCanWrite :: "go_error option list \<Rightarrow> bool list" where
  "CheckCanWrite [] = []"
| "CheckCanWrite (res # ticks) = (if res \<noteq> None then False else True) # CheckCanWrite ticks"

section \<open>profiling\<close>

datatype profile_type =
    ProfileCPU | ProfileAllocObjects | ProfileAllocSpace | ProfileInuseObjects | ProfileInuseSpace | ProfileGoroutines
  | ProfileBlockCount | ProfileBlockDuration | ProfileMutexCount | ProfileMutexDuration

record Profilers =
  CPU :: bool
  AllocObjects :: bool
  AllocSpace :: bool
  InuseObjects :: bool
  InuseSpace :: bool
  Goroutines :: bool
  BlockCount :: bool
  BlockDuration :: bool
  MutexCount :: bool
  MutexDuration :: bool

definition PyroscopeTypes :: "Profilers \<Rightarrow> profile_type list" where
  "PyroscopeTypes p =
     (if CPU p then [ProfileCPU] else []) @
     (if AllocObjects p then [ProfileAllocObjects] else []) @
     (if AllocSpace p then [ProfileInuseSpace] else []) @
     (if InuseObjects p then [ProfileInuseObjects] else []) @
     (if InuseSpace p then [ProfileInuseSpace] else []) @
     (if Goroutines p then [ProfileGoroutines] else []) @
     (if BlockCount p then [ProfileBlockCount] else []) @
     (if BlockDuration p then [ProfileBlockDuration] else []) @
     (if MutexCount p then [ProfileMutexCount] else []) @
     (if MutexDuration p then [ProfileMutexDuration] else [])"

text \<open>\<open>Start\<close>: what pyroscope is started with; the function returned stops it.\<close>

record profiling_config =
  pc_Name :: string
  pc_Endpoint :: string
  pc_Tags :: "string \<Rightarrow> string option"
  pc_Profilers :: Profilers

record pyroscope_config =
  ApplicationName :: string
  ServerAddress :: string
  pyro_Tags :: "string \<Rightarrow> string option"
  ProfileTypes :: "profile_type list"

definition profiling_Start :: "(pyroscope_config \<Rightarrow> 'p \<times> go_error option) \<Rightarrow> profiling_config \<Rightarrow> 'p \<times> go_error option" where
  "profiling_Start start conf =
     start \<lparr>ApplicationName = pc_Name conf, ServerAddress = pc_Endpoint conf, pyro_Tags = pc_Tags conf,
            ProfileTypes = PyroscopeTypes (pc_Profilers conf)\<rparr>"

section \<open>tracing and otel\<close>

text \<open>A sample rate is a \<open>float64\<close>, by its bits; both zeros are equal to 0.\<close>

definition float_is_zero :: "u64 \<Rightarrow> bool" where
  "float_is_zero x \<longleftrightarrow> x = 0 \<or> x = 0x8000000000000000"

definition float_one :: u64 where "float_one = 0x3FF0000000000000"

record TracingOpts =
  ServiceName :: string
  Endpoint :: string
  Environment :: string
  SampleRate :: u64
  ProfilingEnabled :: bool

datatype exporter = StdoutExporter | OtlpEndpoint string | OtlpFromEnv

definition choose_exporter :: "string \<Rightarrow> exporter" where
  "choose_exporter endpoint =
     (if endpoint = ''stdout'' then StdoutExporter
      else if endpoint \<noteq> '''' then OtlpEndpoint endpoint else OtlpFromEnv)"

definition tracer_attrs :: "TracingOpts \<Rightarrow> string \<Rightarrow> (string \<times> string) list" where
  "tracer_attrs conf version =
     (if ServiceName conf \<noteq> '''' then [(''service.name'', ServiceName conf)] else []) @
     (if version \<noteq> '''' then [(''service.version'', version)] else []) @
     (if Environment conf \<noteq> '''' then [(''environment'', Environment conf)] else [])"

text \<open>The resource that describes the process, by the options it is made of.\<close>

datatype resource_option =
    WithContainer | WithOS | WithHost | WithProcessPID | WithProcessExecutableName | WithProcessExecutablePath
  | WithProcessCommandArgs | WithProcessRuntimeName | WithProcessRuntimeVersion | WithProcessRuntimeDescription
  | WithTelemetrySDK | WithFromEnv | WithAttributes "(string \<times> string) list"

definition processOwnerAttribute :: "go_error + string \<Rightarrow> string \<Rightarrow> string \<times> string" where
  "processOwnerAttribute currentUser fallback =
     (''process.owner'',
      case currentUser of Inr username \<Rightarrow> if username \<noteq> '''' then username else fallback | Inl err \<Rightarrow> fallback)"

text \<open>\<open>currentUser\<close> and \<open>uid\<close> are what the operating system says of the process.\<close>

definition processResourceOptions :: "go_error + string \<Rightarrow> string \<Rightarrow> resource_option list" where
  "processResourceOptions currentUser uid =
     [WithProcessPID, WithProcessExecutableName, WithProcessExecutablePath, WithProcessCommandArgs, WithProcessRuntimeName,
      WithProcessRuntimeVersion, WithProcessRuntimeDescription, WithAttributes [processOwnerAttribute currentUser uid]]"

definition resource_options :: "go_error + string \<Rightarrow> string \<Rightarrow> (string \<times> string) list \<Rightarrow> resource_option list" where
  "resource_options currentUser uid attrs =
     [WithContainer, WithOS, WithHost] @ processResourceOptions currentUser uid @ [WithTelemetrySDK, WithFromEnv, WithAttributes attrs]"

record tracer_provider =
  p_exporter :: exporter
  p_resource :: "resource_option list"
  p_rate :: u64
  p_profiled :: bool

text \<open>The variables of the package \<open>tracing\<close> and of the libraries that it sets.\<close>

record tracing_globals =
  g_name :: string
  g_provider :: "tracer_provider option"
  g_propagator :: bool
  g_http_client :: bool

definition InitTracer ::
    "(exporter \<Rightarrow> go_error option) \<Rightarrow> (resource_option list \<Rightarrow> go_error option) \<Rightarrow> go_error + string \<Rightarrow> string \<Rightarrow>
     TracingOpts \<Rightarrow> string \<Rightarrow> tracing_globals \<Rightarrow> (go_error + tracer_provider) \<times> tracing_globals" where
  "InitTracer new_exporter new_resource currentUser uid conf version g =
     (let g1 = g\<lparr>g_name := ServiceName conf\<rparr>; ex = choose_exporter (Endpoint conf)
      in case new_exporter ex of
           Some e \<Rightarrow> (Inl e, g1)
         | None \<Rightarrow>
             let res = resource_options currentUser uid (tracer_attrs conf version)
             in (case new_resource res of
                   Some e \<Rightarrow> (Inl e, g1)
                 | None \<Rightarrow>
                     let rate = (if float_is_zero (SampleRate conf) then float_one else SampleRate conf);
                         tp = \<lparr>p_exporter = ex, p_resource = res, p_rate = rate, p_profiled = False\<rparr>;
                         wrapped = (if ProfilingEnabled conf then tp\<lparr>p_profiled := True\<rparr> else tp)
                     in (Inr tp, g1\<lparr>g_propagator := True, g_provider := Some wrapped, g_http_client := True\<rparr>)))"

text \<open>A span: its tracer's provider (the global one of otel when none is set here) and name, its own name
  and attributes. The parameter \<open>name\<close> hides the variable that \<open>InitTracer\<close> sets.\<close>

datatype span_kind = SpanKindUnspecified | SpanKindInternal | SpanKindConsumer

record span =
  sp_Kind :: span_kind
  sp_Provider :: "tracer_provider option"
  sp_Tracer :: string
  sp_Name :: string
  sp_Attributes :: "(string \<times> string) list"

definition NewSpan :: "tracing_globals \<Rightarrow> string \<Rightarrow> span_kind \<Rightarrow> (string \<times> string) list \<Rightarrow> span" where
  "NewSpan g name sk attrs =
     \<lparr>sp_Kind = sk, sp_Provider = g_provider g, sp_Tracer = name, sp_Name = name, sp_Attributes = attrs\<rparr>"

text \<open>\<open>AddString\<close> on the span of a context, if it records one.\<close>

definition AddString :: "span option \<Rightarrow> string \<Rightarrow> string \<Rightarrow> span option" where
  "AddString ctx key v = map_option (\<lambda>sp. sp\<lparr>sp_Attributes := sp_Attributes sp @ [(key, v)]\<rparr>) ctx"

text \<open>The names of the spans of the default HTTP client, and the span of an operation of a cache.\<close>

definition http_span_name :: "string \<Rightarrow> string \<Rightarrow> string" where
  "http_span_name method path = method @ '' '' @ path"

definition newTrace :: "tracing_globals \<Rightarrow> ('k \<Rightarrow> string) \<Rightarrow> string \<Rightarrow> 'k \<Rightarrow> span" where
  "newTrace g show_key op key = NewSpan g op SpanKindInternal [(''key'', show_key key)]"

text \<open>\<open>otel.Init\<close>: the tracer, then the exporter of metrics, then the meter provider; the function
  returned shuts both down.\<close>

definition otel_Init ::
    "(exporter \<Rightarrow> go_error option) \<Rightarrow> (resource_option list \<Rightarrow> go_error option) \<Rightarrow> go_error + string \<Rightarrow> string \<Rightarrow> go_error option \<Rightarrow>
     TracingOpts \<Rightarrow> string \<Rightarrow> tracing_globals \<times> bool \<Rightarrow> (go_error + tracer_provider) \<times> tracing_globals \<times> bool" where
  "otel_Init new_exporter new_resource currentUser uid prom_err conf version g =
     (case InitTracer new_exporter new_resource currentUser uid conf version (fst g) of
        (Inl e, g1) \<Rightarrow> (Inl (wrapf ''init otel tracer'' e), g1, snd g)
      | (Inr tp, g1) \<Rightarrow>
          (case prom_err of
             Some e \<Rightarrow> (Inl (wrapf ''init otel prom exporter'' e), g1, snd g)
           | None \<Rightarrow> (Inr tp, g1, True)))"

section \<open>grpc/interceptors\<close>

text \<open>\<open>logging.Level\<close> is an \<open>int\<close> type; a level that is none of the four is not logged.\<close>

datatype grpc_line = DebugContext | InfoContext | WarnContext | ErrorContext

definition UnaryServerLogger_line :: "int \<Rightarrow> grpc_line option" where
  "UnaryServerLogger_line level =
     (if level = - 4 then Some DebugContext else if level = 8 then Some ErrorContext
      else if level = 0 then Some InfoContext else if level = 4 then Some WarnContext else None)"

section \<open>Properties\<close>

text \<open>A reply gives the sender what the responder's handler returned: its data, and an error
  with the same text, for any encoding of responses that reads back; only an error whose text is
  empty is lost, so that the sender takes the call for a success.\<close>

theorem comms_reply:
  assumes "\<And>r. unmarshal (marshal r) = Inr r" and "h payload = (resp, err)"
  shows "Send (\<lambda>p t. Inr (respond h marshal p)) unmarshal timeout payload =
    (Some resp, case err of Some e \<Rightarrow> if error_text e = '''' then None else Some (EOther (error_text e)) | None \<Rightarrow> None)"
  using assms by (simp add: Send_def respond_def split: option.splits)

lemma comms_reply_witness:
  "Send (\<lambda>p t. Inr (respond (\<lambda>d. (rev d, Some (EOther ''no''))) (\<lambda>r. (Error r, Data r)) p))
     (\<lambda>(e, d). Inr \<lparr>Data = d, Error = e\<rparr>) 3 [1, 2] = (Some [2, 1], Some (EOther ''no''))"
  by (subst comms_reply [of _ _ _ _ "[2, 1]" "Some (EOther ''no'')"]) auto

text \<open>The option \<open>AllocSpace\<close> does not profile allocated space: no selection of profilers
  does, and what it adds is the profile of the space in use, a second time when that is selected.\<close>

theorem alloc_space_never_profiled:
  "ProfileAllocSpace \<notin> set (PyroscopeTypes p) \<and>
   count (mset (PyroscopeTypes p)) ProfileInuseSpace = of_bool (AllocSpace p) + of_bool (InuseSpace p)"
  by (simp add: PyroscopeTypes_def)

text \<open>\<open>New\<close> opens the bucket of the backend asked for, wrapped in traces when the
  configuration holds a tracer; a file system without a usable directory is refused with
  \<open>ErrInvalidRootDir\<close> in the chain, and a backend that is none of the three with
  \<open>ErrUnsupportedStorageType\<close>.\<close>

theorem storage_refusals:
  "(case storage_New lib backend conf of
      Inr b \<Rightarrow> backend \<in> {S3, Filesystem, Memory} \<and>
        (\<forall>t. conf ''tracer'' = Some (ConfTracer t) \<longrightarrow> (\<exists>b'. b = Traced t b'))
    | Inl e \<Rightarrow> (backend \<notin> {S3, Filesystem, Memory} \<longrightarrow> errors_Is e ErrUnsupportedStorageType) \<and>
        (backend = Filesystem \<and> (\<forall>d. conf ''dir'' \<noteq> Some (ConfString d)) \<longrightarrow> errors_Is e ErrInvalidRootDir)) \<and>
   storage_New lib Memory (\<lambda>_. None) = Inr MemBucket"
  by (auto simp: storage_New_def newFilesystem_def newMemory_def newS3_def S3_def Filesystem_def Memory_def
      split: sum.splits option.splits conf_value.splits)

text \<open>\<open>Fresh\<close> passes on the error that \<open>Up\<close>, \<open>Down\<close> and \<open>Rollback\<close> take for success.\<close>

lemma fresh_reports_no_change:
  assumes "m_Drop m s = (None, s1)" and "m_Up m s1 = (Some e, s2)" and "error_text e = ''no change''"
  shows "Migrator_Fresh m s = (Some e, s2)" and "Migrator_Up m s1 = (None, s2)"
  using assms by (simp_all add: Migrator_Fresh_def Migrator_Up_def no_change_ok_def)

text \<open>A tracer whose metrics exporter fails stays installed, with no function to shut it down.\<close>

lemma otel_init_leaves_tracer:
  assumes "InitTracer new_exporter new_resource currentUser uid conf version g = (Inr tp, g')"
  shows "otel_Init new_exporter new_resource currentUser uid (Some e) conf version (g, b) =
      (Inl (wrapf ''init otel prom exporter'' e), g', b) \<and> g_provider g' \<noteq> None"
  using assms by (auto simp: otel_Init_def InitTracer_def Let_def split: option.splits)

text \<open>A sample rate of zero samples everything.\<close>

lemma zero_sample_rate:
  assumes "InitTracer new_exporter new_resource currentUser uid conf version g = (Inr tp, g')" and "float_is_zero (SampleRate conf)"
  shows "p_rate tp = float_one"
  using assms by (auto simp: InitTracer_def Let_def split: option.splits)

text \<open>The pool traces its queries even when tracing is off.\<close>

lemma pgx_always_traced:
  "OpenPgx False (Inr conf) (\<lambda>c. Inr c) st = Inr (conf\<lparr>Tracer := True, ConnectTimeout := 10000000000\<rparr>)"
  by (simp add: OpenPgx_def)

text \<open>Tracing is set up as asked for when its libraries agree: exporter, resource and sampling; the owner
  of the process is always an attribute, its number when it has no name; the provider that spans
  use is the one returned, wrapped for profiles when they are enabled; and every span's tracer has
  the name of the span, whatever the service is called.\<close>

theorem tracer_set_up:
  assumes "InitTracer new_exporter new_resource currentUser uid conf version g = (Inr tp, g')"
  shows "p_exporter tp = choose_exporter (Endpoint conf) \<and>
    WithAttributes [(''process.owner'', case currentUser of Inr u \<Rightarrow> if u = '''' then uid else u | Inl _ \<Rightarrow> uid)] \<in> set (p_resource tp) \<and>
    WithAttributes (tracer_attrs conf version) \<in> set (p_resource tp) \<and>
    sp_Provider (NewSpan g' name sk attrs) = Some (tp\<lparr>p_profiled := ProfilingEnabled conf\<rparr>) \<and>
    sp_Tracer (NewSpan g' name sk attrs) = name"
  using assms
  by (auto simp: InitTracer_def Let_def resource_options_def processResourceOptions_def processOwnerAttribute_def NewSpan_def
      split: option.splits sum.splits)

end
