(* ===== verification/Go_Text.thy ===== *)
theory Go_Text
  imports Prelude
begin

text \<open>
  Go strings as byte lists (\<open>string\<close> is \<open>char list\<close>, a \<open>char\<close> is a byte) and the
  operations of \<open>strings\<close>, \<open>strconv\<close>, \<open>encoding/hex\<close> and \<open>regexp\<close> the
  repository uses: decimal printing and parsing, \<open>strings.ReplaceAll\<close>, \<open>strings.Replace\<close>
  with count 1, \<open>strings.Split\<close> at one byte, and \<open>FindAllString\<close> of the repository's
  two shapes of regular expression. The lemmas say how they act on a text whose pieces are known.
\<close>

section \<open>Decimal numbers\<close>

definition is_digit :: "char \<Rightarrow> bool" where
  "is_digit c \<longleftrightarrow> 48 \<le> (of_char c :: nat) \<and> (of_char c :: nat) \<le> 57"

definition digit_val :: "char \<Rightarrow> nat" where
  "digit_val c = of_char c - 48"

definition digit_char :: "nat \<Rightarrow> char" where
  "digit_char d = char_of (48 + d)"

lemma of_char_digit_char [simp]: "d < 10 \<Longrightarrow> (of_char (digit_char d) :: nat) = 48 + d"
  by (simp add: digit_char_def)

lemma is_digit_digit_char [simp]: "d < 10 \<Longrightarrow> is_digit (digit_char d)"
  by (simp add: is_digit_def)

lemma digit_val_digit_char [simp]: "d < 10 \<Longrightarrow> digit_val (digit_char d) = d"
  by (simp add: digit_val_def)

lemma digit_char_eq_0 [simp]: "d < 10 \<Longrightarrow> digit_char d = CHR ''0'' \<longleftrightarrow> d = 0"
  by (simp add: digit_char_def char_of_eq_iff take_bit_eq_mod)

lemma digit_chars:
  "digit_char 0 = CHR ''0''" "digit_char 1 = CHR ''1''" "digit_char (Suc 0) = CHR ''1''"
  "digit_char 2 = CHR ''2''" "digit_char 3 = CHR ''3''" "digit_char 4 = CHR ''4''"
  "digit_char 5 = CHR ''5''" "digit_char 6 = CHR ''6''" "digit_char 7 = CHR ''7''"
  "digit_char 8 = CHR ''8''" "digit_char 9 = CHR ''9''"
  by code_simp+

text \<open>\<open>strconv.FormatUint\<close>, \<open>fmt\<close>'s \<open>%d\<close> on a non-negative number, \<open>time.fmtInt\<close>.\<close>

fun nat_digits :: "nat \<Rightarrow> string" where
  "nat_digits n = (if n < 10 then [digit_char n] else nat_digits (n div 10) @ [digit_char (n mod 10)])"

declare nat_digits.simps [simp del]

text \<open>\<open>%d\<close> on a signed number.\<close>

definition fmt_d :: "int \<Rightarrow> string" where
  "fmt_d i = (if i < 0 then ''-'' @ nat_digits (nat (- i)) else nat_digits (nat i))"

definition digits_val :: "string \<Rightarrow> nat" where
  "digits_val ds = foldl (\<lambda>a c. 10 * a + digit_val c) 0 ds"

lemma digits_val_simps [simp]:
  "digits_val [] = 0"
  "digits_val (ds @ [c]) = 10 * digits_val ds + digit_val c"
  by (simp_all add: digits_val_def)

lemma nat_digits_nonempty [simp]: "nat_digits n \<noteq> []"
  by (subst nat_digits.simps) simp

lemma nat_digits_all: "list_all is_digit (nat_digits n)"
proof (induction n rule: nat_digits.induct)
  case (1 n)
  then show ?case by (subst nat_digits.simps) simp
qed

lemma digits_val_nat_digits [simp]: "digits_val (nat_digits n) = n"
proof (induction n rule: nat_digits.induct)
  case (1 n)
  have "digits_val [digit_char n] = n" if "n < 10"
    using that digits_val_simps(2) [of "[]"] by simp
  with 1 show ?case by (subst nat_digits.simps) auto
qed

lemma digits_val_foldl:
  "foldl (\<lambda>a c. 10 * a + digit_val c) v ds = v * 10 ^ length ds + digits_val ds"
proof (induction ds rule: rev_induct)
  case (snoc c ds)
  then show ?case by (simp add: algebra_simps)
qed simp

lemma digits_val_append: "digits_val (xs @ ys) = digits_val xs * 10 ^ length ys + digits_val ys"
  by (metis digits_val_def digits_val_foldl foldl_append)

lemma digits_val_Cons: "digits_val (c # ds) = digit_val c * 10 ^ length ds + digits_val ds"
  using digits_val_append [of "[c]" ds] digits_val_simps(2) [of "[]" c] by simp

text \<open>
  \<open>strconv.Atoi\<close> on a non-empty run of decimal digits, with its error ignored: the value, or
  the largest \<open>int\<close> when it is out of range (what \<open>Atoi\<close> returns beside \<open>ErrRange\<close>).
\<close>

definition Atoi_ignoring_range :: "string \<Rightarrow> int" where
  "Atoi_ignoring_range ds = min (int (digits_val ds)) max_i64"

section \<open>strings.ReplaceAll, strings.Replace, strings.Split\<close>

fun strip_prefix :: "string \<Rightarrow> string \<Rightarrow> string option" where
  "strip_prefix [] s = Some s"
| "strip_prefix (p # ps) [] = None"
| "strip_prefix (p # ps) (c # cs) = (if p = c then strip_prefix ps cs else None)"

lemma strip_prefix_Some: "strip_prefix p s = Some r \<longleftrightarrow> s = p @ r"
  by (induction p s rule: strip_prefix.induct) auto

lemma strip_prefix_append [simp]: "strip_prefix p (p @ r) = Some r"
  by (simp add: strip_prefix_Some)

text \<open>
  \<open>strings.ReplaceAll(s, old, new)\<close> for a non-empty \<open>old\<close>, the only way the repository
  calls it: the non-overlapping occurrences of \<open>old\<close>, found from the left.
\<close>

function replace_all :: "string \<Rightarrow> string \<Rightarrow> string \<Rightarrow> string" where
  "replace_all old new [] = []"
| "replace_all old new (c # cs) =
     (if old = [] then c # cs
      else case strip_prefix old (c # cs) of
             Some r \<Rightarrow> new @ replace_all old new r
           | None \<Rightarrow> c # replace_all old new cs)"
  by pat_completeness auto
termination
proof (relation "measure (\<lambda>(old, new, s). length s)")
  fix old new :: string and c cs r
  assume "old \<noteq> []" and "strip_prefix old (c # cs) = Some r"
  then have "length (c # cs) = length old + length r" and "0 < length old"
    by (auto simp: strip_prefix_Some simp flip: length_append)
  then show "((old, new, r), (old, new, c # cs)) \<in> measure (\<lambda>(old, new, s). length s)" by simp
qed auto

text \<open>\<open>strings.Replace(s, old, new, 1)\<close>.\<close>

fun replace_first :: "string \<Rightarrow> string \<Rightarrow> string \<Rightarrow> string" where
  "replace_first old new [] = []"
| "replace_first old new (c # cs) =
     (case strip_prefix old (c # cs) of
        Some r \<Rightarrow> new @ r
      | None \<Rightarrow> c # replace_first old new cs)"

text \<open>\<open>strings.Split(s, sep)\<close> for a separator of one byte: never an empty list.\<close>

fun split_on :: "char \<Rightarrow> string \<Rightarrow> string list" where
  "split_on sep [] = [[]]"
| "split_on sep (c # cs) =
     (if c = sep then [] # split_on sep cs
      else case split_on sep cs of [] \<Rightarrow> [[c]] | p # ps \<Rightarrow> (c # p) # ps)"

lemma split_on_nonempty [simp]: "split_on sep s \<noteq> []"
  by (induction s) (auto split: list.splits)

lemma split_on_none: "sep \<notin> set s \<Longrightarrow> split_on sep s = [s]"
  by (induction s) auto

lemma split_on_append: "sep \<notin> set a \<Longrightarrow> split_on sep (a @ sep # b) = a # split_on sep b"
  by (induction a) auto

text \<open>A pattern whose last byte does not occur in the text is not found.\<close>

lemma replace_all_none: "c \<notin> set s \<Longrightarrow> replace_all (p @ [c]) new s = s"
proof (induction s)
  case (Cons x s)
  have "strip_prefix (p @ [c]) (x # s) = None"
  proof (rule ccontr)
    assume "strip_prefix (p @ [c]) (x # s) \<noteq> None"
    then obtain r where "x # s = (p @ [c]) @ r" by (auto simp: strip_prefix_Some)
    then have "c \<in> set (x # s)" by (metis in_set_conv_decomp append.assoc append_Cons)
    with Cons.prems show False by blast
  qed
  with Cons show ?case by simp
qed simp

text \<open>A pattern whose last byte occurs once in the text, at its end, is replaced there only.\<close>

lemma replace_all_once:
  assumes "c \<notin> set a" "c \<notin> set p" "c \<notin> set b"
  shows "replace_all (p @ [c]) new (a @ p @ c # b) = a @ new @ b"
  using assms(1)
proof (induction a)
  case Nil
  show ?case
  proof (cases "p @ c # b")
    case (Cons x xs)
    have "strip_prefix (p @ [c]) (x # xs) = Some b"
      using Cons by (metis append.assoc append_Cons append_Nil strip_prefix_append)
    then show ?thesis using Cons assms(3) by (simp add: replace_all_none)
  qed simp
next
  case (Cons x a)
  have "strip_prefix (p @ [c]) (x # a @ p @ c # b) = None"
  proof (rule ccontr)
    assume "strip_prefix (p @ [c]) (x # a @ p @ c # b) \<noteq> None"
    then obtain r where r: "(x # a @ p) @ c # b = p @ c # r"
      by (auto simp: strip_prefix_Some)
    have "c \<notin> set (x # a @ p)" using Cons.prems assms(2) by simp
    have "takeWhile (\<lambda>y. y \<noteq> c) ((x # a @ p) @ c # b) = x # a @ p"
      using \<open>c \<notin> set (x # a @ p)\<close> by (subst takeWhile_append2) auto
    moreover have "takeWhile (\<lambda>y. y \<noteq> c) (p @ c # r) = p"
      using assms(2) by (subst takeWhile_append2) auto
    ultimately have "length (x # a @ p) = length p" using r by metis
    then show False by simp
  qed
  with Cons show ?case by simp
qed

section \<open>FindAllString\<close>

text \<open>
  \<open>regexp.MustCompile(`[0-9]+X`).FindAllString(s, -1)\<close> for one letter \<open>X\<close>: a match is a
  maximal run of digits that \<open>X\<close> follows. \<open>acc\<close> is the current run, reversed.
\<close>

fun find_digit_runs :: "char \<Rightarrow> string \<Rightarrow> string \<Rightarrow> string list" where
  "find_digit_runs x acc [] = []"
| "find_digit_runs x acc (c # cs) =
     (if is_digit c then find_digit_runs x (c # acc) cs
      else if c = x \<and> acc \<noteq> [] then rev (c # acc) # find_digit_runs x [] cs
      else find_digit_runs x [] cs)"

text \<open>
  \<open>regexp.MustCompile(`X[class]+`).FindAllString(s, -1)\<close> for a leading byte \<open>X\<close> outside
  the class: a match is \<open>X\<close> and the longest non-empty run of the class after it.
\<close>

fun find_prefixed_runs :: "char \<Rightarrow> (char \<Rightarrow> bool) \<Rightarrow> string \<Rightarrow> string list" where
  "find_prefixed_runs x cl [] = []"
| "find_prefixed_runs x cl (c # cs) =
     (if c = x \<and> takeWhile cl cs \<noteq> [] then (c # takeWhile cl cs) # find_prefixed_runs x cl cs
      else find_prefixed_runs x cl cs)"

lemma find_digit_runs_none:
  "x \<notin> set s \<Longrightarrow> find_digit_runs x acc s = []"
  by (induction s arbitrary: acc) auto

lemma find_digit_runs_digits:
  "list_all is_digit ds \<Longrightarrow> find_digit_runs x acc (ds @ s) = find_digit_runs x (rev ds @ acc) s"
  by (induction ds arbitrary: acc) auto

lemma find_digit_runs_once:
  assumes "list_all is_digit ds" "ds \<noteq> []" "\<not> is_digit x" "x \<notin> set b"
  shows "find_digit_runs x [] (ds @ x # b) = [ds @ [x]]"
  using assms by (simp add: find_digit_runs_digits find_digit_runs_none)

section \<open>Hexadecimal\<close>

definition hex_digit :: "nat \<Rightarrow> char" where
  "hex_digit d = (if d < 10 then char_of (48 + d) else char_of (87 + d))"

definition hex_byte :: "u8 \<Rightarrow> string" where
  "hex_byte b = [hex_digit (unat b div 16), hex_digit (unat b mod 16)]"

text \<open>\<open>hex.EncodeToString\<close>.\<close>

definition hex_encode :: "u8 list \<Rightarrow> string" where
  "hex_encode bs = concat (map hex_byte bs)"

lemma length_hex_encode [simp]: "length (hex_encode bs) = 2 * length bs"
  by (induction bs) (auto simp: hex_encode_def hex_byte_def)

definition is_hex_lower :: "char \<Rightarrow> bool" where
  "is_hex_lower c \<longleftrightarrow> is_digit c \<or> (97 \<le> (of_char c :: nat) \<and> (of_char c :: nat) \<le> 102)"

lemma hex_digit_lower: "d < 16 \<Longrightarrow> is_hex_lower (hex_digit d)"
  by (simp add: is_hex_lower_def is_digit_def hex_digit_def)

lemma hex_encode_lower: "list_all is_hex_lower (hex_encode bs)"
proof (induction bs)
  case (Cons b bs)
  have "unat b div 16 < 16" using unsigned_less [of b] by (simp add: div_less_iff_less_mult)
  with Cons show ?case by (simp add: hex_encode_def hex_byte_def hex_digit_lower)
qed (simp add: hex_encode_def)

definition hex_val :: "char \<Rightarrow> nat" where
  "hex_val c = (if is_digit c then of_char c - 48 else of_char c - 87)"

text \<open>The reading of an even number of lower-case digits.\<close>

fun hex_decode :: "string \<Rightarrow> u8 list option" where
  "hex_decode [] = Some []"
| "hex_decode [c] = None"
| "hex_decode (c # d # s) =
     (if is_hex_lower c \<and> is_hex_lower d
      then map_option (\<lambda>bs. word_of_nat (16 * hex_val c + hex_val d) # bs) (hex_decode s) else None)"

lemma hex_val_hex_digit: "d < 16 \<Longrightarrow> hex_val (hex_digit d) = d"
  by (auto simp: hex_val_def hex_digit_def is_digit_def)

lemma hex_decode_encode [simp]: "hex_decode (hex_encode bs) = Some bs"
proof (induction bs)
  case (Cons b bs)
  have "unat b div 16 < 16" using unsigned_less [of b] by (simp add: div_less_iff_less_mult)
  moreover have "word_of_nat (16 * (unat b div 16) + unat b mod 16) = b" by simp
  ultimately show ?case using Cons
    by (simp add: hex_encode_def hex_byte_def hex_digit_lower hex_val_hex_digit)
qed (simp add: hex_encode_def)

lemma hex_encode_not_lower: "\<not> is_hex_lower c \<Longrightarrow> c \<notin> set (hex_encode bs)"
  using hex_encode_lower [of bs] by (auto simp: list_all_iff)

end
