(* ===== verification/Log_Context.thy ===== *)
theory Log_Context
  imports Go_Text
begin

text \<open>
  Values that travel in a request's context and the log lines made of them: \<open>log/handler.go\<close>,
  \<open>log/slog.go\<close>, \<open>log/logger.go\<close>, \<open>http/common/common.go\<close> and the middlewares
  \<open>http/middleware/zap.go\<close>, \<open>logger.go\<close>, \<open>metrics.go\<close> and \<open>tracing.go\<close>. Contexts
  (through ctxgen), \<open>log/slog\<close>'s inner handlers and spans are parameters; a context obeys the
  laws of \<open>context.WithValue\<close>.
\<close>

section \<open>Contexts\<close>

text \<open>A key is compared with its type: plain strings, and the \<open>contextKey\<close> of package \<open>log\<close>.\<close>

datatype ctx_key = StringKey string | ContextKey string

datatype any_value =
    AString string | ABool bool | AInt i64 | AInt8 "8 word" | AInt16 "16 word" | AInt32 "32 word" | AInt64 i64
  | AUint u64 | AUint8 u8 | AUint16 "16 word" | AUint32 "32 word" | AUint64 u64 | AFloat32 "32 word"
  | AFloat64 "64 word" | ATime int | ADuration i64 | AAny string

datatype ctx_value = CString string | CAttrs "string \<Rightarrow> any_value option" | CAuth string | COther string

record 'c ctx_lib =
  WithValue :: "ctx_key \<Rightarrow> ctx_value \<Rightarrow> 'c \<Rightarrow> 'c"
  Value :: "ctx_key \<Rightarrow> 'c \<Rightarrow> ctx_value option"

definition ValueOk_string :: "'c ctx_lib \<Rightarrow> string \<Rightarrow> 'c \<Rightarrow> string option" where
  "ValueOk_string lib key ctx = (case Value lib (StringKey key) ctx of Some (CString s) \<Rightarrow> Some s | _ \<Rightarrow> None)"

text \<open>\<open>ctxgen.Value\<close> gives the zero value for a key that is not there.\<close>

definition Value_string :: "'c ctx_lib \<Rightarrow> string \<Rightarrow> 'c \<Rightarrow> string" where
  "Value_string lib key ctx = (case ValueOk_string lib key ctx of Some s \<Rightarrow> s | None \<Rightarrow> '''')"

section \<open>http/common\<close>

definition SetContextID :: "'c ctx_lib \<Rightarrow> 'c \<Rightarrow> string \<Rightarrow> 'c" where
  "SetContextID lib ctx i = WithValue lib (StringKey ''request_id'') (CString i) ctx"

definition ContextID :: "'c ctx_lib \<Rightarrow> 'c \<Rightarrow> string" where
  "ContextID lib ctx = Value_string lib ''request_id'' ctx"

definition SetTraceID :: "'c ctx_lib \<Rightarrow> 'c \<Rightarrow> string \<Rightarrow> 'c" where
  "SetTraceID lib ctx i = WithValue lib (StringKey ''trace_id'') (CString i) ctx"

definition common_TraceID :: "'c ctx_lib \<Rightarrow> 'c \<Rightarrow> string" where
  "common_TraceID lib ctx = Value_string lib ''trace_id'' ctx"

definition SetAuthMethod :: "'c ctx_lib \<Rightarrow> 'c \<Rightarrow> string \<Rightarrow> 'c" where
  "SetAuthMethod lib ctx method = WithValue lib (StringKey ''auth_method'') (CAuth method) ctx"

definition GetAuthMethod :: "'c ctx_lib \<Rightarrow> 'c \<Rightarrow> string" where
  "GetAuthMethod lib ctx = (case Value lib (StringKey ''auth_method'') ctx of Some (CAuth m) \<Rightarrow> m | _ \<Rightarrow> ''unknown'')"

text \<open>A request of another type than the one asked for is not found; here it is given by its text.\<close>

definition SetRequest :: "'c ctx_lib \<Rightarrow> 'c \<Rightarrow> string \<Rightarrow> 'c" where
  "SetRequest lib ctx req = WithValue lib (StringKey ''request'') (COther req) ctx"

definition GetRequest :: "'c ctx_lib \<Rightarrow> 'c \<Rightarrow> string option" where
  "GetRequest lib ctx = (case Value lib (StringKey ''request'') ctx of Some (COther r) \<Rightarrow> Some r | _ \<Rightarrow> None)"

record cookie =
  c_Name :: string
  c_Value :: string
  c_Path :: string
  c_Domain :: string
  c_Secure :: bool
  c_HttpOnly :: bool
  c_SameSiteNone :: bool
  c_Expires :: int

text \<open>A request's \<open>Authorization\<close> header (empty when absent) and its cookies, name and value.\<close>

record request =
  r_Authorization :: string
  r_Cookies :: "(string \<times> string) list"

definition UserAuthCookie :: string where "UserAuthCookie = ''user-auth''"
definition UserRefreshToken :: string where "UserRefreshToken = ''user-refresh''"

definition request_Cookie :: "string \<Rightarrow> request \<Rightarrow> go_error + string" where
  "request_Cookie name req =
     (case map_of (r_Cookies req) name of
        Some v \<Rightarrow> Inr v | None \<Rightarrow> Inl (EOther ''http: named cookie not present''))"

definition GetToken :: "request \<Rightarrow> string" where
  "GetToken req =
     (if r_Authorization req \<noteq> '''' then replace_first ''Bearer '' '''' (r_Authorization req)
      else case request_Cookie UserAuthCookie req of Inr v \<Rightarrow> v | Inl err \<Rightarrow> '''')"

definition GetRefreshToken :: "request \<Rightarrow> go_error + string" where
  "GetRefreshToken req =
     (case request_Cookie UserRefreshToken req of
        Inl err \<Rightarrow> Inl (wrapf ''get refresh token from cookie'' err) | Inr v \<Rightarrow> Inr v)"

text \<open>\<open>url.Parse\<close> followed by \<open>Hostname\<close> is the parameter \<open>hostname\<close>; times count nanoseconds.\<close>

definition cookie_domain :: "(string \<Rightarrow> go_error + string) \<Rightarrow> string \<Rightarrow> string" where
  "cookie_domain hostname domain =
     (case hostname domain of Inr h \<Rightarrow> if h \<noteq> '''' then h else domain | Inl err \<Rightarrow> domain)"

definition token_cookie :: "(string \<Rightarrow> go_error + string) \<Rightarrow> int \<Rightarrow> string \<Rightarrow> string \<Rightarrow> string \<Rightarrow> cookie" where
  "token_cookie hostname now name domain token =
     \<lparr>c_Name = name, c_Value = token, c_Path = ''/'', c_Domain = cookie_domain hostname domain, c_Secure = True,
      c_HttpOnly = True, c_SameSiteNone = True, c_Expires = now + 30 * 24 * 3600 * 1000000000\<rparr>"

definition SetUserAuthCookie :: "(string \<Rightarrow> go_error + string) \<Rightarrow> int \<Rightarrow> string \<Rightarrow> string \<Rightarrow> cookie list \<Rightarrow> cookie list" where
  "SetUserAuthCookie hostname now domain token cs = cs @ [token_cookie hostname now UserAuthCookie domain token]"

definition SetUserRefreshTokenCookie :: "(string \<Rightarrow> go_error + string) \<Rightarrow> int \<Rightarrow> string \<Rightarrow> string \<Rightarrow> cookie list \<Rightarrow> cookie list" where
  "SetUserRefreshTokenCookie hostname now domain token cs = cs @ [token_cookie hostname now UserRefreshToken domain token]"

section \<open>The log handler\<close>

datatype slog_value =
    SString string | SBool bool | SInt64 i64 | SUint64 u64 | SFloat64 "64 word" | SFloat32As64 "32 word" | STime int
  | SDuration i64 | SAny string

text \<open>The type switch of \<open>Handle\<close>; the conversion of a \<open>float32\<close> is exact and kept by its bits.\<close>

fun slog_attr :: "any_value \<Rightarrow> slog_value" where
  "slog_attr (AString s) = SString s"
| "slog_attr (ABool b) = SBool b"
| "slog_attr (AInt i) = SInt64 i"
| "slog_attr (AInt8 i) = SInt64 (scast i)"
| "slog_attr (AInt16 i) = SInt64 (scast i)"
| "slog_attr (AInt32 i) = SInt64 (scast i)"
| "slog_attr (AInt64 i) = SInt64 i"
| "slog_attr (AUint u) = SUint64 u"
| "slog_attr (AUint8 u) = SUint64 (ucast u)"
| "slog_attr (AUint16 u) = SUint64 (ucast u)"
| "slog_attr (AUint32 u) = SUint64 (ucast u)"
| "slog_attr (AUint64 u) = SUint64 u"
| "slog_attr (AFloat32 f) = SFloat32As64 f"
| "slog_attr (AFloat64 f) = SFloat64 f"
| "slog_attr (ATime t) = STime t"
| "slog_attr (ADuration d) = SDuration d"
| "slog_attr (AAny x) = SAny x"

type_synonym attrs = "(string \<times> slog_value) list"

definition logAttrsKey :: ctx_key where "logAttrsKey = ContextKey ''attrs.map''"

text \<open>A missing map is \<open>nil\<close>, which reads as the empty one.\<close>

definition getLogAttrs :: "'c ctx_lib \<Rightarrow> 'c \<Rightarrow> string \<Rightarrow> any_value option" where
  "getLogAttrs lib ctx = (case Value lib logAttrsKey ctx of Some (CAttrs m) \<Rightarrow> m | _ \<Rightarrow> Map.empty)"

definition storeLogAttrs :: "'c ctx_lib \<Rightarrow> 'c \<Rightarrow> (string \<Rightarrow> any_value option) \<Rightarrow> 'c" where
  "storeLogAttrs lib ctx m = WithValue lib logAttrsKey (CAttrs m) ctx"

definition WithLogAttr :: "'c ctx_lib \<Rightarrow> 'c \<Rightarrow> string \<Rightarrow> any_value \<Rightarrow> 'c" where
  "WithLogAttr lib ctx key val = storeLogAttrs lib ctx ((getLogAttrs lib ctx)(key \<mapsto> val))"

definition id_attr :: "'c ctx_lib \<Rightarrow> 'c \<Rightarrow> string \<Rightarrow> attrs" where
  "id_attr lib ctx key = (case ValueOk_string lib key ctx of Some s \<Rightarrow> [(key, SString s)] | None \<Rightarrow> [])"

text \<open>The attributes that \<open>Handle\<close> adds to a record; \<open>ks\<close> is the order in which the map is ranged over.\<close>

definition context_attrs :: "'c ctx_lib \<Rightarrow> string list \<Rightarrow> 'c \<Rightarrow> attrs" where
  "context_attrs lib ks ctx =
     id_attr lib ctx ''request_id'' @ id_attr lib ctx ''trace_id'' @ id_attr lib ctx ''user_id'' @ id_attr lib ctx ''team_id'' @
     List.map_filter (\<lambda>k. map_option (\<lambda>v. (k, slog_attr v)) (getLogAttrs lib ctx k)) ks"

text \<open>\<open>log/slog\<close>'s handlers: an inner one by its two operations, and the one of this package, a struct
  that embeds an inner handler and declares \<open>Handle\<close> only.\<close>

record ('h, 'c, 's) slog_lib =
  WithAttrs :: "attrs \<Rightarrow> 'h \<Rightarrow> 'h"
  Emit :: "'h \<Rightarrow> 'c \<Rightarrow> string \<times> attrs \<Rightarrow> 's \<Rightarrow> go_error option \<times> 's"

datatype 'h handler = Inner 'h | Handler 'h

definition NewHandler :: "'h \<Rightarrow> 'h handler" where "NewHandler h = Handler h"

definition Handle ::
    "('h, 'c, 's) slog_lib \<Rightarrow> 'c ctx_lib \<Rightarrow> string list \<Rightarrow> 'h handler \<Rightarrow> 'c \<Rightarrow> string \<times> attrs \<Rightarrow> 's \<Rightarrow> go_error option \<times> 's" where
  "Handle sl lib ks hn ctx rec =
     (case hn of
        Inner h \<Rightarrow> Emit sl h ctx rec
      | Handler h \<Rightarrow> Emit sl h ctx (fst rec, snd rec @ context_attrs lib ks ctx))"

text \<open>\<open>Logger.With\<close> calls \<open>WithAttrs\<close>, which the struct \<open>Handler\<close> has from the handler it embeds.\<close>

definition Logger_With :: "('h, 'c, 's) slog_lib \<Rightarrow> attrs \<Rightarrow> 'h handler \<Rightarrow> 'h handler" where
  "Logger_With sl as hn =
     (if as = [] then hn else case hn of Inner h \<Rightarrow> Inner (WithAttrs sl as h) | Handler h \<Rightarrow> Inner (WithAttrs sl as h))"

datatype severity = LevelDebug | LevelInfo | LevelWarn | LevelError | LevelOther int

text \<open>\<open>Setup\<close>: the handler of the default logger, for the level and the writers given.\<close>

definition Setup :: "('o \<Rightarrow> severity \<Rightarrow> 'h) \<Rightarrow> 'o \<Rightarrow> severity \<Rightarrow> 'o list \<Rightarrow> 'h handler" where
  "Setup json stdout level outputs = NewHandler (json (if outputs = [] then stdout else hd outputs) level)"

text \<open>The interface \<open>Logger\<close>, for arguments \<open>'a\<close> and a state of what was logged, and the logger that packages
  use when they are given none.\<close>

record ('a, 'c, 's) Logger =
  log_Info :: "string \<Rightarrow> 'a list \<Rightarrow> 's \<Rightarrow> 's"
  log_Debug :: "string \<Rightarrow> 'a list \<Rightarrow> 's \<Rightarrow> 's"
  log_Error :: "string \<Rightarrow> 'a list \<Rightarrow> 's \<Rightarrow> 's"
  log_ErrorContext :: "'c \<Rightarrow> string \<Rightarrow> 'a list \<Rightarrow> 's \<Rightarrow> 's"

definition NullLogger :: "('a, 'c, 's) Logger" where
  "NullLogger = \<lparr>log_Info = (\<lambda>msg args s. s), log_Debug = (\<lambda>msg args s. s), log_Error = (\<lambda>msg args s. s),
     log_ErrorContext = (\<lambda>ctx msg args s. s)\<rparr>"

definition SlogLevel :: "string \<Rightarrow> severity" where
  "SlogLevel level =
     (if level = ''error'' then LevelError else if level = ''warn'' then LevelWarn
      else if level = ''debug'' then LevelDebug else LevelInfo)"

section \<open>The middlewares\<close>

text \<open>\<open>tracing.TraceID\<close>: the id of the span in the context, if it has one.\<close>

definition tracing_TraceID :: "('c \<Rightarrow> string option) \<Rightarrow> 'c \<Rightarrow> string" where
  "tracing_TraceID span ctx = (case span ctx of Some t \<Rightarrow> t | None \<Rightarrow> '''')"

text \<open>\<open>Zap\<close>: the context with which the next handler runs.\<close>

definition Zap_context :: "'c ctx_lib \<Rightarrow> ('c \<Rightarrow> string option) \<Rightarrow> string \<Rightarrow> 'c \<Rightarrow> 'c" where
  "Zap_context lib span request_id ctx =
     (let ctx1 = (if request_id \<noteq> '''' then SetContextID lib ctx request_id else ctx);
          t = tracing_TraceID span ctx1
      in if t \<noteq> '''' then SetTraceID lib ctx1 t else ctx1)"

definition Zap :: "'c ctx_lib \<Rightarrow> ('c \<Rightarrow> string option) \<Rightarrow> string \<Rightarrow> ('c \<Rightarrow> 's \<Rightarrow> go_error option \<times> 's) \<Rightarrow> 'c \<Rightarrow> 's \<Rightarrow> go_error option \<times> 's" where
  "Zap lib span request_id next ctx s = next (Zap_context lib span request_id ctx) s"

definition logAt :: "severity \<Rightarrow> severity" where
  "logAt level = (case level of LevelOther n \<Rightarrow> LevelInfo | _ \<Rightarrow> level)"

definition bytesIn :: "string \<Rightarrow> string" where
  "bytesIn content_length = (if content_length = '''' then ''0'' else content_length)"

definition responseStatusAndSize :: "go_error + int \<times> int \<Rightarrow> int \<times> int" where
  "responseStatusAndSize r = (case r of Inl err \<Rightarrow> (0, 0) | Inr p \<Rightarrow> p)"

text \<open>What the logger middleware reads of the request; \<open>latency_human\<close> is the printed duration.\<close>

record log_request =
  RealIP :: string
  Host :: string
  RequestURI :: string
  Method :: string
  UserAgent :: string
  ContentLength :: string

text \<open>\<open>LoggerAt\<close> around \<open>next\<close>: \<open>eh\<close> is echo's error handler, \<open>unwrap\<close> reads the response, \<open>span\<close>
  the span of the context that \<open>NewSpan\<close> made, \<open>muts\<close> the functions given. The result is the
  middleware's error, the state after the error handler, and the line: its level, the logger's
  handler and the record.\<close>

definition LoggerAt ::
    "('h, 'c, 's) slog_lib \<Rightarrow> severity \<Rightarrow> ('c \<Rightarrow> 'h handler \<Rightarrow> 'h handler) list \<Rightarrow> 'h handler \<Rightarrow>
     ('s \<Rightarrow> go_error option \<times> 's) \<Rightarrow> (go_error \<Rightarrow> 's \<Rightarrow> 's) \<Rightarrow> ('s \<Rightarrow> go_error + int \<times> int) \<Rightarrow>
     ('c \<Rightarrow> string option) \<Rightarrow> log_request \<Rightarrow> i64 \<Rightarrow> string \<Rightarrow> 'c \<Rightarrow> 's \<Rightarrow>
     go_error option \<times> 's \<times> severity \<times> 'h handler \<times> (string \<times> attrs)" where
  "LoggerAt sl level muts dflt next eh unwrap span req dur dur_text ctx s =
     (let (err, s1) = next s;
          s2 = (case err of Some e \<Rightarrow> eh e s1 | None \<Rightarrow> s1);
          (status, size) = responseStatusAndSize (unwrap s2);
          logger0 = Logger_With sl
            [(''remote_ip'', SString (RealIP req)), (''host'', SString (Host req)), (''uri'', SString (RequestURI req)),
             (''method'', SString (Method req)), (''user_agent'', SString (UserAgent req)),
             (''status'', SInt64 (word_of_int status)), (''latency'', SInt64 dur), (''latency_human'', SString dur_text),
             (''bytes_in'', SString (bytesIn (ContentLength req))), (''bytes_out'', SString (fmt_d size))] dflt;
          t = tracing_TraceID span ctx;
          logger1 = (if t \<noteq> '''' then Logger_With sl [(''trace_id'', SString t)] logger0 else logger0);
          logger2 = foldl (\<lambda>l f. f ctx l) logger1 muts;
          logger3 = (case err of Some e \<Rightarrow> if 500 \<le> status then Logger_With sl [(''error'', SString (error_text e))] logger2 else logger2
                               | None \<Rightarrow> logger2)
      in (None, s2, logAt level, logger3, (''request'', [])))"

text \<open>The subsystem and the skippers of the metrics and tracing middlewares.\<close>

definition metrics_Subsystem :: "string \<Rightarrow> string" where
  "metrics_Subsystem serviceName = replace_all ''-'' ''_'' serviceName"

definition metrics_Skipper :: "string \<Rightarrow> bool" where
  "metrics_Skipper method \<longleftrightarrow> method = ''OPTIONS''"

definition skipPaths :: "string list" where "skipPaths = [''/metrics'', ''/'']"

definition tracing_Skipper :: "string \<Rightarrow> string \<Rightarrow> bool" where
  "tracing_Skipper method path = (if method = ''OPTIONS'' then True else path \<in> set skipPaths)"

section \<open>The contract of a context\<close>

locale ctx_laws =
  fixes lib :: "'c ctx_lib"
  assumes same: "Value lib k (WithValue lib k v c) = Some v"
    and other: "k \<noteq> k' \<Longrightarrow> Value lib k (WithValue lib k' v c) = Value lib k c"
begin

lemma attrs_stored: "getLogAttrs lib (storeLogAttrs lib c m) = m"
  by (simp add: getLogAttrs_def storeLogAttrs_def same)

lemma string_put: "ValueOk_string lib k (WithValue lib (StringKey k') (CString v) c) =
    (if k = k' then Some v else ValueOk_string lib k c)"
  by (simp add: ValueOk_string_def same other)

lemma ids_untouched: "id_attr lib (WithLogAttr lib c key val) k = id_attr lib c k"
  by (simp add: id_attr_def ValueOk_string_def WithLogAttr_def storeLogAttrs_def logAttrsKey_def other)

lemma request_put: "GetRequest lib (SetRequest lib c r) = Some r" "GetRequest lib (SetContextID lib c i) = GetRequest lib c"
  "GetRequest lib (WithLogAttr lib c key v) = GetRequest lib c" "GetRequest lib (SetAuthMethod lib c m) = GetRequest lib c"
  by (simp_all add: GetRequest_def SetRequest_def SetContextID_def SetAuthMethod_def WithLogAttr_def storeLogAttrs_def
      logAttrsKey_def same other)

lemma attrs_untouched: "getLogAttrs lib (WithValue lib (StringKey k) v c) = getLogAttrs lib c"
  by (simp add: getLogAttrs_def logAttrsKey_def other)

text \<open>After any calls of \<open>WithLogAttr\<close> the map holds the last value of each key.\<close>

lemma attrs_fold:
  "getLogAttrs lib (foldl (\<lambda>c (k, v). WithLogAttr lib c k v) c kvs) = getLogAttrs lib c ++ map_of (rev kvs)"
proof (induction kvs arbitrary: c)
  case (Cons kv kvs)
  obtain k v where kv: "kv = (k, v)" by (cases kv)
  have "(getLogAttrs lib c)(k \<mapsto> v) ++ map_of (rev kvs) = getLogAttrs lib c ++ (map_of (rev kvs @ [(k, v)]))"
    by (rule ext) (simp add: map_add_def split: option.splits)
  then show ?case using Cons.IH [of "WithLogAttr lib c k v"] kv by (simp add: WithLogAttr_def attrs_stored fun_upd_def)
qed simp

lemma ids_fold: "id_attr lib (foldl (\<lambda>c (k, v). WithLogAttr lib c k v) c kvs) i = id_attr lib c i"
  by (induction kvs arbitrary: c) (auto simp: ids_untouched)

lemma zap_ids:
  assumes "span ctx1 = span ctx" and "ctx1 = (if i \<noteq> '''' then SetContextID lib ctx i else ctx)"
  shows "ValueOk_string lib ''request_id'' (Zap_context lib span i ctx) =
      (if i \<noteq> '''' then Some i else ValueOk_string lib ''request_id'' ctx)"
    and "ValueOk_string lib ''trace_id'' (Zap_context lib span i ctx) =
      (if tracing_TraceID span ctx \<noteq> '''' then Some (tracing_TraceID span ctx) else ValueOk_string lib ''trace_id'' ctx)"
  using assms by (auto simp: Zap_context_def Let_def SetContextID_def SetTraceID_def string_put tracing_TraceID_def)

end

text \<open>Go's contexts are chains of pairs that are searched from the last one put.\<close>

definition chain_lib :: "(ctx_key \<times> ctx_value) list ctx_lib" where
  "chain_lib = \<lparr>WithValue = (\<lambda>k v c. (k, v) # c), Value = (\<lambda>k c. map_of c k)\<rparr>"

interpretation chain: ctx_laws chain_lib
  by unfold_locales (simp_all add: chain_lib_def)

section \<open>Properties\<close>

lemma attr_list:
  assumes "distinct ks" and "set ks = dom m"
  shows "distinct (map fst (List.map_filter (\<lambda>k. map_option (\<lambda>v. (k, g v)) (m k)) ks))"
    and "(k, x) \<in> set (List.map_filter (\<lambda>k. map_option (\<lambda>v. (k, g v)) (m k)) ks) \<longleftrightarrow> (\<exists>v. m k = Some v \<and> x = g v)"
proof -
  have "map fst (List.map_filter (\<lambda>k. map_option (\<lambda>v. (k, g v)) (m k)) ks) = filter (\<lambda>k. m k \<noteq> None) ks"
    by (induction ks) (auto simp: map_filter_simps split: option.splits)
  then show "distinct (map fst (List.map_filter (\<lambda>k. map_option (\<lambda>v. (k, g v)) (m k)) ks))" using assms(1) by simp
  show "(k, x) \<in> set (List.map_filter (\<lambda>k. map_option (\<lambda>v. (k, g v)) (m k)) ks) \<longleftrightarrow> (\<exists>v. m k = Some v \<and> x = g v)"
    using assms(2) by (force simp: List.map_filter_def)
qed

text \<open>Property C28. A line logged through the handler carries the request's id, trace, user and team
  of its context, and then each key that was put with \<open>WithLogAttr\<close> exactly once, with the last
  value put, converted to its kind, in whatever order the map is ranged over.\<close>

theorem log_line_attributes:
  assumes "ctx_laws lib" and "getLogAttrs lib c0 = Map.empty"
    and "c = foldl (\<lambda>c (k, v). WithLogAttr lib c k v) c0 kvs"
    and "distinct ks" and "set ks = dom (map_of (rev kvs))"
  shows "\<exists>tl. Handle sl lib ks (NewHandler h) c (msg, given) s =
      Emit sl h c (msg, given @ concat (map (id_attr lib c0) [''request_id'', ''trace_id'', ''user_id'', ''team_id'']) @ tl) s \<and>
    distinct (map fst tl) \<and>
    (\<forall>k x. (k, x) \<in> set tl \<longleftrightarrow> (\<exists>v. map_of (rev kvs) k = Some v \<and> x = slog_attr v))"
proof -
  have m: "getLogAttrs lib c = map_of (rev kvs)" using ctx_laws.attrs_fold [OF assms(1), of c0 kvs] assms(2,3) by simp
  have ids: "id_attr lib c i = id_attr lib c0 i" for i using ctx_laws.ids_fold [OF assms(1)] assms(3) by simp
  show ?thesis
    using attr_list [OF assms(4,5), where g = slog_attr]
    by (intro exI [of _ "List.map_filter (\<lambda>k. map_option (\<lambda>v. (k, slog_attr v)) (getLogAttrs lib c k)) ks"])
      (simp add: Handle_def NewHandler_def context_attrs_def ids m)
qed

text \<open>A logger derived with \<open>With\<close> loses the handler: what is logged through it carries
  nothing of the context, because \<open>Handler\<close> takes \<open>WithAttrs\<close> from the handler it embeds.\<close>

theorem with_drops_context:
  assumes "as \<noteq> []"
  shows "Handle sl lib ks (Logger_With sl as (NewHandler h)) c rec s = Emit sl (WithAttrs sl as h) c rec s"
  using assms by (simp add: Handle_def Logger_With_def NewHandler_def)

text \<open>The attributes that the logger middleware gives to every line, those that depend on the request,
  and the handler that has been given lists of attributes one after the other.\<close>

definition request_attrs :: "log_request \<Rightarrow> int \<Rightarrow> int \<Rightarrow> i64 \<Rightarrow> string \<Rightarrow> attrs" where
  "request_attrs req status bytes dur dur_text =
     [(''remote_ip'', SString (RealIP req)), (''host'', SString (Host req)), (''uri'', SString (RequestURI req)),
      (''method'', SString (Method req)), (''user_agent'', SString (UserAgent req)),
      (''status'', SInt64 (word_of_int status)), (''latency'', SInt64 dur), (''latency_human'', SString dur_text),
      (''bytes_in'', SString (bytesIn (ContentLength req))), (''bytes_out'', SString (fmt_d bytes))]"

definition trace_attrs :: "string option \<Rightarrow> attrs" where
  "trace_attrs t = (case t of None \<Rightarrow> [] | Some i \<Rightarrow> if i = '''' then [] else [(''trace_id'', SString i)])"

definition error_attrs :: "go_error option \<Rightarrow> int \<Rightarrow> attrs" where
  "error_attrs err status =
     (case err of Some e \<Rightarrow> if 500 \<le> status then [(''error'', SString (error_text e))] else [] | None \<Rightarrow> [])"

definition with_all :: "('h, 'c, 's) slog_lib \<Rightarrow> attrs list \<Rightarrow> 'h \<Rightarrow> 'h" where
  "with_all sl ass = fold (WithAttrs sl) (filter (\<lambda>as. as \<noteq> []) ass)"

lemma with_all_simps [simp]:
  "with_all sl [] h = h"
  "with_all sl (as # ass) h = with_all sl ass (if as = [] then h else WithAttrs sl as h)"
  by (simp_all add: with_all_def)

lemma with_all_append [simp]: "with_all sl (xs @ ys) h = with_all sl ys (with_all sl xs h)"
  by (simp add: with_all_def)

lemma Logger_With_Inner: "Logger_With sl as (Inner h) = Inner (with_all sl [as] h)"
  by (simp add: Logger_With_def)

lemma request_logger:
  "Logger_With sl (request_attrs req status bytes dur dur_text) (Handler h) = Inner (with_all sl [request_attrs req status bytes dur dur_text] h)"
  by (simp add: Logger_With_def request_attrs_def)

lemma request_attrs_some [simp]: "request_attrs req status bytes dur dur_text \<noteq> []"
  by (simp add: request_attrs_def)

lemma decorated: "foldl (\<lambda>l f. f c l) (Inner h) (map (\<lambda>g c. Logger_With sl (g c)) gs) = Inner (with_all sl (map (\<lambda>g. g c) gs) h)"
  by (induction gs arbitrary: h) (simp_all add: Logger_With_Inner)

text \<open>Property C29. The logger middleware answers an error of the next handler once, through echo's error
  handler, and returns none. The line it writes has the level asked for (any other level is info)
  and exactly these attributes: those of the request and its answer (status and size 0 when the
  response cannot be read), the id of the span's trace if it has one, those that the functions it was
  given add with \<open>With\<close>, in their order, and the error exactly when the status is that of a server
  error. The request id, the user and whatever else \<open>Handle\<close> adds from the context are not among
  them, although the line is written with that context.\<close>

theorem request_logged:
  fixes unwrap :: "'s \<Rightarrow> go_error + int \<times> int"
  assumes "next s = (err, s1)" and "s2 = (case err of Some e \<Rightarrow> eh e s1 | None \<Rightarrow> s1)"
    and "responseStatusAndSize (unwrap s2) = (status, bytes)"
    and "muts = map (\<lambda>g c. Logger_With sl (g c)) gs"
  shows "\<exists>logger.
    LoggerAt sl level muts (NewHandler h) next eh unwrap span req dur dur_text ctx s =
      (None, s2, (case level of LevelOther n \<Rightarrow> LevelInfo | _ \<Rightarrow> level), logger, (''request'', [])) \<and>
    Handle sl lib ks logger ctx (''request'', []) s2 =
      Emit sl (with_all sl ([request_attrs req status bytes dur dur_text, trace_attrs (span ctx)] @
          map (\<lambda>g. g ctx) gs @ [error_attrs err status]) h) ctx (''request'', []) s2"
proof -
  let ?l = "Inner (with_all sl ([request_attrs req status bytes dur dur_text, trace_attrs (span ctx)] @
          map (\<lambda>g. g ctx) gs @ [error_attrs err status]) h)"
  have "LoggerAt sl level muts (NewHandler h) next eh unwrap span req dur dur_text ctx s =
      (None, s2, (case level of LevelOther n \<Rightarrow> LevelInfo | _ \<Rightarrow> level), ?l, (''request'', []))"
    unfolding LoggerAt_def assms(1) Let_def case_prod_conv assms(2) [symmetric] assms(3,4) request_attrs_def [symmetric]
    by (simp add: NewHandler_def request_logger trace_attrs_def error_attrs_def tracing_TraceID_def Logger_With_Inner decorated logAt_def
        split: option.splits severity.splits)
  then show ?thesis by (intro exI [of _ ?l]) (simp add: Handle_def)
qed

text \<open>A request that went through \<open>Zap\<close> is logged with its ids: a line that a handler
  writes with the request's context carries the request id of the response header and the trace
  id of its span.\<close>

theorem zap_ids_logged:
  assumes "ctx_laws lib" and "\<And>k v c. span (WithValue lib k v c) = span c"
    and "span ctx = Some t" and "t \<noteq> ''''" and "i \<noteq> ''''"
    and "next = (\<lambda>c s. Handle sl lib ks (NewHandler h) c (msg, given) s)"
  shows "\<exists>tl. Zap lib span i next ctx s =
    Emit sl h (Zap_context lib span i ctx) (msg, given @ [(''request_id'', SString i), (''trace_id'', SString t)] @ tl) s"
proof -
  have "ValueOk_string lib ''request_id'' (Zap_context lib span i ctx) = Some i"
    "ValueOk_string lib ''trace_id'' (Zap_context lib span i ctx) = Some t"
    using ctx_laws.zap_ids [OF assms(1), where span = span and i = i and ctx = ctx] assms(2-5)
    by (simp_all add: SetContextID_def tracing_TraceID_def)
  then show ?thesis
    by (auto simp: Zap_def assms(6) Handle_def NewHandler_def context_attrs_def id_attr_def)
qed

text \<open>The token of a request: a bearer token is the header without its scheme, whatever the
  cookies; without the header it is the cookie that \<open>SetUserAuthCookie\<close> set, which goes out with
  the host of the URL as its domain.\<close>

theorem token_source:
  assumes "\<forall>c \<in> set cs. c_Name c \<noteq> UserAuthCookie"
  shows "GetToken \<lparr>r_Authorization = ''Bearer '' @ t, r_Cookies = rc\<rparr> = t \<and>
    GetToken \<lparr>r_Authorization = '''', r_Cookies = map (\<lambda>c. (c_Name c, c_Value c)) (SetUserAuthCookie hostname now domain t cs)\<rparr> = t \<and>
    (\<forall>h. hostname domain = Inr h \<longrightarrow> h \<noteq> '''' \<longrightarrow> c_Domain (last (SetUserAuthCookie hostname now domain t cs)) = h)"
proof -
  have "map_of (map (\<lambda>c. (c_Name c, c_Value c)) cs) UserAuthCookie = None"
    using assms by (auto simp: map_of_eq_None_iff)
  then show ?thesis
    by (simp add: GetToken_def request_Cookie_def SetUserAuthCookie_def token_cookie_def cookie_domain_def map_add_def)
qed

section \<open>A log of lines\<close>

text \<open>An inner handler that keeps the attributes of \<open>WithAttrs\<close> and appends the line to a list.\<close>

definition list_slog :: "(attrs, (ctx_key \<times> ctx_value) list, (string \<times> attrs) list) slog_lib" where
  "list_slog = \<lparr>WithAttrs = (\<lambda>as h. h @ as), Emit = (\<lambda>h c rec s. (None, s @ [(fst rec, h @ snd rec)]))\<rparr>"

definition demo_ctx :: "(ctx_key \<times> ctx_value) list" where
  "demo_ctx = [(StringKey ''request_id'', CString ''r1'')]"

lemma log_line_attributes_witness:
  "\<exists>tl. Handle list_slog chain_lib [''b'', ''a''] (NewHandler [])
      (WithLogAttr chain_lib (WithLogAttr chain_lib (WithLogAttr chain_lib demo_ctx ''a'' (AInt8 1)) ''b'' (ABool True)) ''a'' (AInt8 (- 1)))
      (''hi'', []) [] = (None, [(''hi'', [(''request_id'', SString ''r1'')] @ tl)]) \<and>
    distinct (map fst tl) \<and> (''a'', SInt64 (- 1)) \<in> set tl"
proof -
  have 1: "getLogAttrs chain_lib demo_ctx = Map.empty"
    by (simp add: getLogAttrs_def chain_lib_def demo_ctx_def logAttrsKey_def)
  let ?kvs = "[(''a'', AInt8 1), (''b'', ABool True), (''a'', AInt8 (- 1))]"
  have 2: "set [''b'', ''a''] = dom (map_of (rev ?kvs))" by auto
  have "\<exists>tl. Handle list_slog chain_lib [''b'', ''a''] (NewHandler []) (foldl (\<lambda>c (k, v). WithLogAttr chain_lib c k v) demo_ctx ?kvs) (''hi'', []) [] =
      Emit list_slog [] (foldl (\<lambda>c (k, v). WithLogAttr chain_lib c k v) demo_ctx ?kvs)
        (''hi'', [] @ concat (map (id_attr chain_lib demo_ctx) [''request_id'', ''trace_id'', ''user_id'', ''team_id'']) @ tl) [] \<and>
      distinct (map fst tl) \<and> (\<forall>k x. (k, x) \<in> set tl \<longleftrightarrow> (\<exists>v. map_of (rev ?kvs) k = Some v \<and> x = slog_attr v))"
    by (rule log_line_attributes [OF chain.ctx_laws_axioms 1 refl _ 2]) simp
  then obtain tl where tl: "Handle list_slog chain_lib [''b'', ''a''] (NewHandler []) (foldl (\<lambda>c (k, v). WithLogAttr chain_lib c k v) demo_ctx ?kvs) (''hi'', []) [] =
      (None, [(''hi'', [(''request_id'', SString ''r1'')] @ tl)])" "distinct (map fst tl)"
      "\<forall>k x. (k, x) \<in> set tl \<longleftrightarrow> (\<exists>v. map_of (rev ?kvs) k = Some v \<and> x = slog_attr v)"
    by (auto simp: list_slog_def id_attr_def ValueOk_string_def chain_lib_def demo_ctx_def)
  have "(''a'', SInt64 (- 1)) \<in> set tl" using tl(3) by auto
  then show ?thesis using tl(1,2) by (intro exI [of _ tl]) simp
qed

lemma with_drops_context_witness:
  "Handle list_slog chain_lib [] (Logger_With list_slog [(''component'', SString ''events'')] (NewHandler [])) demo_ctx (''hi'', []) [] =
     (None, [(''hi'', [(''component'', SString ''events'')])]) \<and>
   Handle list_slog chain_lib [] (NewHandler []) demo_ctx (''hi'', []) [] = (None, [(''hi'', [(''request_id'', SString ''r1'')])])"
  using with_drops_context [of "[(''component'', SString ''events'')]" list_slog chain_lib "[]" "[]" demo_ctx "(''hi'', [])" "[]"]
  by (simp add: list_slog_def Handle_def NewHandler_def context_attrs_def id_attr_def ValueOk_string_def chain_lib_def
      demo_ctx_def map_filter_simps)

lemma token_source_witness:
  "GetToken \<lparr>r_Authorization = ''Bearer abc'', r_Cookies = []\<rparr> = ''abc'' \<and>
   c_Domain (last (SetUserAuthCookie (\<lambda>_. Inr ''example.org'') 0 ''https://example.org'' ''abc'' [])) = ''example.org''"
  using token_source [of "[]" "''abc''" "[]" "\<lambda>_. Inr ''example.org''" 0 "''https://example.org''"] by simp

lemma zap_ids_logged_witness:
  "\<exists>tl c. Zap chain_lib (\<lambda>_. Some ''t1'') ''r1'' (\<lambda>c s. Handle list_slog chain_lib [] (NewHandler []) c (''hi'', []) s) [] [] =
     Emit list_slog [] c (''hi'', [(''request_id'', SString ''r1''), (''trace_id'', SString ''t1'')] @ tl) []"
  using zap_ids_logged [OF chain.ctx_laws_axioms, of "\<lambda>_. Some ''t1''" "[]" "''t1''" "''r1''" _ list_slog "[]" "[]" "''hi''" "[]" "[]"]
  by auto

lemma request_logged_witness:
  "\<exists>logger. LoggerAt list_slog LevelInfo [\<lambda>c. Logger_With list_slog [(''tenant'', SString ''a'')]] (NewHandler [])
      (\<lambda>s. (Some (EOther ''boom''), s)) (\<lambda>e s. s) (\<lambda>s. Inr (500, 12)) (\<lambda>_. Some ''t1'')
      \<lparr>RealIP = ''::1'', Host = ''h'', RequestURI = ''/'', Method = ''GET'', UserAgent = ''ua'', ContentLength = ''''\<rparr> 7 ''7ns'' demo_ctx [] =
      (None, [], LevelInfo, logger, (''request'', [])) \<and>
    Handle list_slog chain_lib [] logger demo_ctx (''request'', []) [] =
      (None, [(''request'', [(''remote_ip'', SString ''::1''), (''host'', SString ''h''), (''uri'', SString ''/''),
         (''method'', SString ''GET''), (''user_agent'', SString ''ua''), (''status'', SInt64 500), (''latency'', SInt64 7),
         (''latency_human'', SString ''7ns''), (''bytes_in'', SString ''0''), (''bytes_out'', SString (fmt_d 12)),
         (''trace_id'', SString ''t1''), (''tenant'', SString ''a''), (''error'', SString ''boom'')])])"
  using request_logged [of "\<lambda>s. (Some (EOther ''boom''), s)" "[]" "Some (EOther ''boom'')" "[]" "[]" "\<lambda>e s. s" "\<lambda>s. Inr (500, 12)" 500 12
      "[\<lambda>c. Logger_With list_slog [(''tenant'', SString ''a'')]]" list_slog "[\<lambda>c. [(''tenant'', SString ''a'')]]" LevelInfo "[]" "\<lambda>_. Some ''t1''"
      "\<lparr>RealIP = ''::1'', Host = ''h'', RequestURI = ''/'', Method = ''GET'', UserAgent = ''ua'', ContentLength = ''''\<rparr>" 7 "''7ns''" demo_ctx chain_lib "[]"]
  by (simp add: responseStatusAndSize_def request_attrs_def trace_attrs_def error_attrs_def bytesIn_def list_slog_def)

end
