(* ===== verification/Config_Parser.thy ===== *)
theory Config_Parser
  imports Prelude
begin

text \<open>
  \<open>config\<close>: the parser that runs extractors over one configuration struct, the extractor of
  command line flags (\<open>config/flags.go\<close>, which walks the struct by reflection), and the wrappers
  around the libraries that read the environment and YAML. A struct type is the list of its
  fields, a struct value the list of its fields' values in the same order.
\<close>

section \<open>Struct types and values\<close>

text \<open>\<open>reflect.Kind\<close> of a field that is no struct; a slice with the name of its element's type.\<close>

datatype kind =
    KString | KInt | KInt8 | KInt16 | KInt32 | KInt64 | KFloat32 | KFloat64 | KBool | KSlice string
  | KOther string

fun kind_text :: "kind \<Rightarrow> string" where
  "kind_text KString = ''string''" | "kind_text KInt = ''int''" | "kind_text KInt8 = ''int8''"
| "kind_text KInt16 = ''int16''" | "kind_text KInt32 = ''int32''" | "kind_text KInt64 = ''int64''"
| "kind_text KFloat32 = ''float32''" | "kind_text KFloat64 = ''float64''" | "kind_text KBool = ''bool''"
| "kind_text (KSlice e) = ''slice''" | "kind_text (KOther s) = s"

text \<open>How \<open>reflect\<close> sees a field: only an exported one can be set; what is inside an unexported
  struct cannot be set either, unless the struct is embedded.\<close>

datatype visibility = Exported | Unexported | EmbeddedUnexported

datatype gtype = Scalar kind string | Struct "sfield list"
  and sfield = Field (f_name: string) (f_tag: string) (f_vis: visibility) (f_type: gtype)

text \<open>A value that a getter of the flag set returns; floats by their bits.\<close>

datatype flag_value =
    FString string | FInt i64 | FInt8 "8 word" | FInt16 "16 word" | FInt32 "32 word" | FInt64 i64
  | FFloat32 "32 word" | FFloat64 "64 word" | FDuration i64 | FBool bool | FStrings "string list"

datatype gval = Leaf flag_value | SVal "gval list"

datatype getter =
    GetString | GetInt | GetInt8 | GetInt16 | GetInt32 | GetInt64 | GetDuration | GetFloat32
  | GetFloat64 | GetBool | GetStringSlice

record flag_set =
  Parsed :: bool
  Get :: "getter \<Rightarrow> string \<Rightarrow> go_error + flag_value"

section \<open>The flag extractor\<close>

definition parseError :: "string \<Rightarrow> string \<Rightarrow> go_error \<Rightarrow> go_error" where
  "parseError field kind err =
     EWrap (''failed to parse '' @ kind @ '' for field '' @ field @ '': '' @ error_text err) err"

definition get_as :: "flag_set \<Rightarrow> getter \<Rightarrow> string \<Rightarrow> string \<Rightarrow> string \<Rightarrow> go_error + flag_value" where
  "get_as flags g kind name tag =
     (case Get flags g tag of Inl err \<Rightarrow> Inl (parseError name kind err) | Inr v \<Rightarrow> Inr v)"

fun getFieldValue :: "flag_set \<Rightarrow> gtype \<Rightarrow> string \<Rightarrow> string \<Rightarrow> go_error + flag_value" where
  "getFieldValue flags (Scalar KString ty) name tag = get_as flags GetString ''string'' name tag"
| "getFieldValue flags (Scalar KInt ty) name tag = get_as flags GetInt ''int'' name tag"
| "getFieldValue flags (Scalar KInt8 ty) name tag = get_as flags GetInt8 ''int8'' name tag"
| "getFieldValue flags (Scalar KInt16 ty) name tag = get_as flags GetInt16 ''int16'' name tag"
| "getFieldValue flags (Scalar KInt32 ty) name tag = get_as flags GetInt32 ''int32'' name tag"
| "getFieldValue flags (Scalar KInt64 ty) name tag =
     (if ty = ''time.Duration'' then get_as flags GetDuration ''time.Duration'' name tag
      else get_as flags GetInt64 ''int64'' name tag)"
| "getFieldValue flags (Scalar KFloat32 ty) name tag = get_as flags GetFloat32 ''float32'' name tag"
| "getFieldValue flags (Scalar KFloat64 ty) name tag = get_as flags GetFloat64 ''float64'' name tag"
| "getFieldValue flags (Scalar KBool ty) name tag = get_as flags GetBool ''bool'' name tag"
| "getFieldValue flags (Scalar (KSlice e) ty) name tag = get_as flags GetStringSlice ''slice'' name tag"
| "getFieldValue flags (Scalar (KOther k) ty) name tag = Inl (EOther (''unhandled field type '' @ k))"
| "getFieldValue flags (Struct fs) name tag = Inl (EOther ''unhandled field type struct'')"

text \<open>\<open>actualField.Set(reflect.ValueOf(value).Convert(...))\<close>: a slice of strings only converts to a
  slice of strings. \<open>ro\<close> says that the field lies in an unexported struct.\<close>

definition set_field :: "bool \<Rightarrow> visibility \<Rightarrow> gtype \<Rightarrow> flag_value \<Rightarrow> gval outcome" where
  "set_field ro vis ty v =
     (if (case ty of Scalar (KSlice e) _ \<Rightarrow> e \<noteq> ''string'' | _ \<Rightarrow> False)
      then Panic ''reflect.Value.Convert: value of type []string cannot be converted''
      else if ro \<or> vis \<noteq> Exported
      then Panic ''reflect.Value.Set using value obtained using unexported field''
      else Ret (Leaf v))"

definition tagged :: "string \<Rightarrow> bool" where
  "tagged tag \<longleftrightarrow> tag \<noteq> '''' \<and> tag \<noteq> ''-''"

definition with_rest :: "gval \<Rightarrow> (go_error option \<times> gval list) outcome \<Rightarrow> (go_error option \<times> gval list) outcome" where
  "with_rest v = map_outcome_ret (map_prod id (\<lambda>vs. v # vs))"

fun processField :: "flag_set \<Rightarrow> bool \<Rightarrow> sfield \<Rightarrow> gval \<Rightarrow> (go_error option \<times> gval) outcome"
  and processItem :: "flag_set \<Rightarrow> bool \<Rightarrow> sfield list \<Rightarrow> gval list \<Rightarrow> (go_error option \<times> gval list) outcome" where
  "processField flags ro (Field name tag vis (Struct sub)) v =
     (case v of
        SVal vs \<Rightarrow>
          (case processItem flags (ro \<or> vis = Unexported) sub vs of
             Panic p \<Rightarrow> Panic p
           | Ret (Some err, vs') \<Rightarrow> Ret (Some err, SVal vs')
           | Ret (None, vs') \<Rightarrow>
               if tagged tag then Ret (Some (EOther ''unhandled field type struct''), SVal vs') else Ret (None, SVal vs'))
      | Leaf x \<Rightarrow> Ret (None, v))"
| "processField flags ro (Field name tag vis (Scalar k ty)) v =
     (if \<not> tagged tag then Ret (None, v)
      else case getFieldValue flags (Scalar k ty) name tag of
             Inl err \<Rightarrow> Ret (Some err, v)
           | Inr x \<Rightarrow> map_outcome_ret (Pair None) (set_field ro vis (Scalar k ty) x))"
| "processItem flags ro (f # fs) (v # vs) =
     (case processField flags ro f v of
        Panic p \<Rightarrow> Panic p
      | Ret (Some err, v') \<Rightarrow> Ret (Some err, v' # vs)
      | Ret (None, v') \<Rightarrow> with_rest v' (processItem flags ro fs vs))"
| "processItem flags ro fs vs = Ret (None, vs)"

text \<open>\<open>Extract\<close> on a configuration of type \<open>T\<close>.\<close>

definition PFlag_Extract :: "flag_set \<Rightarrow> gtype \<Rightarrow> gval \<Rightarrow> (go_error option \<times> gval) outcome" where
  "PFlag_Extract flags T conf =
     (if \<not> Parsed flags then Ret (Some (EOther ''pflags not parsed yet''), conf)
      else case (T, conf) of
             (Struct fs, SVal vs) \<Rightarrow> map_outcome_ret (map_prod id SVal) (processItem flags False fs vs)
           | _ \<Rightarrow> Panic ''reflect: NumField of non-struct type'')"

section \<open>The other extractors and the parser\<close>

text \<open>The libraries that read the environment and YAML are the parameters \<open>process\<close>, \<open>unmarshal\<close>.\<close>

type_synonym 'c extractor = "'c \<Rightarrow> (go_error option \<times> 'c) outcome"

definition wrapping :: "string \<Rightarrow> 'c extractor \<Rightarrow> 'c extractor" where
  "wrapping msg f = map_outcome_ret (map_prod (map_option (wrapf msg)) id) \<circ> f"

definition Env_Extract :: "'c extractor \<Rightarrow> 'c extractor" where
  "Env_Extract process = wrapping ''process env'' process"

definition Yaml_Extract :: "('d \<Rightarrow> 'c extractor) \<Rightarrow> 'd \<Rightarrow> 'c extractor" where
  "Yaml_Extract unmarshal data = wrapping ''unmarshal yaml to config'' (unmarshal data)"

definition NewParser :: "'c extractor list" where "NewParser = []"

definition WithExtractors :: "'c extractor list \<Rightarrow> 'c extractor list \<Rightarrow> 'c extractor list" where
  "WithExtractors p es = p @ es"

fun Parse_from :: "'c extractor list \<Rightarrow> 'c \<Rightarrow> ('c \<times> go_error option) outcome" where
  "Parse_from [] conf = Ret (conf, None)"
| "Parse_from (e # es) conf =
     (case e conf of
        Panic p \<Rightarrow> Panic p
      | Ret (Some err, conf') \<Rightarrow> Ret (conf', Some (wrapf ''run extractor'' err))
      | Ret (None, conf') \<Rightarrow> Parse_from es conf')"

definition Parser_Parse :: "'c extractor list \<Rightarrow> 'c \<Rightarrow> ('c \<times> go_error option) outcome" where
  "Parser_Parse p zero = Parse_from p zero"

definition RedactedString_MarshalText :: "string \<Rightarrow> string" where
  "RedactedString_MarshalText s = ''[REDACTED]''"

section \<open>What a run of the flag extractor does\<close>

text \<open>The fields of a struct type that hold no struct, by the positions that lead to them, and what a
  value holds there.\<close>

fun leaf_at :: "sfield list \<Rightarrow> nat list \<Rightarrow> sfield option" where
  "leaf_at fs [] = None"
| "leaf_at fs (i # p) =
     (if i < length fs
      then (case f_type (fs ! i) of
              Scalar k ty \<Rightarrow> if p = [] then Some (fs ! i) else None
            | Struct sub \<Rightarrow> leaf_at sub p)
      else None)"

fun read_at :: "gval \<Rightarrow> nat list \<Rightarrow> gval option" where
  "read_at v [] = Some v"
| "read_at (SVal vs) (i # p) = (if i < length vs then read_at (vs ! i) p else None)"
| "read_at (Leaf x) (i # p) = None"

fun shaped :: "gtype \<Rightarrow> gval \<Rightarrow> bool" and shaped_all :: "sfield list \<Rightarrow> gval list \<Rightarrow> bool" where
  "shaped (Scalar k ty) (Leaf x) = True"
| "shaped (Struct fs) (SVal vs) = shaped_all fs vs"
| "shaped _ _ = False"
| "shaped_all [] [] = True"
| "shaped_all (Field name tag vis ty # fs) (v # vs) = (shaped ty v \<and> shaped_all fs vs)"
| "shaped_all _ _ = False"

definition flag_of :: "flag_set \<Rightarrow> sfield \<Rightarrow> gval option" where
  "flag_of flags f =
     (case getFieldValue flags (f_type f) (f_name f) (f_tag f) of Inr x \<Rightarrow> Some (Leaf x) | Inl err \<Rightarrow> None)"

definition flags_applied :: "flag_set \<Rightarrow> sfield list \<Rightarrow> gval list \<Rightarrow> gval list \<Rightarrow> bool" where
  "flags_applied flags fs vs vs' \<longleftrightarrow>
     (\<forall>p f. leaf_at fs p = Some f \<longrightarrow>
        read_at (SVal vs') p = (if tagged (f_tag f) then flag_of flags f else read_at (SVal vs) p))"

lemma flags_applied_Nil [simp]: "flags_applied flags [] vs vs'"
proof -
  have "leaf_at [] p = None" for p by (cases p) auto
  then show ?thesis by (simp add: flags_applied_def)
qed

lemma flags_applied_Cons:
  assumes "flags_applied flags [f] [v] [v']" and "flags_applied flags fs vs vs'"
  shows "flags_applied flags (f # fs) (v # vs) (v' # vs')"
  unfolding flags_applied_def
proof (intro allI impI)
  fix p g
  assume g: "leaf_at (f # fs) p = Some g"
  then obtain i q where p: "p = i # q" by (cases p) auto
  show "read_at (SVal (v' # vs')) p = (if tagged (f_tag g) then flag_of flags g else read_at (SVal (v # vs)) p)"
  proof (cases i)
    case 0
    then have "leaf_at [f] p = Some g" using g p by (auto split: gtype.splits if_splits)
    then have "read_at (SVal [v']) p = (if tagged (f_tag g) then flag_of flags g else read_at (SVal [v]) p)"
      using assms(1) by (simp only: flags_applied_def)
    then show ?thesis using 0 p by simp
  next
    case (Suc j)
    then have "leaf_at fs (j # q) = Some g" using g p by (simp split: if_splits gtype.splits)
    then have "read_at (SVal vs') (j # q) = (if tagged (f_tag g) then flag_of flags g else read_at (SVal vs) (j # q))"
      using assms(2) by (simp only: flags_applied_def)
    moreover have "read_at (SVal (w # ws)) p = read_at (SVal ws) (j # q)" for w ws using Suc p by simp
    ultimately show ?thesis by simp
  qed
qed

lemma flags_applied_struct:
  "flags_applied flags sub vs vs' \<Longrightarrow> flags_applied flags [Field name tag vis (Struct sub)] [SVal vs] [SVal vs']"
  unfolding flags_applied_def
proof (intro allI impI)
  fix p f
  assume *: "\<forall>p f. leaf_at sub p = Some f \<longrightarrow>
      read_at (SVal vs') p = (if tagged (f_tag f) then flag_of flags f else read_at (SVal vs) p)"
    and f: "leaf_at [Field name tag vis (Struct sub)] p = Some f"
  then obtain q where "p = 0 # q" "leaf_at sub q = Some f" by (cases p) (auto split: if_splits)
  then show "read_at (SVal [SVal vs']) p = (if tagged (f_tag f) then flag_of flags f else read_at (SVal [SVal vs]) p)"
    using * by simp
qed

lemma flags_applied_scalar:
  "v' = (if tagged tag then Leaf x else v) \<Longrightarrow> (tagged tag \<Longrightarrow> getFieldValue flags (Scalar k ty) name tag = Inr x) \<Longrightarrow>
   flags_applied flags [Field name tag vis (Scalar k ty)] [v] [v']"
  unfolding flags_applied_def
proof (intro allI impI)
  fix p f
  assume *: "v' = (if tagged tag then Leaf x else v)" "tagged tag \<Longrightarrow> getFieldValue flags (Scalar k ty) name tag = Inr x"
    and "leaf_at [Field name tag vis (Scalar k ty)] p = Some f"
  then have "p = [0]" "f = Field name tag vis (Scalar k ty)" by (cases p; auto split: if_splits)+
  then show "read_at (SVal [v']) p = (if tagged (f_tag f) then flag_of flags f else read_at (SVal [v]) p)"
    using * by (simp add: flag_of_def)
qed

lemma map_outcome_ret_Ret: "map_outcome_ret f r = Ret y \<longleftrightarrow> (\<exists>x. r = Ret x \<and> y = f x)"
  by (cases r) auto

lemma process_ok:
  "processField flags ro f v = Ret (None, v') \<Longrightarrow> shaped (f_type f) v \<Longrightarrow>
     shaped (f_type f) v' \<and> flags_applied flags [f] [v] [v']"
  "processItem flags ro fs vs = Ret (None, vs') \<Longrightarrow> shaped_all fs vs \<Longrightarrow>
     shaped_all fs vs' \<and> flags_applied flags fs vs vs'"
proof (induction flags ro f v and flags ro fs vs arbitrary: v' and vs' rule: processField_processItem.induct)
  case (1 flags ro name tag vis sub v)
  obtain vs where v: "v = SVal vs" using 1(3) by (cases v) auto
  obtain ws where "processItem flags (ro \<or> vis = Unexported) sub vs = Ret (None, ws)" "v' = SVal ws"
    using 1(2) v by (auto split: outcome.splits prod.splits option.splits if_splits)
  then show ?case using 1(1) [OF v] 1(3) v flags_applied_struct by simp
next
  case (2 flags ro name tag vis k ty v)
  show ?case
  proof (cases "tagged tag")
    case True
    then obtain x where x: "getFieldValue flags (Scalar k ty) name tag = Inr x" and v': "v' = Leaf x"
      using 2 by (auto simp: map_outcome_ret_Ret set_field_def split: sum.splits if_splits)
    then show ?thesis using True flags_applied_scalar [of v' tag x v flags k ty name vis] by simp
  next
    case False
    then show ?thesis using 2 flags_applied_scalar [of v' tag undefined v flags k ty name vis] by simp
  qed
next
  case (3 flags ro f fs v vs)
  then obtain v1 vs1 where 1: "processField flags ro f v = Ret (None, v1)"
    and 2: "processItem flags ro fs vs = Ret (None, vs1)" and vs': "vs' = v1 # vs1"
    by (auto simp: with_rest_def map_outcome_ret_Ret split: outcome.splits prod.splits option.splits)
  have sh: "shaped (f_type f) v" "shaped_all fs vs" using 3(4) by (cases f; simp)+
  have a: "shaped (f_type f) v1 \<and> flags_applied flags [f] [v] [v1]" by (rule "3.IH"(1) [OF 1 sh(1)])
  have b: "shaped_all fs vs1 \<and> flags_applied flags fs vs vs1" using "3.IH"(2) 1 2 sh(2) by blast
  show ?case using a b vs' by (cases f) (simp add: flags_applied_Cons)
qed (auto elim: shaped_all.elims)

text \<open>The struct types that the extractor can fill from a set of flags.\<close>

fun fillable :: "flag_set \<Rightarrow> bool \<Rightarrow> sfield \<Rightarrow> bool" where
  "fillable flags ro (Field name tag vis (Struct sub)) \<longleftrightarrow>
     \<not> tagged tag \<and> list_all (fillable flags (ro \<or> vis = Unexported)) sub"
| "fillable flags ro (Field name tag vis (Scalar k ty)) \<longleftrightarrow>
     (tagged tag \<longrightarrow>
        \<not> isl (getFieldValue flags (Scalar k ty) name tag) \<and> \<not> ro \<and> vis = Exported \<and>
        (case k of KSlice e \<Rightarrow> e = ''string'' | _ \<Rightarrow> True))"

lemma process_iff:
  "shaped (f_type f) v \<Longrightarrow> (\<exists>v'. processField flags ro f v = Ret (None, v')) \<longleftrightarrow> fillable flags ro f"
  "shaped_all fs vs \<Longrightarrow> (\<exists>vs'. processItem flags ro fs vs = Ret (None, vs')) \<longleftrightarrow> list_all (fillable flags ro) fs"
proof (induction flags ro f v and flags ro fs vs rule: processField_processItem.induct)
  case (1 flags ro name tag vis sub v)
  obtain vs where v: "v = SVal vs" using 1(2) by (cases v) auto
  have "(\<exists>vs'. processItem flags (ro \<or> vis = Unexported) sub vs = Ret (None, vs')) \<longleftrightarrow>
      list_all (fillable flags (ro \<or> vis = Unexported)) sub"
    using 1(1) [OF v] 1(2) v by simp
  then show ?case using v by (auto split: outcome.splits prod.splits option.splits)
next
  case (2 flags ro name tag vis k ty v)
  show ?case
    by (cases "getFieldValue flags (Scalar k ty) name tag"; cases k)
      (auto simp: map_outcome_ret_Ret set_field_def)
next
  case (3 flags ro f fs v vs)
  have sh: "shaped (f_type f) v" "shaped_all fs vs" using 3(3) by (cases f; simp)+
  have a: "(\<exists>v'. processField flags ro f v = Ret (None, v')) \<longleftrightarrow> fillable flags ro f" by (rule "3.IH"(1) [OF sh(1)])
  show ?case
  proof (cases "\<exists>v'. processField flags ro f v = Ret (None, v')")
    case True
    then obtain v' where v': "processField flags ro f v = Ret (None, v')" ..
    have "(\<exists>vs'. processItem flags ro fs vs = Ret (None, vs')) \<longleftrightarrow> list_all (fillable flags ro) fs"
      using "3.IH"(2) [OF v' refl refl] sh(2) by blast
    then show ?thesis using a v' by (auto simp: with_rest_def map_outcome_ret_Ret)
  next
    case False
    then show ?thesis using a by (auto split: outcome.splits prod.splits option.splits)
  qed
qed (auto elim: shaped_all.elims)

section \<open>The contract of an extractor\<close>

text \<open>An extractor writes a fixed value to some places of the configuration and leaves the other places
  of \<open>P\<close> as they were; \<open>good\<close> is what it expects of the configuration and keeps.\<close>

locale field_extractor =
  fixes extr :: "'c extractor"
    and good :: "'c \<Rightarrow> bool"
    and read :: "'c \<Rightarrow> 'p \<Rightarrow> 'x"
    and P :: "'p set"
    and writes :: "'p \<Rightarrow> 'x option"
  assumes keeps: "good c \<Longrightarrow> extr c = Ret (None, c') \<Longrightarrow> good c'"
    and effect: "good c \<Longrightarrow> extr c = Ret (None, c') \<Longrightarrow> p \<in> P \<Longrightarrow>
      read c' p = (case writes p of Some x \<Rightarrow> x | None \<Rightarrow> read c p)"
begin

lemma wrapped: "field_extractor (wrapping msg extr) good read P writes"
  by unfold_locales (auto simp: wrapping_def map_outcome_ret_Ret intro: keeps effect)

lemma before_rest:
  assumes "good c" and "extr c = Ret (None, c')" and "p \<in> P"
    and "read d p = (case find_map (\<lambda>w. w p) (rev ws) of Some x \<Rightarrow> x | None \<Rightarrow> read c' p)"
  shows "read d p = (case find_map (\<lambda>w. w p) (rev (writes # ws)) of Some x \<Rightarrow> x | None \<Rightarrow> read c p)"
proof -
  show ?thesis using assms(4) effect [OF assms(1-3)] by (auto simp: find_map_append split: option.splits)
qed

end

lemma parse_last_writer:
  assumes "list_all2 (\<lambda>e w. field_extractor e good read P w) es ws" and "good zero"
    and "Parse_from es zero = Ret (c, None)" and "p \<in> P"
  shows "read c p = (case find_map (\<lambda>w. w p) (rev ws) of Some x \<Rightarrow> x | None \<Rightarrow> read zero p)"
  using assms(1-3)
proof (induction arbitrary: zero rule: list_all2_induct)
  case (Cons e es w ws)
  then obtain c1 where c1: "e zero = Ret (None, c1)" "Parse_from es c1 = Ret (c, None)"
    by (auto split: outcome.splits prod.splits option.splits)
  show ?case
    using field_extractor.before_rest [OF Cons.hyps(1) Cons.prems(1) c1(1) assms(4)]
      Cons.IH [OF field_extractor.keeps [OF Cons.hyps(1) Cons.prems(1) c1(1)] c1(2)] by blast
qed simp

section \<open>The flag extractor keeps the contract\<close>

definition flag_places :: "sfield list \<Rightarrow> nat list set" where
  "flag_places fs = {p. leaf_at fs p \<noteq> None}"

definition flag_writes :: "flag_set \<Rightarrow> sfield list \<Rightarrow> nat list \<Rightarrow> gval option option" where
  "flag_writes flags fs p =
     (case leaf_at fs p of Some f \<Rightarrow> if tagged (f_tag f) then Some (flag_of flags f) else None | None \<Rightarrow> None)"

lemma PFlag_Extract_ok:
  assumes "PFlag_Extract flags (Struct fs) conf = Ret (None, conf')" and "shaped (Struct fs) conf"
  obtains vs vs' where "conf = SVal vs" "conf' = SVal vs'" "processItem flags False fs vs = Ret (None, vs')"
    "shaped_all fs vs" "Parsed flags"
proof -
  obtain vs where vs: "conf = SVal vs" using assms(2) by (cases conf) auto
  then show ?thesis using assms that by (auto simp: PFlag_Extract_def map_outcome_ret_Ret split: if_splits)
qed

interpretation pflag: field_extractor "PFlag_Extract flags (Struct fs)" "shaped (Struct fs)" read_at "flag_places fs" "flag_writes flags fs"
  for flags fs
proof unfold_locales
  fix c c' :: gval and p
  assume c: "shaped (Struct fs) c" "PFlag_Extract flags (Struct fs) c = Ret (None, c')"
  obtain vs vs' where vs: "c = SVal vs" "c' = SVal vs'" "processItem flags False fs vs = Ret (None, vs')" "shaped_all fs vs"
    by (rule PFlag_Extract_ok [OF c(2,1)])
  from process_ok(2) [OF vs(3,4)] have ok: "shaped_all fs vs'" "flags_applied flags fs vs vs'" by auto
  then show "shaped (Struct fs) c'" using vs by simp
  show "p \<in> flag_places fs \<Longrightarrow> read_at c' p = (case flag_writes flags fs p of Some x \<Rightarrow> x | None \<Rightarrow> read_at c p)"
    using ok(2) vs(1,2) by (fastforce simp: flag_places_def flag_writes_def flags_applied_def)
qed

lemma fillable_leaf:
  "leaf_at fs p = Some f \<Longrightarrow> list_all (fillable flags ro) fs \<Longrightarrow> tagged (f_tag f) \<Longrightarrow> flag_of flags f \<noteq> None"
proof (induction fs p arbitrary: ro rule: leaf_at.induct)
  case (2 fs i p)
  then have i: "i < length fs" "fillable flags ro (fs ! i)" by (auto split: if_splits simp: list_all_length)
  show ?case
  proof (cases "f_type (fs ! i)")
    case (Scalar k ty)
    then have "f = fs ! i" using 2(2) i(1) by (auto split: if_splits)
    then show ?thesis using i(2) Scalar 2(4)
      by (cases "fs ! i") (auto simp: flag_of_def isl_def split: sum.splits)
  next
    case (Struct sub)
    then have "leaf_at sub p = Some f" using 2(2) i(1) by simp
    moreover obtain ro' where "list_all (fillable flags ro') sub" using i(2) Struct by (cases "fs ! i") auto
    ultimately show ?thesis using 2(1) [OF i(1) Struct] 2(4) by blast
  qed
qed simp

text \<open>A run of the flag extractor that succeeds stores in every tagged field of the
  struct, nested ones included, the value of its flag by the field's kind, and leaves every other
  field as it was.\<close>

theorem flags_extracted:
  assumes "PFlag_Extract flags (Struct fs) conf = Ret (None, conf')" and "shaped (Struct fs) conf"
    and "leaf_at fs p = Some f"
  shows "read_at conf' p =
    (if tagged (f_tag f) then flag_of flags f else read_at conf p) \<and> (tagged (f_tag f) \<longrightarrow> flag_of flags f \<noteq> None)"
proof -
  obtain vs vs' where "conf = SVal vs" "processItem flags False fs vs = Ret (None, vs')" "shaped_all fs vs"
    by (rule PFlag_Extract_ok [OF assms(1,2)])
  then have "list_all (fillable flags False) fs" using process_iff(2) by blast
  then show ?thesis using pflag.effect [OF assms(2,1), of p] fillable_leaf [OF assms(3)] assms(3)
    by (auto simp: flag_places_def flag_writes_def)
qed

text \<open>Property C19. The extractor succeeds exactly when the flags were parsed and the struct can be
  filled: no struct field is tagged, and every tagged field is exported, of a kind with a getter,
  has a flag of its kind, and is, if a slice, one of strings. In every other case it returns an
  error or panics.\<close>

theorem flags_extractable:
  assumes "shaped (Struct fs) conf"
  shows "(\<exists>conf'. PFlag_Extract flags (Struct fs) conf = Ret (None, conf')) \<longleftrightarrow>
    Parsed flags \<and> list_all (fillable flags False) fs"
proof -
  obtain vs where vs: "conf = SVal vs" "shaped_all fs vs" using assms by (cases conf) auto
  show ?thesis using process_iff(2) [OF vs(2), of flags False] vs(1)
    by (auto simp: PFlag_Extract_def map_outcome_ret_Ret)
qed

text \<open>Property C18. The last extractor that writes a field wins, and \<open>Parse\<close> leaves at its zero value
  what none writes: for any extractors that keep the contract, such as those of YAML and the
  environment if their libraries do, followed by the flags.\<close>

theorem parse_precedence:
  assumes "list_all2 (\<lambda>e w. field_extractor e (shaped (Struct fs)) read_at (flag_places fs) w) es ws"
    and "shaped (Struct fs) zero"
    and "Parser_Parse (WithExtractors (WithExtractors NewParser es) [PFlag_Extract flags (Struct fs)]) zero = Ret (conf, None)"
    and "leaf_at fs p = Some f"
  shows "read_at conf p =
    (if tagged (f_tag f) then flag_of flags f
     else case find_map (\<lambda>w. w p) (rev ws) of Some x \<Rightarrow> x | None \<Rightarrow> read_at zero p)"
proof -
  have "list_all2 (\<lambda>e w. field_extractor e (shaped (Struct fs)) read_at (flag_places fs) w)
      (es @ [PFlag_Extract flags (Struct fs)]) (ws @ [flag_writes flags fs])"
    using assms(1) pflag.field_extractor_axioms by (simp add: list_all2_appendI)
  from parse_last_writer [OF this assms(2), of conf p] assms(3,4) show ?thesis
    by (auto simp: Parser_Parse_def WithExtractors_def NewParser_def flag_places_def flag_writes_def)
qed

text \<open>The first extractor that fails ends the parse: its error is returned wrapped, with
  what the configuration holds by then, and no later extractor runs.\<close>

theorem parse_stops_at_error:
  assumes "Parse_from es zero = Ret (c, None)" and "e c = Ret (Some err, c')"
  shows "Parser_Parse (es @ e # rest) zero = Ret (c', Some (EWrap (''run extractor: '' @ error_text err) err))"
  unfolding Parser_Parse_def using assms
  by (induction es arbitrary: zero) (auto simp: wrapf_def split: outcome.splits prod.splits option.splits)

section \<open>A configuration\<close>

definition demo_type :: "sfield list" where
  "demo_type =
     [Field ''SomeField'' ''some-field'' Exported (Scalar KString ''string''),
      Field ''SomeStruct'' '''' Exported (Struct [Field ''NestedInt'' ''nested-int'' Exported (Scalar KInt ''int'')]),
      Field ''ABool'' '''' Exported (Scalar KBool ''bool'')]"

definition demo_flags :: flag_set where
  "demo_flags =
     \<lparr>Parsed = True,
      Get = (\<lambda>g name.
        if g = GetString \<and> name = ''some-field'' then Inr (FString ''bongo'')
        else if g = GetInt \<and> name = ''nested-int'' then Inr (FInt 5)
        else Inl (EOther (''flag accessed but not defined: '' @ name)))\<rparr>"

definition demo_zero :: gval where
  "demo_zero = SVal [Leaf (FString ''''), SVal [Leaf (FInt 0)], Leaf (FBool False)]"

text \<open>An extractor that writes the last field, as the one of YAML does for a text that sets it.\<close>

definition demo_yaml :: "gval extractor" where
  "demo_yaml v = Ret (None, case v of SVal [a, b, c] \<Rightarrow> SVal [a, b, Leaf (FBool True)] | _ \<Rightarrow> v)"

lemmas demo_config = demo_type_def demo_flags_def demo_zero_def demo_yaml_def tagged_def get_as_def set_field_def
  flag_of_def with_rest_def

lemma demo_yaml_ok:
  "field_extractor demo_yaml (shaped (Struct demo_type)) read_at (flag_places demo_type)
     (\<lambda>p. if p = [2] then Some (Some (Leaf (FBool True))) else None)"
proof unfold_locales
  fix c c' :: gval and p
  assume *: "shaped (Struct demo_type) c" "demo_yaml c = Ret (None, c')"
  then obtain a b x where c: "c = SVal [a, b, Leaf x]" "c' = SVal [a, b, Leaf (FBool True)]"
    by (auto simp: demo_yaml_def demo_type_def elim!: shaped.elims shaped_all.elims)
  then show "shaped (Struct demo_type) c'" using *(1) by (simp add: demo_type_def)
  show "p \<in> flag_places demo_type \<Longrightarrow>
      read_at c' p = (case if p = [2] then Some (Some (Leaf (FBool True))) else None of Some x \<Rightarrow> x | None \<Rightarrow> read_at c p)"
    using c by (cases p) (auto simp: flag_places_def nth_Cons' demo_type_def split: if_splits)
qed

lemma flags_extracted_witness:
  "\<exists>conf. PFlag_Extract demo_flags (Struct demo_type) demo_zero = Ret (None, conf) \<and> read_at conf [1, 0] = Some (Leaf (FInt 5))"
proof -
  obtain conf where conf: "PFlag_Extract demo_flags (Struct demo_type) demo_zero = Ret (None, conf)"
    by (simp add: PFlag_Extract_def demo_config)
  from flags_extracted [OF this, of "[1, 0]" "Field ''NestedInt'' ''nested-int'' Exported (Scalar KInt ''int'')"]
  have "read_at conf [1, 0] = Some (Leaf (FInt 5))" by (simp add: demo_config)
  then show ?thesis using conf by blast
qed

lemma flags_extractable_witness:
  "(\<exists>conf. PFlag_Extract demo_flags (Struct demo_type) demo_zero = Ret (None, conf)) \<and>
   \<not> (\<exists>conf. PFlag_Extract (demo_flags\<lparr>Parsed := False\<rparr>) (Struct demo_type) demo_zero = Ret (None, conf))"
  by (subst (1 2) flags_extractable) (simp_all add: demo_config)

lemma parse_precedence_witness:
  "\<exists>conf. Parser_Parse (WithExtractors (WithExtractors NewParser [demo_yaml]) [PFlag_Extract demo_flags (Struct demo_type)]) demo_zero =
     Ret (conf, None) \<and> read_at conf [0] = Some (Leaf (FString ''bongo'')) \<and> read_at conf [2] = Some (Leaf (FBool True))"
proof -
  obtain conf where conf: "Parser_Parse (WithExtractors (WithExtractors NewParser [demo_yaml]) [PFlag_Extract demo_flags (Struct demo_type)])
      demo_zero = Ret (conf, None)"
    by (simp add: Parser_Parse_def WithExtractors_def NewParser_def PFlag_Extract_def demo_config)
  have "read_at conf p = (if tagged (f_tag f) then flag_of demo_flags f
      else case find_map (\<lambda>w. w p) (rev [\<lambda>p. if p = [2] then Some (Some (Leaf (FBool True))) else None]) of Some x \<Rightarrow> x | None \<Rightarrow> read_at demo_zero p)"
    if "leaf_at demo_type p = Some f" for p f
    by (rule parse_precedence [OF _ _ conf that]) (simp_all add: demo_yaml_ok, simp add: demo_config)
  from this [of "[0]"] this [of "[2]"] conf show ?thesis by (simp add: demo_config)
qed

lemma parse_stops_at_error_witness:
  "Parser_Parse [demo_yaml, PFlag_Extract (demo_flags\<lparr>Parsed := False\<rparr>) (Struct demo_type), demo_yaml] demo_zero =
   Ret (SVal [Leaf (FString ''''), SVal [Leaf (FInt 0)], Leaf (FBool True)],
     Some (EWrap ''run extractor: pflags not parsed yet'' (EOther ''pflags not parsed yet'')))"
  using parse_stops_at_error [of "[demo_yaml]" demo_zero _ "PFlag_Extract (demo_flags\<lparr>Parsed := False\<rparr>) (Struct demo_type)"
      "EOther ''pflags not parsed yet''" _ "[demo_yaml]"]
  by (simp add: PFlag_Extract_def demo_config)

section \<open>Types\<close>

text \<open>The values a field of a kind can hold. Fields of kinds without a getter hold anything.\<close>

fun kind_holds :: "kind \<Rightarrow> string \<Rightarrow> flag_value \<Rightarrow> bool" where
  "kind_holds KString ty v = (case v of FString _ \<Rightarrow> True | _ \<Rightarrow> False)"
| "kind_holds KInt ty v = (case v of FInt _ \<Rightarrow> True | _ \<Rightarrow> False)"
| "kind_holds KInt8 ty v = (case v of FInt8 _ \<Rightarrow> True | _ \<Rightarrow> False)"
| "kind_holds KInt16 ty v = (case v of FInt16 _ \<Rightarrow> True | _ \<Rightarrow> False)"
| "kind_holds KInt32 ty v = (case v of FInt32 _ \<Rightarrow> True | _ \<Rightarrow> False)"
| "kind_holds KInt64 ty v =
     (if ty = ''time.Duration'' then (case v of FDuration _ \<Rightarrow> True | _ \<Rightarrow> False)
      else (case v of FInt64 _ \<Rightarrow> True | _ \<Rightarrow> False))"
| "kind_holds KFloat32 ty v = (case v of FFloat32 _ \<Rightarrow> True | _ \<Rightarrow> False)"
| "kind_holds KFloat64 ty v = (case v of FFloat64 _ \<Rightarrow> True | _ \<Rightarrow> False)"
| "kind_holds KBool ty v = (case v of FBool _ \<Rightarrow> True | _ \<Rightarrow> False)"
| "kind_holds (KSlice e) ty v = (e = ''string'' \<longrightarrow> (case v of FStrings _ \<Rightarrow> True | _ \<Rightarrow> False))"
| "kind_holds (KOther k) ty v = True"

fun well_typed :: "gtype \<Rightarrow> gval \<Rightarrow> bool" and well_typed_all :: "sfield list \<Rightarrow> gval list \<Rightarrow> bool" where
  "well_typed (Scalar k ty) (Leaf x) = kind_holds k ty x"
| "well_typed (Struct fs) (SVal vs) = well_typed_all fs vs"
| "well_typed _ _ = False"
| "well_typed_all [] [] = True"
| "well_typed_all (Field name tag vis ty # fs) (v # vs) = (well_typed ty v \<and> well_typed_all fs vs)"
| "well_typed_all _ _ = False"

text \<open>The getters of pflag return values of their own type.\<close>

fun getter_returns :: "getter \<Rightarrow> flag_value \<Rightarrow> bool" where
  "getter_returns GetString v = (case v of FString _ \<Rightarrow> True | _ \<Rightarrow> False)"
| "getter_returns GetInt v = (case v of FInt _ \<Rightarrow> True | _ \<Rightarrow> False)"
| "getter_returns GetInt8 v = (case v of FInt8 _ \<Rightarrow> True | _ \<Rightarrow> False)"
| "getter_returns GetInt16 v = (case v of FInt16 _ \<Rightarrow> True | _ \<Rightarrow> False)"
| "getter_returns GetInt32 v = (case v of FInt32 _ \<Rightarrow> True | _ \<Rightarrow> False)"
| "getter_returns GetInt64 v = (case v of FInt64 _ \<Rightarrow> True | _ \<Rightarrow> False)"
| "getter_returns GetDuration v = (case v of FDuration _ \<Rightarrow> True | _ \<Rightarrow> False)"
| "getter_returns GetFloat32 v = (case v of FFloat32 _ \<Rightarrow> True | _ \<Rightarrow> False)"
| "getter_returns GetFloat64 v = (case v of FFloat64 _ \<Rightarrow> True | _ \<Rightarrow> False)"
| "getter_returns GetBool v = (case v of FBool _ \<Rightarrow> True | _ \<Rightarrow> False)"
| "getter_returns GetStringSlice v = (case v of FStrings _ \<Rightarrow> True | _ \<Rightarrow> False)"

definition flags_typed :: "flag_set \<Rightarrow> bool" where
  "flags_typed flags \<longleftrightarrow> (\<forall>g name v. Get flags g name = Inr v \<longrightarrow> getter_returns g v)"

lemma getFieldValue_typed:
  assumes "flags_typed flags" "getFieldValue flags (Scalar k ty) name tag = Inr x"
  shows "kind_holds k ty x"
proof -
  have g: "getter_returns g x" if "get_as flags g kd name tag = Inr x" for g kd
    using assms(1) that by (auto simp: flags_typed_def get_as_def split: sum.splits)
  show ?thesis using assms(2) by (cases k) (auto dest!: g split: if_splits)
qed

lemma process_typed:
  "flags_typed flags \<Longrightarrow> processField flags ro f v = Ret (e, v') \<Longrightarrow> well_typed (f_type f) v \<Longrightarrow> well_typed (f_type f) v'"
  "flags_typed flags \<Longrightarrow> processItem flags ro fs vs = Ret (e, vs') \<Longrightarrow> well_typed_all fs vs \<Longrightarrow> well_typed_all fs vs'"
proof (induction flags ro f v and flags ro fs vs arbitrary: e v' and e vs' rule: processField_processItem.induct)
  case (1 flags ro name tag vis sub v)
  obtain vs where v: "v = SVal vs" using 1(4) by (cases v) auto
  obtain e' ws where "processItem flags (ro \<or> vis = Unexported) sub vs = Ret (e', ws)" "v' = SVal ws"
    using 1(3) v by (auto split: outcome.splits prod.splits option.splits if_splits)
  then show ?case using 1(1) [OF v 1(2)] 1(4) v by simp
next
  case (2 flags ro name tag vis k ty v)
  show ?case
  proof (cases "tagged tag \<and> (\<exists>x. getFieldValue flags (Scalar k ty) name tag = Inr x)")
    case True
    then obtain x where "getFieldValue flags (Scalar k ty) name tag = Inr x" "v' = Leaf x"
      using 2(2) by (auto simp: map_outcome_ret_Ret set_field_def split: if_splits)
    then show ?thesis using getFieldValue_typed [OF 2(1)] by simp
  next
    case False
    then have "v' = v" using 2(2) by (auto split: sum.splits if_splits)
    then show ?thesis using 2(3) by simp
  qed
next
  case (3 flags ro f fs v vs)
  have wt: "well_typed (f_type f) v" "well_typed_all fs vs" using 3(5) by (cases f; simp)+
  obtain e1 v1 where 1: "processField flags ro f v = Ret (e1, v1)"
    using 3(4) by (auto split: outcome.splits)
  have a: "well_typed (f_type f) v1" by (rule "3.IH"(1) [OF 3(3) 1 wt(1)])
  show ?case
  proof (cases e1)
    case (Some err)
    then show ?thesis using 3(4) 1 a wt(2) by (cases f) auto
  next
    case None
    then obtain vs1 where 2: "processItem flags ro fs vs = Ret (e, vs1)" and vs': "vs' = v1 # vs1"
      using 3(4) 1 by (auto simp: with_rest_def map_outcome_ret_Ret)
    have "well_typed_all fs vs1" using "3.IH"(2) 1 None 2 wt(2) 3(3) by blast
    then show ?thesis using a vs' by (cases f) simp
  qed
qed (auto elim: well_typed_all.elims)

lemma Parse_from_invariant:
  assumes "Parse_from xs c = Ret (conf, err)" "P c" "\<And>e c r c'. e \<in> set xs \<Longrightarrow> P c \<Longrightarrow> e c = Ret (r, c') \<Longrightarrow> P c'"
  shows "P conf"
  using assms
proof (induction xs arbitrary: c)
  case (Cons e xs)
  from Cons.prems(1) obtain r c' where e: "e c = Ret (r, c')" by (auto split: outcome.splits)
  have c': "P c'" using Cons.prems(3) [of e c r c'] Cons.prems(2) e by simp
  show ?case
  proof (cases r)
    case None
    then have "Parse_from xs c' = Ret (conf, err)" using Cons.prems(1) e by simp
    then show ?thesis using Cons.IH [OF _ c'] Cons.prems(3) by (metis list.set_intros(2))
  next
    case (Some x)
    then show ?thesis using Cons.prems(1) e c' by simp
  qed
qed simp

text \<open>Configurations keep their types: whatever the parser returns, with an error or without,
  every field holds a value of its kind, nested structs included, if the getters of the flag set
  return values of their own types and the other extractors keep types; a run that stops half way
  leaves no field with a value of another kind.\<close>

theorem config_keeps_types:
  assumes "flags_typed flags" and "well_typed (Struct fs) zero"
    and "\<forall>e \<in> set es. \<forall>c r c'. well_typed (Struct fs) c \<and> e c = Ret (r, c') \<longrightarrow> well_typed (Struct fs) c'"
    and "Parser_Parse (WithExtractors (WithExtractors NewParser es) [PFlag_Extract flags (Struct fs)]) zero = Ret (conf, err)"
  shows "well_typed (Struct fs) conf"
proof -
  have flags: "well_typed (Struct fs) c'" if c: "well_typed (Struct fs) c" "PFlag_Extract flags (Struct fs) c = Ret (r, c')" for c r c'
  proof -
    obtain vs where "c = SVal vs" using c(1) by (cases c) auto
    then show ?thesis using c process_typed(2) [OF assms(1)]
      by (auto simp: PFlag_Extract_def map_outcome_ret_Ret split: if_splits)
  qed
  show ?thesis
  proof (rule Parse_from_invariant [where P = "well_typed (Struct fs)"])
    show "Parse_from (es @ [PFlag_Extract flags (Struct fs)]) zero = Ret (conf, err)"
      using assms(4) by (simp only: Parser_Parse_def WithExtractors_def NewParser_def append_Nil)
    fix e c r c'
    assume "e \<in> set (es @ [PFlag_Extract flags (Struct fs)])" "well_typed (Struct fs) c" "e c = Ret (r, c')"
    then show "well_typed (Struct fs) c'" using assms(3) flags by (auto simp del: well_typed.simps)
  qed (rule assms(2))
qed

lemma config_keeps_types_witness:
  "\<exists>conf err. Parser_Parse (WithExtractors (WithExtractors NewParser [demo_yaml]) [PFlag_Extract demo_flags (Struct demo_type)]) demo_zero =
     Ret (conf, err) \<and> well_typed (Struct demo_type) conf"
proof -
  obtain conf err where conf: "Parser_Parse (WithExtractors (WithExtractors NewParser [demo_yaml]) [PFlag_Extract demo_flags (Struct demo_type)])
      demo_zero = Ret (conf, err)"
    by (simp add: Parser_Parse_def WithExtractors_def NewParser_def PFlag_Extract_def demo_config)
  have "well_typed (Struct demo_type) conf"
  proof (rule config_keeps_types [OF _ _ _ conf])
    show "flags_typed demo_flags" by (simp add: flags_typed_def demo_flags_def)
    show "well_typed (Struct demo_type) demo_zero" by (simp add: demo_type_def demo_zero_def)
    show "\<forall>e \<in> set [demo_yaml]. \<forall>c r c'. well_typed (Struct demo_type) c \<and> e c = Ret (r, c') \<longrightarrow> well_typed (Struct demo_type) c'"
      by (auto simp: demo_yaml_def demo_type_def split: gval.splits list.splits)
  qed
  then show ?thesis using conf by blast
qed

end
