(* ===== verification/Go_Duration.thy ===== *)
theory Go_Duration
  imports Go_Text
begin

text \<open>
  The part of Go's \<open>time\<close> package that \<open>duration/string.go\<close> rests on:
  \<open>time.ParseDuration\<close> and \<open>time.Duration.String\<close>, with \<open>uint64\<close> arithmetic that
  wraps and the one \<open>float64\<close> computation of \<open>ParseDuration\<close> rounded as IEEE 754
  binary64 does (round to nearest, ties to even). Both are the standard library's algorithms; the
  lemmas at the end give the values of the loop of \<open>ParseDuration\<close> on one number with its unit.
\<close>

section \<open>float64\<close>

text \<open>\<open>p / q\<close> rounded to the nearest integer, ties to even.\<close>

definition round_half_even :: "nat \<Rightarrow> nat \<Rightarrow> nat" where
  "round_half_even p q =
     (let d = p div q; r = p mod q
      in if 2 * r < q \<or> (2 * r = q \<and> even d) then d else Suc d)"

text \<open>
  The binary64 value nearest to the rational \<open>p / q\<close>, as a numerator and a denominator:
  \<open>p / q\<close> is scaled by powers of two until it lies in \<open>[2^52, 2^53)\<close>, and the 53-bit
  mantissa is rounded. The values \<open>ParseDuration\<close> forms lie between \<open>1e-19\<close> and
  \<open>1e32\<close>, far from the subnormal and overflowing ranges.
\<close>

function float64 :: "nat \<Rightarrow> nat \<Rightarrow> nat \<times> nat" where
  "float64 p q =
     (if p = 0 \<or> q = 0 then (0, 1)
      else if p < q * 2 ^ 52 then (case float64 (2 * p) q of (n, d) \<Rightarrow> (n, 2 * d))
      else if q * 2 ^ 53 \<le> p then (case float64 p (2 * q) of (n, d) \<Rightarrow> (2 * n, d))
      else (round_half_even p q, 1))"
  by pat_completeness auto
termination
  by (relation "measure (\<lambda>(p, q). if p < q * 2 ^ 52 then q * 2 ^ 52 - p else p - (q * 2 ^ 53 - 1))")
    auto

declare float64.simps [simp del]

text \<open>\<open>float64(a) * float64(b)\<close>, rounded, for rationals \<open>a\<close>, \<open>b\<close>.\<close>

definition float64_mul :: "nat \<times> nat \<Rightarrow> nat \<times> nat \<Rightarrow> nat \<times> nat" where
  "float64_mul a b = float64 (fst a * fst b) (snd a * snd b)"

section \<open>time.ParseDuration\<close>

text \<open>\<open>leadingInt\<close>: \<open>None\<close> when the number passes \<open>1<<63\<close>.\<close>

fun leadingInt :: "nat \<Rightarrow> string \<Rightarrow> (nat \<times> string) option" where
  "leadingInt x [] = Some (x, [])"
| "leadingInt x (c # cs) =
     (if \<not> is_digit c then Some (x, c # cs)
      else if 2 ^ 63 div 10 < x then None
      else let x' = x * 10 + digit_val c
           in if 2 ^ 63 < x' then None else leadingInt x' cs)"

text \<open>\<open>leadingFraction\<close>: digits after an overflow are read and dropped.\<close>

fun leadingFraction :: "nat \<Rightarrow> nat \<Rightarrow> bool \<Rightarrow> string \<Rightarrow> nat \<times> nat \<times> string" where
  "leadingFraction x scale overflow [] = (x, scale, [])"
| "leadingFraction x scale overflow (c # cs) =
     (if \<not> is_digit c then (x, scale, c # cs)
      else if overflow then leadingFraction x scale True cs
      else if (2 ^ 63 - 1) div 10 < x then leadingFraction x scale True cs
      else let y = x * 10 + digit_val c
           in if 2 ^ 63 < y then leadingFraction x scale True cs
              else leadingFraction y (scale * 10) False cs)"

text \<open>\<open>unitMap\<close>; the two spellings of the micro sign are their UTF-8 bytes.\<close>

definition unitMap :: "string \<Rightarrow> nat option" where
  "unitMap u =
     (if u = ''ns'' then Some 1
      else if u = ''us'' then Some 1000
      else if u = [CHR 0xC2, CHR 0xB5, CHR ''s''] then Some 1000
      else if u = [CHR 0xCE, CHR 0xBC, CHR ''s''] then Some 1000
      else if u = ''ms'' then Some 1000000
      else if u = ''s'' then Some 1000000000
      else if u = ''m'' then Some 60000000000
      else if u = ''h'' then Some 3600000000000
      else None)"

definition frac_part :: "nat \<Rightarrow> nat \<Rightarrow> nat \<Rightarrow> nat" where
  "frac_part f unit scale =
     (case float64_mul (float64 f 1) (float64 unit scale) of (n, d) \<Rightarrow> n div d)"

text \<open>
  One round of the loop: a number, an optional fraction, a unit. \<open>None\<close> stands for the
  \<open>time: invalid duration\<close> family of errors; otherwise the value in nanoseconds and the rest.
\<close>

definition parse_term :: "string \<Rightarrow> (nat \<times> string) option" where
  "parse_term s =
     (case s of
        [] \<Rightarrow> None
      | c # _ \<Rightarrow>
          if \<not> (c = CHR ''.'' \<or> is_digit c) then None
          else case leadingInt 0 s of
            None \<Rightarrow> None
          | Some (v, s1) \<Rightarrow>
              (let pre = (length s1 \<noteq> length s);
                   (f, scale, s2, post) =
                     (case s1 of
                        [] \<Rightarrow> (0, 1, s1, False)
                      | c1 # s1' \<Rightarrow>
                          if c1 = CHR ''.''
                          then (case leadingFraction 0 1 False s1' of
                                  (f, scale, s2) \<Rightarrow> (f, scale, s2, length s2 \<noteq> length s1'))
                          else (0, 1, s1, False));
                   u = takeWhile (\<lambda>c. \<not> (c = CHR ''.'' \<or> is_digit c)) s2;
                   s3 = dropWhile (\<lambda>c. \<not> (c = CHR ''.'' \<or> is_digit c)) s2
               in if \<not> pre \<and> \<not> post then None
                  else if u = [] then None
                  else case unitMap u of
                    None \<Rightarrow> None
                  | Some unit \<Rightarrow>
                      if 2 ^ 63 div unit < v then None
                      else let v1 = v * unit;
                               v2 = (if 0 < f then (v1 + frac_part f unit scale) mod 2 ^ 64 else v1)
                           in if 0 < f \<and> 2 ^ 63 < v2 then None else Some (v2, s3)))"

lemma leadingInt_length: "leadingInt x s = Some (v, r) \<Longrightarrow> length r \<le> length s"
  by (induction x s rule: leadingInt.induct) (auto simp: Let_def split: if_splits)

lemma leadingFraction_length:
  "leadingFraction x sc ov s = (f, sc', r) \<Longrightarrow> length r \<le> length s"
  by (induction x sc ov s rule: leadingFraction.induct) (auto simp: Let_def split: if_splits)

lemma parse_term_length: "parse_term s = Some (v, r) \<Longrightarrow> length r < length s"
proof -
  assume a: "parse_term s = Some (v, r)"
  have dw: "takeWhile P xs \<noteq> [] \<Longrightarrow> length (dropWhile P xs) < length xs" for P and xs :: string
    by (metis dropWhile_eq_drop length_drop length_greater_0_conv length_takeWhile_le
        diff_less less_le_trans)
  show ?thesis
    using a
    by (auto simp: parse_term_def Let_def split: list.splits option.splits prod.splits if_splits
        dest!: leadingInt_length leadingFraction_length dw
        intro: le_less_trans [OF length_dropWhile_le])
qed

text \<open>The loop; \<open>d\<close> is the sum so far, a \<open>uint64\<close>.\<close>

function parse_loop :: "nat \<Rightarrow> string \<Rightarrow> nat option" where
  "parse_loop d s =
     (if s = [] then Some d
      else case parse_term s of
        None \<Rightarrow> None
      | Some (v, r) \<Rightarrow>
          let d' = (d + v) mod 2 ^ 64
          in if 2 ^ 63 < d' then None else parse_loop d' r)"
  by pat_completeness auto
termination
  by (relation "measure (\<lambda>(d, s). length s)") (auto dest: parse_term_length)

declare parse_loop.simps [simp del]

definition ParseDuration :: "string \<Rightarrow> go_error + i64" where
  "ParseDuration orig =
     (let neg = (case orig of c # _ \<Rightarrow> c = CHR ''-'' | [] \<Rightarrow> False);
          s = (case orig of c # cs \<Rightarrow> if c = CHR ''-'' \<or> c = CHR ''+'' then cs else orig | [] \<Rightarrow> orig);
          invalid = EOther (''time: invalid duration '' @ orig)
      in if s = ''0'' then Inr 0
         else if s = [] then Inl invalid
         else case parse_loop 0 s of
           None \<Rightarrow> Inl invalid
         | Some d \<Rightarrow>
             if neg then Inr (- word_of_nat d)
             else if 2 ^ 63 - 1 < d then Inl invalid
             else Inr (word_of_nat d))"

section \<open>time.Duration.String\<close>

text \<open>
  \<open>fmtFrac\<close>: the fraction of \<open>v / 10 ^ prec\<close> without its trailing zeros (and without the
  point when it is zero), and the integral part. The code fills a buffer from the right; \<open>acc\<close>
  is what it has written.
\<close>

fun fmtFrac_loop :: "nat \<Rightarrow> bool \<Rightarrow> nat \<Rightarrow> string \<Rightarrow> string \<times> nat" where
  "fmtFrac_loop 0 print v acc = (if print then CHR ''.'' # acc else acc, v)"
| "fmtFrac_loop (Suc i) print v acc =
     (let digit = v mod 10; print' = (print \<or> digit \<noteq> 0)
      in fmtFrac_loop i print' (v div 10) (if print' then digit_char digit # acc else acc))"

definition fmtFrac :: "nat \<Rightarrow> nat \<Rightarrow> string \<times> nat" where
  "fmtFrac v prec = fmtFrac_loop prec False v []"

definition format_magnitude :: "nat \<Rightarrow> string" where
  "format_magnitude u =
     (if u < 1000000000 then
        if u = 0 then ''0s''
        else
          let (prec, unit) =
                (if u < 1000 then (0, ''ns'')
                 else if u < 1000000 then (3, [CHR 0xC2, CHR 0xB5, CHR ''s''])
                 else (6, ''ms''));
              (frac, v) = fmtFrac u prec
          in nat_digits v @ frac @ unit
      else
        let (frac, secs) = fmtFrac u 9;
            out = nat_digits (secs mod 60) @ frac @ ''s'';
            mins = secs div 60
        in if 0 < mins then
             let out1 = nat_digits (mins mod 60) @ ''m'' @ out;
                 hours = mins div 60
             in if 0 < hours then nat_digits hours @ ''h'' @ out1 else out1
           else out)"

definition Duration_String :: "i64 \<Rightarrow> string" where
  "Duration_String d =
     (if sint d < 0 then ''-'' @ format_magnitude (unat (- d)) else format_magnitude (unat d))"

section \<open>Values of the loop\<close>

text \<open>Where the exact result has at most 53 bits, \<open>float64\<close> is exact.\<close>

lemma float64_exact:
  "0 < q \<Longrightarrow> q dvd p \<Longrightarrow> p < q * 2 ^ 53 \<Longrightarrow> float64 p q = (n, d) \<Longrightarrow> n * q = p * d \<and> 0 < d"
proof (induction p q arbitrary: n d rule: float64.induct)
  case (1 p q)
  consider "p = 0" | "0 < p" "p < q * 2 ^ 52" | "0 < p" "q * 2 ^ 52 \<le> p" by linarith
  then show ?case
  proof cases
    case 1
    with "1.prems" show ?thesis by (auto simp: float64.simps [of 0 q])
  next
    case 2
    obtain n' d' where r: "float64 (2 * p) q = (n', d')" by fastforce
    with 2 "1.prems" have "n = n'" "d = 2 * d'" by (auto simp: float64.simps [of p q])
    moreover have "n' * q = 2 * p * d' \<and> 0 < d'"
      using "1.IH"(1) [OF _ _ _ _ _ r] 2 "1.prems" by simp
    ultimately show ?thesis by simp
  next
    case 3
    with "1.prems" have "n = round_half_even p q" "d = 1" by (auto simp: float64.simps [of p q])
    with "1.prems" show ?thesis by (auto simp: round_half_even_def dvd_eq_mod_eq_0)
  qed
qed

lemma frac_part_exact:
  assumes "k \<le> j" "j \<le> 9" "f < 10 ^ k"
  shows "frac_part f (10 ^ j) (10 ^ k) = f * 10 ^ (j - k)"
proof -
  have small: "f * 10 ^ (j - k) < 2 ^ 53"
  proof -
    have "f * 10 ^ (j - k) < 10 ^ k * 10 ^ (j - k)" using assms(3) by simp
    also have "\<dots> = (10::nat) ^ j" using assms(1) by (simp flip: power_add)
    also have "\<dots> \<le> 10 ^ 9" using assms(2) by (intro power_increasing) auto
    finally show ?thesis by simp
  qed
  obtain a b where ab: "float64 f 1 = (a, b)" by fastforce
  obtain c d where cd: "float64 (10 ^ j) (10 ^ k) = (c, d)" by fastforce
  have "f \<le> f * 10 ^ (j - k)" by simp
  with small have "f < 2 ^ 53" by linarith
  then have "a * 1 = f * b \<and> 0 < b"
    by (intro float64_exact [OF _ _ _ ab]) auto
  then have a: "a = f * b" and b: "0 < b" by auto
  have j: "(10::nat) ^ j = 10 ^ k * 10 ^ (j - k)" using assms(1) by (simp flip: power_add)
  have "(10::nat) ^ (j - k) \<le> 10 ^ 9" using assms(2) by (intro power_increasing) auto
  then have "(10::nat) ^ j < 10 ^ k * 2 ^ 53" unfolding j by simp
  then have "c * 10 ^ k = 10 ^ j * d \<and> 0 < d"
    by (intro float64_exact [OF _ _ _ cd]) (auto simp: j)
  then have c: "c = 10 ^ (j - k) * d" and d: "0 < d" by (auto simp: j)
  obtain n m where nm: "float64 (a * c) (b * d) = (n, m)" by fastforce
  have ac: "a * c = b * d * (f * 10 ^ (j - k))" by (simp add: a c)
  have "n * (b * d) = a * c * m \<and> 0 < m"
    using small b d by (intro float64_exact [OF _ _ _ nm]) (auto simp: ac)
  then have "b * d * n = b * d * (f * 10 ^ (j - k) * m)" and m: "0 < m"
    by (auto simp: ac algebra_simps)
  then have "n = f * 10 ^ (j - k) * m" using b d by simp
  with m show ?thesis unfolding frac_part_def float64_mul_def ab cd fst_conv snd_conv nm by simp
qed

lemma leadingInt_digits:
  assumes "list_all is_digit ds" "x * 10 ^ length ds + digits_val ds \<le> 2 ^ 63"
    and "rest = [] \<or> \<not> is_digit (hd rest)"
  shows "leadingInt x (ds @ rest) = Some (x * 10 ^ length ds + digits_val ds, rest)"
  using assms
proof (induction ds arbitrary: x)
  case Nil
  then show ?case by (cases rest) auto
next
  case (Cons c ds)
  have eq: "x * 10 ^ length (c # ds) + digits_val (c # ds)
      = (x * 10 + digit_val c) * 10 ^ length ds + digits_val ds"
    by (simp add: digits_val_Cons algebra_simps)
  have "x * 10 + digit_val c \<le> (x * 10 + digit_val c) * 10 ^ length ds" by simp
  with Cons.prems(2) have le: "x * 10 + digit_val c \<le> 2 ^ 63" unfolding eq by linarith
  then have "x \<le> 2 ^ 63 div 10" by simp
  with Cons le show ?case unfolding eq by (simp add: Let_def)
qed

lemma leadingFraction_digits:
  assumes "list_all is_digit ds" "x * 10 ^ length ds + digits_val ds < 10 ^ 18"
    and "rest = [] \<or> \<not> is_digit (hd rest)"
  shows "leadingFraction x sc False (ds @ rest)
    = (x * 10 ^ length ds + digits_val ds, sc * 10 ^ length ds, rest)"
  using assms
proof (induction ds arbitrary: x sc)
  case Nil
  then show ?case by (cases rest) auto
next
  case (Cons c ds)
  have eq: "x * 10 ^ length (c # ds) + digits_val (c # ds)
      = (x * 10 + digit_val c) * 10 ^ length ds + digits_val ds"
    by (simp add: digits_val_Cons algebra_simps)
  have "x * 10 + digit_val c \<le> (x * 10 + digit_val c) * 10 ^ length ds" by simp
  with Cons.prems(2) have le: "x * 10 + digit_val c < 10 ^ 18" unfolding eq by linarith
  with Cons show ?case unfolding eq by (simp add: Let_def)
qed

text \<open>The texts the printer writes for a fraction.\<close>

lemma fmtFrac_loop_True:
  "\<exists>ds. fmtFrac_loop i True v acc = (CHR ''.'' # ds @ acc, v div 10 ^ i) \<and> length ds = i \<and>
     list_all is_digit ds \<and> digits_val ds = v mod 10 ^ i"
proof (induction i arbitrary: v acc)
  case (Suc i)
  obtain ds where ds: "fmtFrac_loop i True (v div 10) (digit_char (v mod 10) # acc)
      = (CHR ''.'' # ds @ digit_char (v mod 10) # acc, v div 10 div 10 ^ i)"
    "length ds = i" "list_all is_digit ds" "digits_val ds = v div 10 mod 10 ^ i"
    using Suc.IH [of "v div 10" "digit_char (v mod 10) # acc"] by blast
  have "v mod 10 ^ Suc i = 10 * (v div 10 mod 10 ^ i) + v mod 10"
    by (simp add: mod_mult2_eq algebra_simps)
  with ds show ?case
    by (intro exI [of _ "ds @ [digit_char (v mod 10)]"]) (simp add: div_mult2_eq)
qed simp

lemma fmtFrac_loop_False:
  "fmtFrac_loop i False v [] = ([], v div 10 ^ i) \<and> v mod 10 ^ i = 0 \<or>
   (\<exists>ds. fmtFrac_loop i False v [] = (CHR ''.'' # ds, v div 10 ^ i) \<and> ds \<noteq> [] \<and> length ds \<le> i \<and>
      list_all is_digit ds \<and> 0 < digits_val ds \<and> digits_val ds < 10 ^ length ds \<and>
      digits_val ds * 10 ^ (i - length ds) = v mod 10 ^ i)"
proof (induction i arbitrary: v)
  case (Suc i)
  have split: "v mod 10 ^ Suc i = 10 * (v div 10 mod 10 ^ i) + v mod 10"
    by (simp add: mod_mult2_eq algebra_simps)
  show ?case
  proof (cases "v mod 10 = 0")
    case True
    then have step: "fmtFrac_loop (Suc i) False v [] = fmtFrac_loop i False (v div 10) []" by simp
    have dv: "v div 10 div 10 ^ i = v div 10 ^ Suc i" by (simp add: div_mult2_eq)
    from Suc.IH [of "v div 10"] show ?thesis
    proof (elim disjE exE conjE)
      fix ds
      assume "length ds \<le> i" "digits_val ds * 10 ^ (i - length ds) = v div 10 mod 10 ^ i"
      then have "digits_val ds * 10 ^ (Suc i - length ds) = v mod 10 ^ Suc i"
        using split True by (simp add: Suc_diff_le)
      then show ?thesis if "fmtFrac_loop i False (v div 10) [] = (CHR ''.'' # ds, v div 10 div 10 ^ i)"
        "ds \<noteq> []" "list_all is_digit ds" "0 < digits_val ds" "digits_val ds < 10 ^ length ds"
        using that \<open>length ds \<le> i\<close> unfolding step dv
        by (intro disjI2 exI [of _ ds]) auto
    qed (use split True step dv in auto)
  next
    case False
    obtain ds where ds: "fmtFrac_loop i True (v div 10) [digit_char (v mod 10)]
        = (CHR ''.'' # ds @ [digit_char (v mod 10)], v div 10 div 10 ^ i)"
      "length ds = i" "list_all is_digit ds" "digits_val ds = v div 10 mod 10 ^ i"
      using fmtFrac_loop_True [of i "v div 10" "[digit_char (v mod 10)]"] by blast
    have "v mod 10 ^ Suc i < 10 ^ Suc i" by (rule mod_less_divisor) simp
    with False ds split show ?thesis
      by (intro disjI2 exI [of _ "ds @ [digit_char (v mod 10)]"]) (auto simp: div_mult2_eq)
  qed
qed simp

lemma fmtFrac_cases:
  obtains (none) "fmtFrac v i = ([], v div 10 ^ i)" "v mod 10 ^ i = 0"
  | (some) ds where "fmtFrac v i = (CHR ''.'' # ds, v div 10 ^ i)" "ds \<noteq> []" "length ds \<le> i"
      "list_all is_digit ds" "0 < digits_val ds" "digits_val ds < 10 ^ length ds"
      "digits_val ds * 10 ^ (i - length ds) = v mod 10 ^ i"
  using fmtFrac_loop_False [of i v] that unfolding fmtFrac_def by (elim disjE exE conjE) metis+

text \<open>A unit's text: no digit and no point, so the parser reads it whole.\<close>

definition plain_unit :: "string \<Rightarrow> bool" where
  "plain_unit u \<longleftrightarrow> u \<noteq> [] \<and> list_all (\<lambda>c. \<not> (c = CHR ''.'' \<or> is_digit c)) u"

definition digit_start :: "string \<Rightarrow> bool" where
  "digit_start r \<longleftrightarrow> r = [] \<or> is_digit (hd r)"

lemma plain_unit_take:
  assumes "plain_unit u" "digit_start r"
  shows "takeWhile (\<lambda>c. \<not> (c = CHR ''.'' \<or> is_digit c)) (u @ r) = u"
    "dropWhile (\<lambda>c. \<not> (c = CHR ''.'' \<or> is_digit c)) (u @ r) = r"
proof -
  have u: "\<And>c. c \<in> set u \<Longrightarrow> \<not> (c = CHR ''.'' \<or> is_digit c)"
    using assms(1) by (auto simp: plain_unit_def list_all_iff)
  then show "takeWhile (\<lambda>c. \<not> (c = CHR ''.'' \<or> is_digit c)) (u @ r) = u"
    using assms(2) by (cases r) (auto simp: digit_start_def takeWhile_append)
  show "dropWhile (\<lambda>c. \<not> (c = CHR ''.'' \<or> is_digit c)) (u @ r) = r"
    using u assms(2) by (cases r) (auto simp: digit_start_def dropWhile_append)
qed

lemma plain_unit_hd:
  "plain_unit u \<Longrightarrow> \<not> is_digit (hd (u @ r)) \<and> hd (u @ r) \<noteq> CHR ''.'' \<and> u @ r \<noteq> []"
  by (cases u) (auto simp: plain_unit_def)

lemma is_digit_hd_nat_digits: "is_digit (hd (nat_digits n @ r))"
  by (metis hd_append2 list.set_sel(1) list_all_iff nat_digits_all nat_digits_nonempty)

lemma hd_nat_digits [simp]: "is_digit (hd (nat_digits n))"
  using is_digit_hd_nat_digits [of n "[]"] by simp

lemma digit_start_nat_digits [simp]: "digit_start (nat_digits n @ r)" "digit_start []"
  by (auto simp: digit_start_def is_digit_hd_nat_digits)

lemma not_digit_point [simp]: "\<not> is_digit CHR ''.''"
  by (simp add: is_digit_def)

lemma parse_term_int:
  assumes "plain_unit u" "unitMap u = Some k" "digit_start r" "n \<le> 2 ^ 63 div k" "n \<le> 2 ^ 63"
  shows "parse_term (nat_digits n @ u @ r) = Some (n * k, r)"
proof -
  have l: "leadingInt 0 (nat_digits n @ u @ r) = Some (n, u @ r)"
    using leadingInt_digits [of "nat_digits n" 0 "u @ r"] nat_digits_all assms(5)
      plain_unit_hd [OF assms(1), of r] by simp
  obtain c cs where cs: "nat_digits n @ u @ r = c # cs" "is_digit c"
    using is_digit_hd_nat_digits [of n "u @ r"] by (cases "nat_digits n @ u @ r") auto
  obtain c1 cs1 where c1: "u @ r = c1 # cs1" "c1 \<noteq> CHR ''.''"
    using plain_unit_hd [OF assms(1), of r] by (cases "u @ r") auto
  have "u \<noteq> []" using assms(1) by (simp add: plain_unit_def)
  moreover have "length (c1 # cs1) \<noteq> length (c # cs)"
    unfolding cs(1) [symmetric] c1(1) [symmetric] by simp
  moreover note l [unfolded cs(1), unfolded c1(1)] plain_unit_take [OF assms(1,3), unfolded c1(1)]
  ultimately show ?thesis
    using assms(2,4) cs(2) c1(2) unfolding parse_term_def cs(1)
    by (simp add: Let_def del: leadingInt.simps takeWhile.simps dropWhile.simps)
qed

lemma parse_term_frac:
  assumes "plain_unit u" "unitMap u = Some (10 ^ j)" "digit_start r" "j \<le> 9"
    and "n \<le> 2 ^ 63 div 10 ^ j" "n \<le> 2 ^ 63"
    and "ds \<noteq> []" "length ds \<le> j" "list_all is_digit ds" "0 < digits_val ds"
    "digits_val ds < 10 ^ length ds"
    and "n * 10 ^ j + digits_val ds * 10 ^ (j - length ds) \<le> 2 ^ 63"
  shows "parse_term (nat_digits n @ (CHR ''.'' # ds) @ u @ r)
    = Some (n * 10 ^ j + digits_val ds * 10 ^ (j - length ds), r)"
proof -
  let ?s = "CHR ''.'' # ds @ u @ r"
  have l: "leadingInt 0 (nat_digits n @ ?s) = Some (n, ?s)"
    using leadingInt_digits [of "nat_digits n" 0 ?s] nat_digits_all assms(6) by simp
  obtain c cs where cs: "nat_digits n @ ?s = c # cs" "is_digit c"
    using is_digit_hd_nat_digits [of n ?s] by (cases "nat_digits n @ ?s") auto
  have "(10::nat) ^ length ds \<le> 10 ^ 9" using assms(4,8) by (intro power_increasing) auto
  with assms(11) have "digits_val ds < 10 ^ 18" by simp
  then have f: "leadingFraction 0 1 False (ds @ u @ r) = (digits_val ds, 10 ^ length ds, u @ r)"
    using leadingFraction_digits [of ds 0 "u @ r" 1] assms(9) plain_unit_hd [OF assms(1), of r]
    by simp
  have fp: "frac_part (digits_val ds) (10 ^ j) (10 ^ length ds) = digits_val ds * 10 ^ (j - length ds)"
    using assms by (intro frac_part_exact) auto
  have u: "u \<noteq> []" using assms(1) by (simp add: plain_unit_def)
  have len: "length ?s \<noteq> length (c # cs)" unfolding cs(1) [symmetric] by simp
  have le: "n * 10 ^ j + digits_val ds * 10 ^ (j - length ds) < 2 ^ 64"
    by (rule order.strict_trans1 [OF assms(12)]) simp
  have eq: "nat_digits n @ (CHR ''.'' # ds) @ u @ r = c # cs" using cs(1) by simp
  show ?thesis
    unfolding eq parse_term_def
    using l f fp u len le plain_unit_take [OF assms(1,3)] assms(2,5,10,12) cs(2)
    unfolding cs(1)
    by (simp add: Let_def del: leadingInt.simps leadingFraction.simps takeWhile.simps dropWhile.simps)
qed

lemma parse_loop_step:
  assumes "parse_term s = Some (v, r)" "d + v \<le> 2 ^ 63"
  shows "parse_loop d s = parse_loop (d + v) r"
proof -
  have "s \<noteq> []" using assms(1) by (auto simp: parse_term_def)
  with assms show ?thesis by (subst parse_loop.simps) (simp add: Let_def)
qed

lemma parse_loop_Nil [simp]: "parse_loop d [] = Some d"
  by (simp add: parse_loop.simps)

end
