(* ===== verification/Worker_Runner.thy ===== *)
theory Worker_Runner
  imports Go_Duration
begin

text \<open>
  \<open>workers/locker.go\<close>, \<open>workers/monitor.go\<close> and \<open>workers/workers.go\<close>: workers that run on a
  schedule on one process of several. The scheduler (gocron) asks the \<open>Locker\<close> of its process
  before each run and unlocks after it; the locker asks whether its process is the leader
  (rueidisleader) and then, under its mutex, grants a lock whose key is not in its own map. Scheduler
  and election are the environment: they are the actions of a cluster of lockers. Each process has
  its own view of the leadership, which may change between the test and the insertion.
\<close>

section \<open>The locker\<close>

record Locker =
  locks :: "string \<Rightarrow> bool option"

definition NewLocker :: "go_error option \<Rightarrow> go_error + Locker" where
  "NewLocker leader_err =
     (case leader_err of Some err \<Rightarrow> Inl (wrapf ''instantiate leader election'' err) | None \<Rightarrow> Inr \<lparr>locks = Map.empty\<rparr>)"

text \<open>A \<open>fakeLock\<close>: without a function to call, or with the closure that deletes its key.\<close>

datatype fakeLock = FakeLock "string option"

text \<open>\<open>Lock\<close> is two steps: the test of \<open>IsLeader\<close>, outside the mutex, and the region under it.\<close>

definition Lock_test :: "bool \<Rightarrow> go_error option" where
  "Lock_test is_leader = (if is_leader then None else Some (EOther ''not the leader''))"

definition Lock_take :: "string \<Rightarrow> Locker \<Rightarrow> (go_error + fakeLock) \<times> Locker" where
  "Lock_take key l =
     (case locks l key of
        Some _ \<Rightarrow> (Inl (EOther ''already locked''), l)
      | None \<Rightarrow> (Inr (FakeLock (Some key)), l\<lparr>locks := (locks l)(key \<mapsto> True)\<rparr>))"

fun fakeLock_Unlock :: "fakeLock \<Rightarrow> Locker \<Rightarrow> go_error option \<times> Locker" where
  "fakeLock_Unlock (FakeLock (Some key)) l = (None, l\<lparr>locks := (locks l)(key := None)\<rparr>)"
| "fakeLock_Unlock (FakeLock None) l = (None, l)"

section \<open>A cluster of lockers\<close>

text \<open>Each process has a locker and its view of the leadership; \<open>pending\<close> are the calls of \<open>Lock\<close>
  that have passed the test and not yet taken the mutex, \<open>running\<close> the locks that the schedulers hold
  while their jobs run. A job that gets no lock is skipped.\<close>

record ('s, 'l) cluster =
  lockers :: "nat \<Rightarrow> 's"
  leads :: "nat \<Rightarrow> bool"
  pending :: "(nat \<times> string) list"
  running :: "(nat \<times> 'l) list"

datatype cluster_action = Leads nat bool | AskLock nat string | TakeLock nat | FinishJob nat

fun cluster_act ::
    "(bool \<Rightarrow> go_error option) \<Rightarrow> (string \<Rightarrow> 's \<Rightarrow> (go_error + 'l) \<times> 's) \<Rightarrow> ('l \<Rightarrow> 's \<Rightarrow> go_error option \<times> 's) \<Rightarrow>
     cluster_action \<Rightarrow> ('s, 'l) cluster \<Rightarrow> ('s, 'l) cluster option" where
  "cluster_act test lock unlock (Leads n b) c = Some (c\<lparr>leads := (leads c)(n := b)\<rparr>)"
| "cluster_act test lock unlock (AskLock n key) c =
     (case test (leads c n) of
        Some err \<Rightarrow> Some c
      | None \<Rightarrow> Some (c\<lparr>pending := pending c @ [(n, key)]\<rparr>))"
| "cluster_act test lock unlock (TakeLock i) c =
     (if i < length (pending c) then
        (let (n, key) = pending c ! i; c1 = c\<lparr>pending := remove_nth i (pending c)\<rparr>
         in case lock key (lockers c n) of
              (Inl err, s) \<Rightarrow> Some (c1\<lparr>lockers := (lockers c)(n := s)\<rparr>)
            | (Inr l, s) \<Rightarrow> Some (c1\<lparr>lockers := (lockers c)(n := s), running := running c @ [(n, l)]\<rparr>))
      else None)"
| "cluster_act test lock unlock (FinishJob i) c =
     (if i < length (running c) then
        (let (n, l) = running c ! i; s = snd (unlock l (lockers c n))
         in Some (c\<lparr>lockers := (lockers c)(n := s), running := remove_nth i (running c)\<rparr>))
      else None)"

text \<open>What a cluster can reach when the changes of leadership obey a policy.\<close>

inductive cluster_reach for test lock unlock fresh policy where
  start: "cluster_reach test lock unlock fresh policy \<lparr>lockers = (\<lambda>_. fresh), leads = (\<lambda>_. False), pending = [], running = []\<rparr>"
| step: "cluster_reach test lock unlock fresh policy c \<Longrightarrow> (\<And>n b. a = Leads n b \<Longrightarrow> policy c n b) \<Longrightarrow>
    cluster_act test lock unlock a c = Some c' \<Longrightarrow> cluster_reach test lock unlock fresh policy c'"

definition keys_on :: "('l \<Rightarrow> string) \<Rightarrow> nat \<Rightarrow> (nat \<times> 'l) list \<Rightarrow> string list" where
  "keys_on key_of n rs = map (key_of \<circ> snd) (filter (\<lambda>r. fst r = n) rs)"

lemma keys_on_simps [simp]:
  "keys_on key_of n [] = []"
  "keys_on key_of n (rs @ [(m, l)]) = keys_on key_of n rs @ (if m = n then [key_of l] else [])"
  by (simp_all add: keys_on_def)

lemma keys_on_remove:
  "i < length rs \<Longrightarrow>
   mset (keys_on key_of n rs) =
     (if fst (rs ! i) = n then {#key_of (snd (rs ! i))#} else {#}) + mset (keys_on key_of n (remove_nth i rs))"
  by (simp add: keys_on_def mset_remove_nth [of i rs])

text \<open>A process becomes the leader only when no other one leads, runs a job or is about to take a lock.\<close>

definition handover :: "('s, 'l) cluster \<Rightarrow> nat \<Rightarrow> bool \<Rightarrow> bool" where
  "handover c n b \<longleftrightarrow>
     (b \<longrightarrow> (\<forall>m. leads c m \<longrightarrow> m = n) \<and> (\<forall>r \<in> set (running c). fst r = n) \<and> (\<forall>p \<in> set (pending c). fst p = n))"

definition one_site :: "('s, 'l) cluster \<Rightarrow> bool" where
  "one_site c \<longleftrightarrow>
     (\<exists>n. (\<forall>m. leads c m \<longrightarrow> m = n) \<and> (\<forall>r \<in> set (running c). fst r = n) \<and> (\<forall>p \<in> set (pending c). fst p = n))"

lemma set_remove_nth: "set (remove_nth i xs) \<subseteq> set xs"
  by (auto simp: remove_nth_def dest!: in_set_takeD in_set_dropD)

section \<open>The contract of a locker\<close>

locale job_locker =
  fixes test :: "bool \<Rightarrow> go_error option"
    and lock :: "string \<Rightarrow> 's \<Rightarrow> (go_error + 'l) \<times> 's"
    and unlock :: "'l \<Rightarrow> 's \<Rightarrow> go_error option \<times> 's"
    and fresh :: 's
    and held :: "'s \<Rightarrow> string set"
    and key_of :: "'l \<Rightarrow> string"
    and is_lock :: "'l \<Rightarrow> bool"
  assumes fresh: "held fresh = {}"
    and tested: "test ld = None \<Longrightarrow> ld"
    and granted: "lock k s = (Inr l, s') \<Longrightarrow> k \<notin> held s \<and> held s' = insert k (held s) \<and> key_of l = k \<and> is_lock l"
    and refused: "lock k s = (Inl err, s') \<Longrightarrow> k \<in> held s \<and> held s' = held s"
    and released: "is_lock l \<Longrightarrow> held (snd (unlock l s)) = held s - {key_of l}"
begin

text \<open>On each process the keys of the running jobs are exactly the keys its locker holds, each once.\<close>

definition exact :: "('s, 'l) cluster \<Rightarrow> bool" where
  "exact c \<longleftrightarrow> (\<forall>r \<in> set (running c). is_lock (snd r)) \<and>
     (\<forall>n. finite (held (lockers c n)) \<and> mset (keys_on key_of n (running c)) = mset_set (held (lockers c n)))"

lemma exact_step:
  assumes "exact c" and "cluster_act test lock unlock a c = Some c'"
  shows "exact c'"
proof (cases a)
  case (Leads n b)
  then show ?thesis using assms by (auto simp: exact_def)
next
  case (AskLock n k)
  then show ?thesis using assms by (auto simp: exact_def split: option.splits)
next
  case (TakeLock i)
  obtain m k where mk: "pending c ! i = (m, k)" by (cases "pending c ! i")
  have i: "i < length (pending c)" using assms(2) TakeLock by (simp split: if_splits)
  let ?c = "c\<lparr>pending := remove_nth i (pending c)\<rparr>"
  show ?thesis
  proof (cases "lock k (lockers c m)")
    case (Pair r s)
    show ?thesis
    proof (cases r)
      case (Inl err)
      have "c' = ?c\<lparr>lockers := (lockers c)(m := s)\<rparr>" using assms(2) TakeLock Pair Inl i mk by simp
      moreover have "held s = held (lockers c m)" using refused [of k "lockers c m" err s] Pair Inl by simp
      ultimately show ?thesis using assms(1) by (simp add: exact_def)
    next
      case (Inr l)
      have "c' = ?c\<lparr>lockers := (lockers c)(m := s), running := running c @ [(m, l)]\<rparr>"
        using assms(2) TakeLock Pair Inr i mk by simp
      moreover have "k \<notin> held (lockers c m)" "held s = insert k (held (lockers c m))" "key_of l = k" "is_lock l"
        using granted [of k "lockers c m" l s] Pair Inr by simp_all
      ultimately show ?thesis using assms(1) by (auto simp: exact_def)
    qed
  qed
next
  case (FinishJob i)
  then have i: "i < length (running c)" using assms(2) by (auto split: if_splits)
  obtain m l where ml: "running c ! i = (m, l)" by (cases "running c ! i")
  have c': "c' = c\<lparr>lockers := (lockers c)(m := snd (unlock l (lockers c m))), running := remove_nth i (running c)\<rparr>"
    using assms(2) FinishJob i ml by simp
  have "finite (held (lockers c' n)) \<and> mset (keys_on key_of n (running c')) = mset_set (held (lockers c' n))" for n
  proof (cases "n = m")
    case True
    have *: "finite (held (lockers c m))"
        "mset_set (held (lockers c m)) = add_mset (key_of l) (mset (keys_on key_of m (remove_nth i (running c))))"
      using assms(1) keys_on_remove [OF i, of key_of m] ml by (auto simp: exact_def)
    then have "key_of l \<in> held (lockers c m)"
      by (metis elem_mset_set union_single_eq_member)
    moreover have "is_lock l" using assms(1) i ml by (metis exact_def nth_mem snd_conv)
    ultimately show ?thesis using * mset_set.remove [OF *(1)] by (simp add: True c' released)
  next
    case False
    then show ?thesis using assms(1) keys_on_remove [OF i, of key_of n] ml by (simp add: exact_def c')
  qed
  moreover have "\<forall>r \<in> set (running c'). is_lock (snd r)"
    using assms(1) by (auto simp: c' exact_def remove_nth_def dest!: in_set_takeD in_set_dropD)
  ultimately show ?thesis by (simp add: exact_def)
qed

lemma exact_reach: "cluster_reach test lock unlock fresh policy c \<Longrightarrow> exact c"
proof (induction rule: cluster_reach.induct)
  case start
  then show ?case by (simp add: exact_def fresh)
next
  case (step c a c')
  then show ?case by (blast intro: exact_step)
qed

lemma exact_keys:
  assumes "exact c"
  shows "distinct (keys_on key_of n (running c))" "set (keys_on key_of n (running c)) = held (lockers c n)"
proof -
  from assms have fin: "finite (held (lockers c n))"
    and m: "mset (keys_on key_of n (running c)) = mset_set (held (lockers c n))" by (auto simp: exact_def)
  have "set_mset (mset (keys_on key_of n (running c))) = held (lockers c n)" by (simp only: m finite_set_mset_mset_set fin)
  then show s: "set (keys_on key_of n (running c)) = held (lockers c n)" by simp
  show "distinct (keys_on key_of n (running c))"
    by (simp only: distinct_count_atmost_1 m) (simp add: s fin)
qed

lemma one_site_step:
  assumes "one_site c" and "cluster_act test lock unlock a c = Some c'" and "\<And>n b. a = Leads n b \<Longrightarrow> handover c n b"
  shows "one_site c'"
proof -
  obtain n where n: "\<forall>m. leads c m \<longrightarrow> m = n" "\<forall>r \<in> set (running c). fst r = n" "\<forall>p \<in> set (pending c). fst p = n"
    using assms(1) by (auto simp: one_site_def)
  show ?thesis
  proof (cases a)
    case (Leads m b)
    then have "handover c m b" "c' = c\<lparr>leads := (leads c)(m := b)\<rparr>" using assms(2,3) by auto
    then show ?thesis using n by (cases b) (auto simp: one_site_def handover_def)
  next
    case (AskLock m k)
    show ?thesis
    proof (cases "test (leads c m)")
      case None
      then have "m = n" using tested n(1) by blast
      then have "c' = c\<lparr>pending := pending c @ [(n, k)]\<rparr>" using assms(2) AskLock None by simp
      then show ?thesis using n unfolding one_site_def by (intro exI [of _ n]) auto
    next
      case (Some err)
      then show ?thesis using assms(1,2) AskLock by simp
    qed
  next
    case (TakeLock i)
    obtain m k where mk: "pending c ! i = (m, k)" by (cases "pending c ! i")
    have i: "i < length (pending c)" using assms(2) TakeLock by (simp split: if_splits)
    then have m: "m = n" using n(3) mk nth_mem [OF i] by fastforce
    have "leads c' = leads c" "set (pending c') \<subseteq> set (pending c)" "\<forall>r \<in> set (running c'). fst r = n"
      using assms(2) TakeLock i mk m n(2) set_remove_nth [of i "pending c"]
      by (auto simp: Let_def split: prod.splits sum.splits)
    then show ?thesis using n(1,3) unfolding one_site_def by (intro exI [of _ n]) auto
  next
    case (FinishJob i)
    then have "leads c' = leads c" "pending c' = pending c" "set (running c') \<subseteq> set (running c)"
      using assms(2) set_remove_nth [of i "running c"] by (auto simp: Let_def split: if_splits prod.splits)
    then show ?thesis using n unfolding one_site_def by (intro exI [of _ n]) auto
  qed
qed

lemma one_site_reach: "cluster_reach test lock unlock fresh handover c \<Longrightarrow> one_site c"
proof (induction rule: cluster_reach.induct)
  case start
  then show ?case by (simp add: one_site_def)
next
  case (step c a c')
  then show ?case by (blast intro: one_site_step)
qed

lemma handover_exclusive:
  assumes "cluster_reach test lock unlock fresh handover c"
  shows "distinct (map (key_of \<circ> snd) (running c)) \<and> (\<exists>n. \<forall>r \<in> set (running c). fst r = n)"
proof -
  obtain m where m: "\<forall>r' \<in> set (running c). fst r' = m"
    using one_site_reach [OF assms] by (auto simp: one_site_def)
  then have "keys_on key_of m (running c) = map (key_of \<circ> snd) (running c)"
    by (simp add: keys_on_def)
  then show ?thesis using exact_keys(1) [OF exact_reach [OF assms], of m] m by auto
qed

end

section \<open>The locker keeps the contract\<close>

fun lock_key_of :: "fakeLock \<Rightarrow> string" where
  "lock_key_of (FakeLock (Some key)) = key"
| "lock_key_of (FakeLock None) = ''''"

definition locked_keys :: "Locker \<Rightarrow> string set" where
  "locked_keys l = dom (locks l)"

interpretation locker: job_locker Lock_test Lock_take fakeLock_Unlock "\<lparr>locks = Map.empty\<rparr>" locked_keys lock_key_of "\<lambda>l. l \<noteq> FakeLock None"
proof unfold_locales
  fix l :: fakeLock and s
  assume "l \<noteq> FakeLock None"
  then obtain k where "l = FakeLock (Some k)" by (metis fakeLock.exhaust option.exhaust)
  then show "locked_keys (snd (fakeLock_Unlock l s)) = locked_keys s - {lock_key_of l}"
    by (auto simp: locked_keys_def)
qed (auto simp: locked_keys_def Lock_test_def Lock_take_def split: if_splits option.splits)

abbreviation locker_cluster :: "((Locker, fakeLock) cluster \<Rightarrow> nat \<Rightarrow> bool \<Rightarrow> bool) \<Rightarrow> (Locker, fakeLock) cluster \<Rightarrow> bool" where
  "locker_cluster \<equiv> cluster_reach Lock_test Lock_take fakeLock_Unlock \<lparr>locks = Map.empty\<rparr>"

text \<open>A run of actions, given up where a change of leadership breaks the policy.\<close>

fun cluster_run ::
    "((Locker, fakeLock) cluster \<Rightarrow> nat \<Rightarrow> bool \<Rightarrow> bool) \<Rightarrow> cluster_action list \<Rightarrow> (Locker, fakeLock) cluster \<Rightarrow>
     (Locker, fakeLock) cluster option" where
  "cluster_run policy [] c = Some c"
| "cluster_run policy (a # as) c =
     (if case a of Leads n b \<Rightarrow> policy c n b | _ \<Rightarrow> True
      then Option.bind (cluster_act Lock_test Lock_take fakeLock_Unlock a c) (cluster_run policy as) else None)"

definition no_jobs :: "(Locker, fakeLock) cluster" where
  "no_jobs = \<lparr>lockers = (\<lambda>_. \<lparr>locks = Map.empty\<rparr>), leads = (\<lambda>_. False), pending = [], running = []\<rparr>"

lemma cluster_run_reach:
  "cluster_run policy as c = Some c' \<Longrightarrow> locker_cluster policy c \<Longrightarrow> locker_cluster policy c'"
proof (induction as arbitrary: c)
  case (Cons a as)
  then obtain d where d: "cluster_act Lock_test Lock_take fakeLock_Unlock a c = Some d" "cluster_run policy as d = Some c'"
    and pol: "case a of Leads n b \<Rightarrow> policy c n b | _ \<Rightarrow> True"
    by (auto split: if_splits bind_splits)
  have "locker_cluster policy d"
    by (rule cluster_reach.step [OF Cons.prems(2) _ d(1)]) (use pol in auto)
  then show ?case using Cons.IH d(2) by blast
qed simp

lemma no_jobs_reach: "locker_cluster policy no_jobs"
  unfolding no_jobs_def by (rule cluster_reach.start)

section \<open>Intervals\<close>

text \<open>The \<open>any\<close> of an \<open>Interval\<close>: a \<open>time.Duration\<close>, a \<open>string\<close> or a value of another type.
  \<open>Kind\<close> is an \<open>int\<close> type with two constants.\<close>

datatype Interval = RawDuration i64 | RawString string | RawOther

type_synonym Kind = int

definition ScheduleInterval :: Kind where "ScheduleInterval = 0"
definition ScheduleCron :: Kind where "ScheduleCron = 1"

fun Interval_Kind :: "Interval \<Rightarrow> Kind outcome" where
  "Interval_Kind (RawDuration d) = Ret ScheduleInterval"
| "Interval_Kind (RawString s) = Ret ScheduleCron"
| "Interval_Kind RawOther = Panic ''interval input must be a string or time.Duration''"

fun Interval_Interval :: "Interval \<Rightarrow> i64 outcome" where
  "Interval_Interval (RawDuration d) = Ret d"
| "Interval_Interval _ = Panic ''could not cast Interval to time.Duration''"

fun Interval_Cron :: "Interval \<Rightarrow> string outcome" where
  "Interval_Cron (RawString s) = Ret s"
| "Interval_Cron _ = Panic ''interval input was not a string''"

section \<open>The monitor\<close>

text \<open>The counters and the values observed, by the label \<open>name\<close>; an observation is the
  \<open>float64\<close> of a \<open>time.Duration\<close>, which counts nanoseconds and is not negative here.\<close>

record monitor =
  executions :: "string \<Rightarrow> nat"
  failures :: "string \<Rightarrow> nat"
  observations :: "string \<Rightarrow> (nat \<times> nat) list"

definition NewMonitor :: monitor where
  "NewMonitor = \<lparr>executions = (\<lambda>_. 0), failures = (\<lambda>_. 0), observations = (\<lambda>_. [])\<rparr>"

text \<open>\<open>f\<close> is given by what it does: return an error or none after some time, or panic.\<close>

definition Monitor_run :: "string \<Rightarrow> (go_error option \<times> i64) outcome \<Rightarrow> monitor \<Rightarrow> monitor outcome" where
  "Monitor_run name f m =
     (case f of
        Panic p \<Rightarrow> Panic p
      | Ret (err, dur) \<Rightarrow>
          let m1 = m\<lparr>executions := (executions m)(name := executions m name + 1)\<rparr>;
              m2 = m1\<lparr>observations := (observations m1)(name := observations m1 name @ [float64 (unat dur) 1])\<rparr>
          in Ret (if err \<noteq> None then m2\<lparr>failures := (failures m2)(name := failures m2 name + 1)\<rparr> else m2))"

section \<open>The runner\<close>

record Worker =
  w_Name :: string
  w_Run :: "i64 \<Rightarrow> (go_error option \<times> i64) outcome"
  w_Interval :: Interval
  w_Timeout :: i64

datatype job_def = CronJob string bool | DurationJob i64

record Runner =
  sched :: "(job_def \<times> Worker \<times> string) list"
  started :: bool
  locker :: Locker
  mon :: monitor
  mon_registered :: bool

definition NewRunner :: "go_error option \<Rightarrow> go_error option \<Rightarrow> bool \<Rightarrow> go_error + Runner" where
  "NewRunner leader_err sched_err has_registerer =
     (case NewLocker leader_err of
        Inl err \<Rightarrow> Inl (wrapf ''failed to initialise locker'' err)
      | Inr l \<Rightarrow>
          (case sched_err of
             Some err \<Rightarrow> Inl (wrapf ''created scheduler'' err)
           | None \<Rightarrow> Inr \<lparr>sched = [], started = False, locker = l, mon = NewMonitor, mon_registered = has_registerer\<rparr>))"

text \<open>The function of a job: the worker under its timeout, in the monitor.\<close>

definition worker_task :: "Worker \<Rightarrow> monitor \<Rightarrow> monitor outcome" where
  "worker_task w m = Monitor_run (w_Name w) (w_Run w (w_Timeout w)) m"

text \<open>\<open>Register\<close>; the scheduler's verdict on a definition and a name is the parameter \<open>new_job\<close>.\<close>

definition Runner_NewJob :: "(job_def \<Rightarrow> string \<Rightarrow> go_error option) \<Rightarrow> job_def \<Rightarrow> Worker \<Rightarrow> Runner \<Rightarrow> go_error option \<times> Runner" where
  "Runner_NewJob new_job at w r =
     (case new_job at (w_Name w) of
        Some err \<Rightarrow> (Some (wrapf ''failed to register worker'' err), r)
      | None \<Rightarrow> (None, r\<lparr>sched := sched r @ [(at, w, w_Name w)]\<rparr>))"

definition Runner_Register ::
    "(job_def \<Rightarrow> string \<Rightarrow> go_error option) \<Rightarrow> Worker \<Rightarrow> Runner \<Rightarrow> (go_error option \<times> Runner) outcome" where
  "Runner_Register new_job w r =
     (case Interval_Kind (w_Interval w) of
        Panic p \<Rightarrow> Panic p
      | Ret k \<Rightarrow>
          if k = ScheduleCron then
            (case Interval_Cron (w_Interval w) of
               Panic p \<Rightarrow> Panic p | Ret s \<Rightarrow> Ret (Runner_NewJob new_job (CronJob s False) w r))
          else if k = ScheduleInterval then
            (case Interval_Interval (w_Interval w) of
               Panic p \<Rightarrow> Panic p | Ret d \<Rightarrow> Ret (Runner_NewJob new_job (DurationJob d) w r))
          else Ret (Some (EOther ''invalid schedule kind''), r))"

text \<open>\<open>Run\<close> blocks until the leader election is initialised.\<close>

definition Runner_Run :: "bool \<Rightarrow> Runner \<Rightarrow> Runner option" where
  "Runner_Run initialised r = (if initialised then Some (r\<lparr>started := True\<rparr>) else None)"

definition Runner_Stop :: "go_error option \<Rightarrow> Runner \<Rightarrow> go_error option \<times> Runner" where
  "Runner_Stop shutdown_err r = (shutdown_err, r\<lparr>started := False\<rparr>)"

text \<open>Runs of jobs one after the other; a panic counts for nothing.\<close>

fun run_tasks :: "Worker list \<Rightarrow> monitor \<Rightarrow> monitor" where
  "run_tasks [] m = m"
| "run_tasks (w # ws) m = run_tasks ws (case worker_task w m of Ret m' \<Rightarrow> m' | Panic p \<Rightarrow> m)"

definition returned :: "Worker \<Rightarrow> (go_error option \<times> i64) list" where
  "returned w = (case w_Run w (w_Timeout w) of Ret r \<Rightarrow> [r] | Panic p \<Rightarrow> [])"

definition results_of :: "string \<Rightarrow> Worker list \<Rightarrow> (go_error option \<times> i64) list" where
  "results_of name ws = concat (map returned (filter (\<lambda>w. w_Name w = name) ws))"

lemma results_of_simps [simp]:
  "results_of name [] = []"
  "results_of name (w # ws) = (if w_Name w = name then returned w else []) @ results_of name ws"
  by (simp_all add: results_of_def)

lemmas worker_defs = worker_task_def Monitor_run_def returned_def

section \<open>Properties\<close>

text \<open>Property C20. Whatever the elections and the interleaving of runs on the processes: on each
  process the names of the running jobs are distinct and are exactly the keys of its locker's map,
  so that no job runs twice at a time on one process and no key stays locked without a job.\<close>

theorem worker_locks_exact:
  assumes "locker_cluster policy c"
  shows "distinct (keys_on lock_key_of n (running c)) \<and>
    set (keys_on lock_key_of n (running c)) = dom (locks (lockers c n))"
  using locker.exact_keys [OF locker.exact_reach [OF assms], of n] by (simp add: locked_keys_def)

text \<open>Property C21. A job runs at most once in the cluster, and all jobs run on one process, as long as
  a process becomes the leader only when no other one still leads, has a job running, or is in a
  \<open>Lock\<close> that has passed its test of \<open>IsLeader\<close>. Neither the locker nor the election sees to these
  conditions, and without the last two it fails (the two theorems that follow).\<close>

theorem handover_runs_once:
  assumes "locker_cluster handover c"
  shows "distinct (map (lock_key_of \<circ> snd) (running c)) \<and> (\<exists>n. \<forall>r \<in> set (running c). fst r = n)"
  by (rule locker.handover_exclusive [OF assms])


text \<open>Nor is it enough that no other process leads and runs a job at the change: a \<open>Lock\<close> that passed its
  test before the change takes the lock after it.\<close>

theorem lock_race_overlap:
  assumes "running c = []" "pending c = []" "locks (lockers c n) key = None" "locks (lockers c m) key = None" "n \<noteq> m"
  shows "\<exists>c1 c2. cluster_run (\<lambda>_ _ _. True) [Leads n True, AskLock n key, Leads n False] c = Some c1 \<and> running c1 = [] \<and>
     \<not> leads c1 n \<and>
     cluster_run (\<lambda>_ _ _. True) [Leads m True, AskLock m key, TakeLock 1, TakeLock 0] c1 = Some c2 \<and>
     running c2 = [(m, FakeLock (Some key)), (n, FakeLock (Some key))]"
  using assms by (simp add: Lock_test_def Lock_take_def remove_nth_def)


lemma lock_race_overlap_witness:
  "\<exists>c1 c2. cluster_run (\<lambda>_ _ _. True) [Leads 0 True, AskLock 0 ''job'', Leads 0 False] no_jobs = Some c1 \<and>
     cluster_run (\<lambda>_ _ _. True) [Leads 1 True, AskLock 1 ''job'', TakeLock 1, TakeLock 0] c1 = Some c2 \<and>
     running c2 = [(1, FakeLock (Some ''job'')), (0, FakeLock (Some ''job''))]"
  using lock_race_overlap [of no_jobs 0 "''job''" 1] by (auto simp: no_jobs_def)

lemma worker_locks_exact_witness:
  "\<exists>c. locker_cluster (\<lambda>_ _ _. True) c \<and> running c = [(0, FakeLock (Some ''job''))] \<and>
     distinct (keys_on lock_key_of 0 (running c)) \<and> set (keys_on lock_key_of 0 (running c)) = dom (locks (lockers c 0))"
proof -
  let ?acts = "[Leads 0 True, AskLock 0 ''job'', AskLock 0 ''job'', TakeLock 1, TakeLock 0, AskLock 1 ''job'']"
  obtain c where c: "cluster_run (\<lambda>_ _ _. True) ?acts no_jobs = Some c" "running c = [(0, FakeLock (Some ''job''))]"
    by (simp add: no_jobs_def Lock_test_def Lock_take_def remove_nth_def)
  then have "locker_cluster (\<lambda>_ _ _. True) c" by (blast intro: cluster_run_reach no_jobs_reach)
  then show ?thesis using c(2) worker_locks_exact [of "\<lambda>_ _ _. True" c 0] by blast
qed

lemma handover_runs_once_witness:
  "\<exists>c. locker_cluster handover c \<and> running c = [(1, FakeLock (Some ''a'')), (1, FakeLock (Some ''b''))] \<and>
     distinct (map (lock_key_of \<circ> snd) (running c))"
proof -
  obtain c where c: "cluster_run handover [Leads 0 True, AskLock 0 ''a'', TakeLock 0, Leads 0 False, FinishJob 0, Leads 1 True,
      AskLock 1 ''a'', AskLock 1 ''b'', TakeLock 0, TakeLock 0, AskLock 0 ''a''] no_jobs = Some c"
      "running c = [(1, FakeLock (Some ''a'')), (1, FakeLock (Some ''b''))]"
    by (simp add: no_jobs_def Lock_test_def Lock_take_def handover_def remove_nth_def)
  then have "locker_cluster handover c" by (blast intro: cluster_run_reach no_jobs_reach)
  then show ?thesis using c(2) handover_runs_once by blast
qed

text \<open>The monitor is exact: after any runs of workers, each name has counted the runs
  that returned, the ones that returned an error, and observed the duration of each, in order; a
  run that panics leaves no trace.\<close>

theorem monitor_exact:
  "executions (run_tasks ws m) t = executions m t + length (results_of t ws) \<and>
   failures (run_tasks ws m) t = failures m t + length (filter (\<lambda>(err, d). err \<noteq> None) (results_of t ws)) \<and>
   observations (run_tasks ws m) t = observations m t @ map (\<lambda>(err, d). float64 (unat d) 1) (results_of t ws)"
  by (induction ws arbitrary: m) (auto simp: worker_defs Let_def split: outcome.splits)

text \<open>The histogram \<open>worker_duration_seconds\<close> observes nanoseconds: a run of one second adds
  \<open>10^9\<close> to it.\<close>

lemma monitor_observes_nanoseconds:
  "\<exists>m. Monitor_run ''job'' (Ret (None, 1000000000)) NewMonitor = Ret m \<and> observations m ''job'' = [float64 (10 ^ 9) 1]"
  by (simp add: Monitor_run_def NewMonitor_def Let_def)

text \<open>\<open>Register\<close> schedules a worker by its interval, under its name: a duration runs it
  at that rate, a string is a cron expression without seconds; what the scheduler refuses is
  reported and changes nothing; an interval of another type panics, and no kind is invalid.\<close>

lemma register_schedules:
  "Runner_Register new_job w r =
     (case w_Interval w of
        RawOther \<Rightarrow> Panic ''interval input must be a string or time.Duration''
      | raw \<Rightarrow>
          let at = (case raw of RawString s \<Rightarrow> CronJob s False | RawDuration d \<Rightarrow> DurationJob d)
          in Ret (case new_job at (w_Name w) of
                    None \<Rightarrow> (None, r\<lparr>sched := sched r @ [(at, w, w_Name w)]\<rparr>)
                  | Some err \<Rightarrow> (Some (EWrap (''failed to register worker: '' @ error_text err) err), r)))"
  by (cases "w_Interval w")
    (simp_all add: Runner_Register_def Runner_NewJob_def ScheduleCron_def ScheduleInterval_def wrapf_def Let_def split: option.splits)

end
