(* ===== verification/Uuid.thy ===== *)
theory Uuid
  imports Go_Text
begin

unbundle bit_operations_syntax

text \<open>
  \<open>uuid/uuid.go\<close> and \<open>uuid/sql.go\<close>: the \<open>UUID\<close> type, its text, JSON, YAML, form and
  SQL codecs, and the version 7 generator for a given time. A \<open>UUID\<close> is its 16 bytes. The parser
  of Go's \<open>uuid\<close> package is a parameter \<open>parse\<close>; what the codecs need of it, that it reads
  the canonical text back, is a named hypothesis. The random bytes of \<open>NewV4\<close> and the package
  variable \<open>lastV7time\<close> are arguments.
\<close>

type_synonym uuid = "u8 list"

definition is_uuid :: "uuid \<Rightarrow> bool" where
  "is_uuid u \<longleftrightarrow> length u = 16"

section \<open>Text\<close>

text \<open>The canonical text: 32 lower-case digits in groups of 8, 4, 4, 4 and 12.\<close>

definition UUID_String :: "uuid \<Rightarrow> string" where
  "UUID_String u =
     hex_encode (take 4 u) @ ''-'' @ hex_encode (take 2 (drop 4 u)) @ ''-'' @
     hex_encode (take 2 (drop 6 u)) @ ''-'' @ hex_encode (take 2 (drop 8 u)) @ ''-'' @
     hex_encode (drop 10 u)"

type_synonym uuid_parser = "string \<Rightarrow> go_error + uuid"

definition Parse :: "uuid_parser \<Rightarrow> string \<Rightarrow> go_error + uuid" where
  "Parse parse s = parse s"

text \<open>The hypothesis on the parser of the \<open>uuid\<close> package.\<close>

definition reads_canonical :: "uuid_parser \<Rightarrow> bool" where
  "reads_canonical parse \<longleftrightarrow> (\<forall>u. is_uuid u \<longrightarrow> parse (UUID_String u) = Inr u)"

record pg_uuid =
  Bytes :: "u8 list"
  Valid :: bool

definition PgUUID :: "uuid \<Rightarrow> pg_uuid" where
  "PgUUID u = \<lparr>Bytes = u, Valid = True\<rparr>"

definition UUID_MarshalJSON :: "uuid \<Rightarrow> string" where
  "UUID_MarshalJSON u = CHR 0x22 # UUID_String u @ [CHR 0x22]"

text \<open>The unmarshallers return the error and what they leave in their receiver.\<close>

definition store_parsed :: "uuid_parser \<Rightarrow> uuid \<Rightarrow> string \<Rightarrow> go_error option \<times> uuid" where
  "store_parsed parse u raw = (case Parse parse raw of Inl err \<Rightarrow> (Some err, u) | Inr i \<Rightarrow> (None, i))"

definition UUID_UnmarshalJSON ::
    "(string \<Rightarrow> go_error + string) \<Rightarrow> uuid_parser \<Rightarrow> uuid \<Rightarrow> string \<Rightarrow> go_error option \<times> uuid" where
  "UUID_UnmarshalJSON json_string parse u data =
     (case json_string data of Inl err \<Rightarrow> (Some err, u) | Inr raw \<Rightarrow> store_parsed parse u raw)"

definition UUID_MarshalYAML :: "uuid \<Rightarrow> string" where
  "UUID_MarshalYAML u = UUID_String u"

text \<open>\<open>f\<close> is the YAML library's decoder into the variable \<open>raw\<close>.\<close>

definition UUID_UnmarshalYAML :: "uuid_parser \<Rightarrow> uuid \<Rightarrow> (go_error + string) \<Rightarrow> go_error option \<times> uuid" where
  "UUID_UnmarshalYAML parse u f = (case f of Inl err \<Rightarrow> (Some err, u) | Inr raw \<Rightarrow> store_parsed parse u raw)"

definition UUID_UnmarshalParam :: "uuid_parser \<Rightarrow> uuid \<Rightarrow> string \<Rightarrow> go_error option \<times> uuid" where
  "UUID_UnmarshalParam parse u s = store_parsed parse u s"

definition UUID_MarshalText :: "uuid \<Rightarrow> string" where
  "UUID_MarshalText u = UUID_String u"

definition UUID_UnmarshalText :: "uuid_parser \<Rightarrow> uuid \<Rightarrow> string \<Rightarrow> go_error option \<times> uuid" where
  "UUID_UnmarshalText parse u data = store_parsed parse u data"

definition Map_uuids :: "uuid list \<Rightarrow> uuid list" where
  "Map_uuids ids = foldl (\<lambda>out i. out @ [i]) [] ids"

section \<open>SQL\<close>

datatype sql_source = SqlNil | SqlString string | SqlBytes "u8 list" | SqlOther string

definition byte_char :: "u8 \<Rightarrow> char" where
  "byte_char b = char_of (unat b)"

definition Scan_string :: "uuid_parser \<Rightarrow> uuid \<Rightarrow> string \<Rightarrow> go_error option \<times> uuid" where
  "Scan_string parse u src =
     (if src = [] then (None, u)
      else case Parse parse src of
        Inl err \<Rightarrow> (Some (EOther (''Scan: '' @ error_text err)), u)
      | Inr i \<Rightarrow> (None, i))"

fun Scan :: "uuid_parser \<Rightarrow> uuid \<Rightarrow> sql_source \<Rightarrow> go_error option \<times> uuid" where
  "Scan parse u SqlNil = (None, u)"
| "Scan parse u (SqlString src) = Scan_string parse u src"
| "Scan parse u (SqlBytes src) =
     (if src = [] then (None, u)
      else if length src \<noteq> 16 then Scan_string parse u (map byte_char src)
      else (None, src))"
| "Scan parse u (SqlOther ty) = (Some (EOther (''Scan: unable to scan type '' @ ty @ '' into UUID'')), u)"

definition UUID_Value :: "uuid \<Rightarrow> sql_source" where
  "UUID_Value u = SqlString (UUID_String u)"

section \<open>Version 7 for a given time\<close>

text \<open>
  \<open>getV7Time\<close> on the nanoseconds of the time and the last value of \<open>lastV7time\<close>; it returns
  the milliseconds, the sequence number and the new \<open>lastV7time\<close>. Division truncates and shifts
  are arithmetic, as on Go's \<open>int64\<close>.
\<close>

definition getV7Time :: "i64 \<Rightarrow> i64 \<Rightarrow> i64 \<times> i64 \<times> i64" where
  "getV7Time nano lastV7time =
     (let milli = word_of_int (if sint nano < 0 then - (- sint nano div 1000000) else sint nano div 1000000);
          seq = signed_drop_bit 8 (nano - milli * 1000000);
          now = push_bit 12 milli + seq
      in if now = lastV7time
         then let now' = lastV7time + 1
              in (signed_drop_bit 12 now', now' AND 0xfff, now')
         else (milli, seq, now))"

definition byte_of :: "i64 \<Rightarrow> u8" where
  "byte_of x = ucast x"

definition makeV7 :: "i64 \<Rightarrow> i64 \<Rightarrow> uuid \<Rightarrow> uuid \<times> i64" where
  "makeV7 nano lastV7time u =
     (case getV7Time nano lastV7time of
        (t, s, last') \<Rightarrow>
          (u[0 := byte_of (signed_drop_bit 40 t),
             1 := byte_of (signed_drop_bit 32 t),
             2 := byte_of (signed_drop_bit 24 t),
             3 := byte_of (signed_drop_bit 16 t),
             4 := byte_of (signed_drop_bit 8 t),
             5 := byte_of t,
             6 := 0x70 OR (0x0F AND byte_of (signed_drop_bit 8 s)),
             7 := byte_of s],
           last'))"

text \<open>\<open>New\<close> on the bytes \<open>NewV4\<close> draws; it never fails.\<close>

definition New :: "uuid \<Rightarrow> go_error + uuid" where
  "New v4 = Inr v4"

definition OrderedAt :: "i64 \<Rightarrow> uuid \<Rightarrow> i64 \<Rightarrow> (go_error + uuid) \<times> i64" where
  "OrderedAt nano v4 lastV7time =
     (case New v4 of
        Inl err \<Rightarrow> (Inl err, lastV7time)
      | Inr u \<Rightarrow> (case makeV7 nano lastV7time u of (u', last') \<Rightarrow> (Inr u', last')))"

fun Must :: "go_error + uuid \<Rightarrow> uuid outcome" where
  "Must (Inl err) = Panic (error_text err)"
| "Must (Inr i) = Ret i"

definition MustNew :: "uuid \<Rightarrow> uuid outcome" where
  "MustNew v4 = Must (New v4)"

text \<open>\<open>Ordered\<close> and \<open>MustOrdered\<close> on the value \<open>NewV7\<close> returns.\<close>

definition Ordered :: "uuid \<Rightarrow> go_error + uuid" where
  "Ordered v7 = Inr v7"

definition MustOrdered :: "uuid \<Rightarrow> uuid outcome" where
  "MustOrdered v7 = Must (Ordered v7)"

section \<open>The generator in numbers\<close>

definition tick :: "int \<Rightarrow> int" where
  "tick nano = nano div 1000000 * 4096 + nano mod 1000000 div 256"

lemma tick_bounds:
  assumes "0 \<le> nano" "nano < 2 ^ 63"
  shows "0 \<le> tick nano" "tick nano < 2 ^ 62" "tick nano div 4096 = nano div 1000000"
    "tick nano mod 4096 = nano mod 1000000 div 256" "(tick nano + 1) div 4096 = nano div 1000000"
    "(tick nano + 1) mod 4096 = nano mod 1000000 div 256 + 1" "nano div 1000000 < 2 ^ 48"
proof -
  have s: "0 \<le> nano mod 1000000 div 256" "nano mod 1000000 div 256 \<le> 3906"
    using pos_mod_bound [of 1000000 nano] by (auto simp: pos_imp_zdiv_nonneg_iff)
  have m: "0 \<le> nano div 1000000" "nano div 1000000 \<le> 9223372036854"
    using assms by (auto simp: pos_imp_zdiv_nonneg_iff)
  show "0 \<le> tick nano" "tick nano < 2 ^ 62" "nano div 1000000 < 2 ^ 48"
    using s m by (auto simp: tick_def)
  show "tick nano div 4096 = nano div 1000000" "tick nano mod 4096 = nano mod 1000000 div 256"
    "(tick nano + 1) div 4096 = nano div 1000000"
    "(tick nano + 1) mod 4096 = nano mod 1000000 div 256 + 1"
    using s unfolding tick_def by (simp_all add: div_pos_pos_trivial mod_pos_pos_trivial add.assoc)
qed

lemma signed_drop_bit_nonneg:
  assumes "0 \<le> k" "k < 2 ^ 63"
  shows "signed_drop_bit n (word_of_int k :: i64) = word_of_int (k div 2 ^ n)"
proof (rule signed_word_eqI)
  have "k div 2 ^ n \<le> k div 1" using assms(1) by (intro zdiv_mono2) auto
  moreover have "0 \<le> k div 2 ^ n" using assms(1) by (simp add: pos_imp_zdiv_nonneg_iff)
  ultimately have "sint (word_of_int (k div 2 ^ n) :: i64) = k div 2 ^ n"
    using assms by (intro sint_of_int_i64) auto
  moreover have "sint (signed_drop_bit n (word_of_int k :: i64)) = k div 2 ^ n"
    using assms sint_of_int_i64 [of k] by (simp add: sint_signed_drop_bit_eq drop_bit_eq_div)
  ultimately show "sint (signed_drop_bit n (word_of_int k :: i64)) = sint (word_of_int (k div 2 ^ n) :: i64)"
    by simp
qed

lemma v7_join: "push_bit 12 (word_of_int m) + word_of_int s = (word_of_int (m * 4096 + s) :: i64)"
  by (simp add: push_bit_eq_mult)

lemma v7_low: "(word_of_int k :: i64) AND 0xfff = word_of_int (k mod 4096)"
proof -
  have "(word_of_int k :: i64) AND 0xfff = take_bit 12 (word_of_int k)"
    by (simp add: take_bit_eq_mask mask_eq_exp_minus_1)
  also have "\<dots> = word_of_int (take_bit 12 k)" by (simp add: take_bit_of_int)
  finally show ?thesis by (simp add: take_bit_eq_mod)
qed

lemma v7_rest:
  assumes "0 \<le> N"
  shows "signed_drop_bit 8 (word_of_int N - word_of_int (N div 1000000) * 1000000) = (word_of_int (N mod 1000000 div 256) :: i64)"
proof -
  have "word_of_int N - word_of_int (N div 1000000) * 1000000 = (word_of_int (N - N div 1000000 * 1000000) :: i64)"
    by simp
  moreover have "N - N div 1000000 * 1000000 = N mod 1000000" by (simp add: minus_div_mult_eq_mod)
  moreover have "signed_drop_bit 8 (word_of_int (N mod 1000000)) = (word_of_int (N mod 1000000 div 2 ^ 8) :: i64)"
    using pos_mod_bound [of 1000000 N] by (intro signed_drop_bit_nonneg) simp_all
  ultimately show ?thesis by (simp only: power_numeral) simp
qed

lemma getV7Time_nonneg:
  assumes "0 \<le> sint nano"
  shows "getV7Time nano L =
    (let N = sint nano in
     if word_of_int (tick N) = L
     then (word_of_int (N div 1000000), word_of_int (N mod 1000000 div 256 + 1), word_of_int (tick N + 1))
     else (word_of_int (N div 1000000), word_of_int (N mod 1000000 div 256), word_of_int (tick N)))"
proof -
  define N where "N = sint nano"
  have N: "0 \<le> N" "N < 2 ^ 63" using assms sint_i64_bounds unfolding N_def by auto
  note b = tick_bounds [OF N]
  have nano: "nano = word_of_int N" unfolding N_def by simp
  have now: "push_bit 12 (word_of_int (N div 1000000)) + word_of_int (N mod 1000000 div 256) = (word_of_int (tick N) :: i64)"
    unfolding v7_join tick_def ..
  have one: "(word_of_int (tick N) :: i64) + 1 = word_of_int (tick N + 1)" by simp
  have m: "signed_drop_bit 12 (word_of_int (tick N + 1) :: i64) = word_of_int ((tick N + 1) div 2 ^ 12)"
    by (rule signed_drop_bit_nonneg) (use b(1,2) in simp_all)
  have m': "signed_drop_bit 12 (word_of_int (tick N + 1) :: i64) = word_of_int (N div 1000000)"
    unfolding m b(5) [symmetric] by (simp only: power_numeral) simp
  have neg: "(if N < 0 then - (- N div 1000000) else N div 1000000) = N div 1000000"
    using N(1) by (simp only: if_False not_less [symmetric])
  show ?thesis
  proof (cases "word_of_int (tick N) = L")
    case True
    have "L + 1 = word_of_int (tick N + 1)" unfolding True [symmetric] by (rule one)
    then show ?thesis
      unfolding getV7Time_def N_def [symmetric] neg Let_def
      unfolding nano v7_rest [OF N(1)] now
      by (simp only: True if_True m' v7_low b(6))
  next
    case False
    then show ?thesis
      unfolding getV7Time_def N_def [symmetric] neg Let_def
      unfolding nano v7_rest [OF N(1)] now
      by (simp only: if_False)
  qed
qed

lemma unat_byte_of_int: "int (unat (byte_of (word_of_int x))) = x mod 256"
  by (simp add: byte_of_def unat_eq_nat_uint unsigned_ucast_eq uint_word_of_int take_bit_eq_mod mod_mod_cancel)

lemma unat_byte_of:
  assumes "0 \<le> t" "t < 2 ^ 63"
  shows "int (unat (byte_of (signed_drop_bit k (word_of_int t)))) = t div 2 ^ k mod 256"
  by (simp only: signed_drop_bit_nonneg [OF assms] unat_byte_of_int)

lemma take_6: "6 \<le> length xs \<Longrightarrow> take 6 xs = [xs ! 0, xs ! 1, xs ! 2, xs ! 3, xs ! 4, xs ! 5]"
  by (rule nth_equalityI) (auto simp: less_Suc_eq numeral_eq_Suc)

text \<open>The 48-bit big-endian number in the first six bytes.\<close>

definition v7_millis :: "uuid \<Rightarrow> int" where
  "v7_millis u = foldl (\<lambda>a b. a * 256 + int (unat b)) 0 (take 6 u)"

lemma big_endian_48:
  fixes t :: int
  assumes "0 \<le> t" "t < 2 ^ 48"
  shows "((((t div 2 ^ 40 mod 256 * 256 + t div 2 ^ 32 mod 256) * 256 + t div 2 ^ 24 mod 256) * 256
    + t div 2 ^ 16 mod 256) * 256 + t div 2 ^ 8 mod 256) * 256 + t mod 256 = t"
proof -
  have top: "t div 2 ^ 40 mod 256 = t div 2 ^ 40" using assms by (simp add: div_pos_pos_trivial)
  have s: "x div 2 ^ (n + 8) * 256 + x div 2 ^ n mod 256 = x div 2 ^ n" for x :: int and n
    by (simp add: power_add zdiv_zmult2_eq)
  show ?thesis
    unfolding top using s [of t 32] s [of t 24] s [of t 16] s [of t 8] s [of t 0] by simp
qed

lemma makeV7_length [simp]: "length (fst (makeV7 nano L u)) = length u"
  by (simp add: makeV7_def split: prod.splits)

lemma getV7Time_milli:
  assumes "0 \<le> sint nano"
  shows "fst (getV7Time nano L) = word_of_int (sint nano div 1000000)"
  unfolding getV7Time_nonneg [OF assms] Let_def by (cases "word_of_int (tick (sint nano)) = L") simp_all

lemma makeV7_take_6:
  assumes "length u = 16"
  shows "take 6 (fst (makeV7 nano L u)) =
    (let t = fst (getV7Time nano L) in
     [byte_of (signed_drop_bit 40 t), byte_of (signed_drop_bit 32 t), byte_of (signed_drop_bit 24 t),
      byte_of (signed_drop_bit 16 t), byte_of (signed_drop_bit 8 t), byte_of t])"
  using assms by (simp add: take_6 makeV7_def Let_def split: prod.split)

lemma makeV7_millis:
  assumes "is_uuid u" "0 \<le> sint nano"
  shows "v7_millis (fst (makeV7 nano L u)) = sint nano div 1000000"
proof -
  have N: "sint nano < 2 ^ 63" by (rule sint_i64_bounds)
  have M: "0 \<le> sint nano div 1000000" "sint nano div 1000000 < 2 ^ 48"
    using assms(2) tick_bounds(7) [OF assms(2) N] by (auto simp: pos_imp_zdiv_nonneg_iff)
  then have M': "sint nano div 1000000 < 2 ^ 63" by simp
  have l: "length u = 16" using assms(1) by (simp add: is_uuid_def)
  show ?thesis
    unfolding v7_millis_def makeV7_take_6 [OF l] Let_def getV7Time_milli [OF assms(2)] foldl_Cons foldl_Nil
      unat_byte_of [OF M(1) M'] unat_byte_of_int mult_zero_left add_0
    by (rule big_endian_48 [OF M])
qed

text \<open>A parser that meets the hypothesis: it reads the canonical text and nothing else.\<close>

definition canonical_parse :: uuid_parser where
  "canonical_parse s =
     (case hex_decode (filter (\<lambda>c. c \<noteq> CHR ''-'') s) of
        Some u \<Rightarrow> if length u = 16 \<and> UUID_String u = s then Inr u else Inl (EOther ''invalid UUID'')
      | None \<Rightarrow> Inl (EOther ''invalid UUID''))"

lemma filter_no_dash: "filter (\<lambda>c. c \<noteq> CHR ''-'') (hex_encode bs) = hex_encode bs"
  by (rule filter_True) (use hex_encode_not_lower [of "CHR ''-''" bs] in \<open>auto simp: is_hex_lower_def is_digit_def\<close>)

lemma hex_encode_append: "hex_encode xs @ hex_encode ys = hex_encode (xs @ ys)"
  by (simp add: hex_encode_def)

lemma pieces: "take n u @ take m (drop n u) @ v = take (n + m) u @ v"
  by (simp add: take_add)

lemma UUID_String_digits: "filter (\<lambda>c. c \<noteq> CHR ''-'') (UUID_String u) = hex_encode u"
proof -
  have "u = take 4 u @ take 2 (drop 4 u) @ take 2 (drop 6 u) @ take 2 (drop 8 u) @ drop 10 u"
    by (simp add: pieces)
  then have "hex_encode u = hex_encode (take 4 u) @ hex_encode (take 2 (drop 4 u)) @
      hex_encode (take 2 (drop 6 u)) @ hex_encode (take 2 (drop 8 u)) @ hex_encode (drop 10 u)"
    by (metis hex_encode_append)
  then show ?thesis by (simp add: UUID_String_def filter_no_dash)
qed

lemma UUID_String_nonempty [simp]: "UUID_String u \<noteq> []"
  by (simp add: UUID_String_def)

lemma canonical_parse_reads: "reads_canonical canonical_parse"
  by (simp add: reads_canonical_def canonical_parse_def UUID_String_digits is_uuid_def)

lemma OrderedAt_makeV7: "OrderedAt nano v L = (Inr (fst (makeV7 nano L v)), snd (makeV7 nano L v))"
  by (simp add: OrderedAt_def New_def split: prod.split)

lemma byte_of_next: "byte_of (word_of_int k) \<noteq> byte_of (word_of_int (k + 1))"
proof
  assume "byte_of (word_of_int k) = byte_of (word_of_int (k + 1))"
  then have "k mod 256 = (k + 1) mod 256" by (metis unat_byte_of_int)
  then have "256 dvd k - (k + 1)" by (simp only: mod_eq_dvd_iff)
  then show False by simp
qed

lemma take_8: "8 \<le> length xs \<Longrightarrow> take 8 xs = [xs ! 0, xs ! 1, xs ! 2, xs ! 3, xs ! 4, xs ! 5, xs ! 6, xs ! 7]"
  by (rule nth_equalityI) (auto simp: less_Suc_eq numeral_eq_Suc)

lemma makeV7_7: "length u = 16 \<Longrightarrow> fst (makeV7 nano L u) ! 7 = byte_of (fst (snd (getV7Time nano L)))"
  by (simp add: makeV7_def split: prod.split)

lemma makeV7_take_8:
  "length u = 16 \<Longrightarrow> take 8 (fst (makeV7 nano L u)) =
    (case getV7Time nano L of (t, s, l) \<Rightarrow>
      [byte_of (signed_drop_bit 40 t), byte_of (signed_drop_bit 32 t), byte_of (signed_drop_bit 24 t),
       byte_of (signed_drop_bit 16 t), byte_of (signed_drop_bit 8 t), byte_of t,
       0x70 OR (0x0F AND byte_of (signed_drop_bit 8 s)), byte_of s])"
  by (simp add: take_8 makeV7_def split: prod.split)

section \<open>Properties\<close>

text \<open>Property C32. With a parser that reads the canonical text, every codec of the type reads
  back what its writer wrote and leaves it in the receiver: text, JSON, YAML, the form parameter
  and the SQL pair \<open>Value\<close>/\<open>Scan\<close>; the 16 raw bytes scan as themselves.\<close>

theorem uuid_codecs_roundtrip:
  assumes "reads_canonical parse" "is_uuid u" "json_string (UUID_MarshalJSON u) = Inr (UUID_String u)"
  shows "UUID_UnmarshalText parse w (UUID_MarshalText u) = (None, u) \<and>
    UUID_UnmarshalJSON json_string parse w (UUID_MarshalJSON u) = (None, u) \<and>
    UUID_UnmarshalYAML parse w (Inr (UUID_MarshalYAML u)) = (None, u) \<and>
    UUID_UnmarshalParam parse w (UUID_String u) = (None, u) \<and>
    Scan parse w (UUID_Value u) = (None, u) \<and>
    Scan parse w (SqlBytes u) = (None, u)"
proof -
  have "parse (UUID_String u) = Inr u" using assms(1,2) by (simp add: reads_canonical_def)
  moreover have "u \<noteq> []" "length u = 16" using assms(2) by (auto simp: is_uuid_def)
  ultimately show ?thesis using assms(3)
    by (simp add: UUID_UnmarshalText_def UUID_MarshalText_def UUID_UnmarshalJSON_def UUID_UnmarshalYAML_def
        UUID_MarshalYAML_def UUID_UnmarshalParam_def UUID_Value_def Scan_string_def store_parsed_def Parse_def)
qed

definition unquote :: "string \<Rightarrow> go_error + string" where
  "unquote s = Inr (butlast (tl s))"

lemma uuid_codecs_roundtrip_witness:
  "UUID_UnmarshalText canonical_parse [] (UUID_MarshalText (replicate 16 0xAB)) = (None, replicate 16 0xAB) \<and>
   UUID_UnmarshalJSON unquote canonical_parse [] (UUID_MarshalJSON (replicate 16 0xAB)) = (None, replicate 16 0xAB)"
  using uuid_codecs_roundtrip [of canonical_parse "replicate 16 0xAB" unquote "[]"]
  by (simp add: canonical_parse_reads is_uuid_def unquote_def UUID_MarshalJSON_def)

lemma version_nibble: "(0x70 OR (0x0F AND x) :: u8) div 16 = 7"
proof -
  have "(0x70 OR (0x0F AND x) :: u8) div 16 = drop_bit 4 (0x70 OR (0x0F AND x))" by (simp add: drop_bit_eq_div)
  also have "\<dots> = drop_bit 4 0x70 OR (drop_bit 4 0x0F AND drop_bit 4 x)" by (simp only: drop_bit_or drop_bit_and)
  finally show ?thesis by simp
qed

lemma foldl_be_bound: "a < b \<Longrightarrow> length xs = length ys \<Longrightarrow>
    foldl (\<lambda>a b. a * 256 + int (unat b)) a (xs :: u8 list) < foldl (\<lambda>a b. a * 256 + int (unat b)) b ys"
proof (induction xs ys arbitrary: a b rule: list_induct2')
  case (4 x xs y ys)
  have "unat x < 256" using unsigned_less [of x] by simp
  then have "a * 256 + int (unat x) < b * 256 + int (unat y)" using 4(2) by linarith
  then show ?case using 4 by simp
qed auto

lemma foldl_be_less:
  "foldl (\<lambda>a b. a * 256 + int (unat b)) a (xs :: u8 list) < foldl (\<lambda>a b. a * 256 + int (unat b)) a ys \<Longrightarrow>
   length xs = length ys \<Longrightarrow> ord_class.lexordp (xs @ us) (ys @ vs)"
proof (induction xs ys arbitrary: a rule: list_induct2')
  case (4 x xs y ys)
  consider "x < y" | "x = y" | "y < x" by (rule linorder_cases)
  then show ?case
  proof cases
    case 2
    then show ?thesis using 4 by simp
  next
    case 3
    then have "unat y < unat x" by (simp only: word_less_nat_alt)
    then have "a * 256 + int (unat y) < a * 256 + int (unat x)" by linarith
    from foldl_be_bound [OF this, of ys xs] show ?thesis using 4 by simp
  qed simp
qed auto

lemma v7_millis_less:
  assumes "is_uuid u" "is_uuid v" "v7_millis u < v7_millis v"
  shows "ord_class.lexordp u v"
  using foldl_be_less [of 0 "take 6 u" "take 6 v" "drop 6 u" "drop 6 v"] assms
  by (simp add: v7_millis_def is_uuid_def)

text \<open>\<open>OrderedAt\<close> never fails; the id it returns carries the milliseconds of the
  time in its first 48 bits and version 7 in its seventh byte, and keeps the random bytes from the
  ninth on.\<close>

theorem OrderedAt_layout:
  assumes "is_uuid v4" "0 \<le> sint nano"
  shows "\<exists>u last'. OrderedAt nano v4 L = (Inr u, last') \<and> is_uuid u \<and>
    v7_millis u = sint nano div 1000000 \<and> u ! 6 div 16 = 7 \<and> drop 8 u = drop 8 v4"
proof -
  let ?u = "fst (makeV7 nano L v4)"
  have "OrderedAt nano v4 L = (Inr ?u, snd (makeV7 nano L v4))" by (rule OrderedAt_makeV7)
  moreover have "is_uuid ?u" using assms(1) by (simp add: is_uuid_def)
  moreover have "?u ! 6 div 16 = 7"
    using assms(1) by (simp add: is_uuid_def makeV7_def version_nibble split: prod.split)
  moreover have "drop 8 ?u = drop 8 v4" by (simp add: makeV7_def split: prod.split)
  ultimately show ?thesis using makeV7_millis [OF assms] by blast
qed

lemma OrderedAt_layout_witness:
  "\<exists>u last'. OrderedAt 1234567890 (replicate 16 0xFF) 0 = (Inr u, last') \<and> is_uuid u \<and>
    v7_millis u = 1234 \<and> u ! 6 div 16 = 7 \<and> drop 8 u = drop 8 (replicate 16 0xFF)"
  using OrderedAt_layout [of "replicate 16 0xFF" 1234567890 0] by (simp add: is_uuid_def)



text \<open>Property C38. Two calls in a row at one instant give different ids even for the same random
  bytes, but only \<open>==\<close> is compared with the last time: the third call repeats the time and
  sequence bytes of the first.\<close>

theorem OrderedAt_same_instant:
  assumes "0 \<le> sint nano" "L \<noteq> word_of_int (tick (sint nano))" "is_uuid v" "is_uuid w" "is_uuid x"
    "OrderedAt nano v L = (Inr u1, L1)" "OrderedAt nano w L1 = (Inr u2, L2)" "OrderedAt nano x L2 = (Inr u3, L3)"
  shows "u1 ! 7 \<noteq> u2 ! 7 \<and> take 8 u3 = take 8 u1"
proof -
  define N where "N = sint nano"
  have N: "0 \<le> N" "N < 2 ^ 63" using assms(1) sint_i64_bounds unfolding N_def by auto
  have L: "word_of_int (tick N) \<noteq> L" using assms(2) by (auto simp: N_def)
  have u1: "u1 = fst (makeV7 nano L v)" "L1 = snd (makeV7 nano L v)"
    and u2: "u2 = fst (makeV7 nano L1 w)" "L2 = snd (makeV7 nano L1 w)"
    and u3: "u3 = fst (makeV7 nano L2 x)"
    using assms(6-8) by (auto simp: OrderedAt_def New_def split: prod.splits)
  have g1: "getV7Time nano L = (word_of_int (N div 1000000), word_of_int (N mod 1000000 div 256), word_of_int (tick N))"
    unfolding getV7Time_nonneg [OF assms(1)] Let_def N_def [symmetric] using L by (simp only: if_False)
  have L1: "L1 = word_of_int (tick N)" by (simp add: u1 makeV7_def g1)
  have g2: "getV7Time nano L1 = (word_of_int (N div 1000000), word_of_int (N mod 1000000 div 256 + 1), word_of_int (tick N + 1))"
    unfolding getV7Time_nonneg [OF assms(1)] Let_def N_def [symmetric] L1 by (simp only: refl if_True)
  have L2: "L2 = word_of_int (tick N + 1)" by (simp add: u2 makeV7_def g2)
  have "word_of_int (tick N) \<noteq> L2" unfolding L2 by simp
  then have g3: "getV7Time nano L2 = (word_of_int (N div 1000000), word_of_int (N mod 1000000 div 256), word_of_int (tick N))"
    unfolding getV7Time_nonneg [OF assms(1)] Let_def N_def [symmetric] by (simp only: if_False)
  have ne: "byte_of (word_of_int (N mod 1000000 div 256)) \<noteq> byte_of (word_of_int (N mod 1000000 div 256 + 1))"
    by (rule byte_of_next)
  have "length v = 16" "length w = 16" "length x = 16" using assms(3-5) by (simp_all add: is_uuid_def)
  note l = this
  have "u1 ! 7 \<noteq> u2 ! 7" unfolding u1(1) u2(1) makeV7_7 [OF l(1)] makeV7_7 [OF l(2)] g1 g2 fst_conv snd_conv by (rule ne)
  moreover have "take 8 u3 = take 8 u1"
    unfolding u1(1) u3 makeV7_take_8 [OF l(1)] makeV7_take_8 [OF l(3)] g1 g3 by (rule refl)
  ultimately show ?thesis by (rule conjI)
qed

lemma OrderedAt_same_instant_witness:
  "\<exists>u1 u2 u3 L1 L2 L3. OrderedAt 5000000 (replicate 16 0) 0 = (Inr u1, L1) \<and>
     OrderedAt 5000000 (replicate 16 0) L1 = (Inr u2, L2) \<and> OrderedAt 5000000 (replicate 16 0) L2 = (Inr u3, L3) \<and>
     u1 ! 7 \<noteq> u2 ! 7 \<and> take 8 u3 = take 8 u1"
proof -
  have "sint (5000000 :: i64) = 5000000" "word_of_int (tick 5000000) \<noteq> (0 :: i64)" by (simp_all add: tick_def)
  then show ?thesis
    using OrderedAt_same_instant [of 5000000 0 "replicate 16 0" "replicate 16 0" "replicate 16 0"]
    unfolding OrderedAt_makeV7 by (auto simp: is_uuid_def)
qed

end
