(* ===== verification/String_Duration.thy ===== *)
theory String_Duration
  imports Go_Duration
begin

text \<open>
  \<open>duration/string.go\<close>: \<open>StringDuration\<close>, a \<open>time.Duration\<close> whose text may count
  days. \<open>ParseStringDuration\<close> rewrites every \<open>[0-9]+d\<close> into hours and hands the text to
  \<open>time.ParseDuration\<close>; \<open>String\<close> rewrites the hours of \<open>time.Duration.String\<close> into
  days and hours. The main result is that the two are inverse on every 64-bit duration; two more
  say where the textual rewriting of days goes wrong.
\<close>

section \<open>The code\<close>

text \<open>The loop \<open>for hours >= 24 { days++; hours = hours - 24 }\<close>.\<close>

function days_loop :: "int \<Rightarrow> int \<Rightarrow> int \<times> int" where
  "days_loop days hours = (if 24 \<le> hours then days_loop (days + 1) (hours - 24) else (days, hours))"
  by pat_completeness auto
termination
  by (relation "measure (\<lambda>(days, hours). nat hours)") auto

declare days_loop.simps [simp del]

text \<open>
  One round of the loop of \<open>ParseStringDuration\<close>: \<open>days * 24\<close> is an \<open>int\<close>
  multiplication that wraps, and \<open>%d\<close> prints its sign.
\<close>

definition day_to_hours :: "string \<Rightarrow> string \<Rightarrow> string" where
  "day_to_hours m input =
     (let days = Atoi_ignoring_range (replace_all ''d'' '''' m);
          hours = sint (word_of_int (days * 24) :: i64)
      in replace_all m (fmt_d hours @ ''h'') input)"

definition ParseStringDuration :: "string \<Rightarrow> go_error + i64" where
  "ParseStringDuration input =
     (let matches = find_digit_runs CHR ''d'' [] input;
          input' = fold day_to_hours matches input
      in case ParseDuration input' of
           Inl err \<Rightarrow> Inl (wrapf ''failed to parse string duration'' err)
         | Inr dur \<Rightarrow> Inr dur)"

definition hour_to_days :: "string \<Rightarrow> string \<Rightarrow> string" where
  "hour_to_days m out =
     (let hours = Atoi_ignoring_range (replace_all ''h'' '''' m);
          (days, hours') = days_loop 0 hours
      in replace_all m (fmt_d days @ ''d'' @ fmt_d hours' @ ''h'') out)"

definition StringDuration_String :: "i64 \<Rightarrow> string" where
  "StringDuration_String s =
     (let out = Duration_String s;
          matches = find_digit_runs CHR ''h'' [] out
      in fold hour_to_days matches out)"

definition StringDuration_MarshalJSON :: "i64 \<Rightarrow> string" where
  "StringDuration_MarshalJSON s = ''\"'' @ StringDuration_String s @ ''\"''"

definition StringDuration_MarshalText :: "i64 \<Rightarrow> string" where
  "StringDuration_MarshalText s = StringDuration_String s"

text \<open>The unmarshallers write through their receiver: the error, and the value left in it.\<close>

definition StringDuration_UnmarshalJSON ::
    "(string \<Rightarrow> go_error + string) \<Rightarrow> i64 \<Rightarrow> string \<Rightarrow> go_error option \<times> i64" where
  "StringDuration_UnmarshalJSON json_string s raw =
     (case json_string raw of
        Inl err \<Rightarrow> (Some err, s)
      | Inr str \<Rightarrow>
          case ParseStringDuration str of
            Inl err \<Rightarrow> (Some (wrapf ''failed to parse duration'' err), s)
          | Inr parsed \<Rightarrow> (None, parsed))"

definition StringDuration_UnmarshalText :: "i64 \<Rightarrow> string \<Rightarrow> go_error option \<times> i64" where
  "StringDuration_UnmarshalText s text =
     (case ParseStringDuration text of
        Inl err \<Rightarrow> (Some (wrapf ''failed to parse string duration'' err), s)
      | Inr dur \<Rightarrow> (None, dur))"

section \<open>The rewriting of days and hours\<close>

lemma days_loop_eq: "0 \<le> h \<Longrightarrow> days_loop d h = (d + h div 24, h mod 24)"
proof (induction d h rule: days_loop.induct)
  case (1 days hours)
  show ?case
  proof (cases "24 \<le> hours")
    case True
    have "(hours - 24) div 24 = hours div 24 - 1" "(hours - 24) mod 24 = hours mod 24"
      using div_add_self2 [of 24 "hours - 24"] by simp_all
    moreover have "days_loop (days + 1) (hours - 24) = (days + 1 + (hours - 24) div 24, (hours - 24) mod 24)"
      using True by (intro "1.IH") auto
    ultimately show ?thesis using True by (simp only: days_loop.simps [of days hours] if_True) simp
  next
    case False
    with "1.prems" show ?thesis by (simp add: days_loop.simps [of days hours])
  qed
qed

lemma strip_unit:
  assumes "list_all is_digit ds" "\<not> is_digit x"
  shows "replace_all [x] '''' (ds @ [x]) = ds"
proof -
  have "x \<notin> set ds" using assms by (auto simp: list_all_iff)
  then show ?thesis using replace_all_once [of x ds "[]" "[]" "[]"] by simp
qed

lemma not_digit_units [simp]: "\<not> is_digit CHR ''d''" "\<not> is_digit CHR ''h''"
  by (simp_all add: is_digit_def)

lemma Atoi_nat_digits: "int n \<le> max_i64 \<Longrightarrow> Atoi_ignoring_range (nat_digits n) = int n"
  by (simp add: Atoi_ignoring_range_def)

lemma digits_free: "\<not> is_digit x \<Longrightarrow> x \<notin> set (nat_digits n)"
  using nat_digits_all [of n] by (auto simp: list_all_iff)

lemma digits_and_unit_once:
  assumes "x \<notin> set a" "x \<notin> set b" "\<not> is_digit x"
  shows "replace_all (nat_digits n @ [x]) new (a @ nat_digits n @ x # b) = a @ new @ b"
  using assms by (intro replace_all_once) (auto simp: digits_free)

lemma day_to_hours_once:
  assumes "CHR ''d'' \<notin> set a" "CHR ''d'' \<notin> set b" "24 * int n \<le> max_i64"
  shows "day_to_hours (nat_digits n @ ''d'') (a @ nat_digits n @ CHR ''d'' # b)
    = a @ nat_digits (24 * n) @ CHR ''h'' # b"
proof -
  have "Atoi_ignoring_range (replace_all ''d'' '''' (nat_digits n @ ''d'')) = int n"
    using assms(3) strip_unit [of "nat_digits n" "CHR ''d''"]
    by (simp add: nat_digits_all Atoi_nat_digits)
  moreover have "sint (word_of_int (int n * 24) :: i64) = int n * 24"
    using assms(3) by (intro sint_of_int_i64) auto
  ultimately show ?thesis
    using assms by (simp add: day_to_hours_def digits_and_unit_once fmt_d_def nat_mult_distrib mult.commute)
qed

lemma hour_to_days_once:
  assumes "CHR ''h'' \<notin> set a" "CHR ''h'' \<notin> set b" "int n \<le> max_i64"
  shows "hour_to_days (nat_digits n @ ''h'') (a @ nat_digits n @ CHR ''h'' # b)
    = a @ nat_digits (n div 24) @ CHR ''d'' # nat_digits (n mod 24) @ CHR ''h'' # b"
proof -
  have "Atoi_ignoring_range (replace_all ''h'' '''' (nat_digits n @ ''h'')) = int n"
    using assms(3) strip_unit [of "nat_digits n" "CHR ''h''"]
    by (simp add: nat_digits_all Atoi_nat_digits)
  moreover have "nat (int n div 24) = n div 24" "nat (int n mod 24) = n mod 24"
    by (simp_all add: nat_div_distrib nat_mod_distrib)
  moreover have "\<not> int n div 24 < 0" "\<not> int n mod 24 < 0"
    by (simp_all add: not_less pos_imp_zdiv_nonneg_iff)
  ultimately show ?thesis
    using assms by (simp add: hour_to_days_def digits_and_unit_once fmt_d_def days_loop_eq)
qed

lemma find_runs_signed:
  assumes "a = [] \<or> a = ''-''" "\<not> is_digit x" "x \<noteq> CHR ''-''" "x \<notin> set b"
  shows "find_digit_runs x [] (a @ nat_digits n @ x # b) = [nat_digits n @ [x]]"
  using assms find_digit_runs_once [of "nat_digits n" x b] nat_digits_all
  by (auto simp: is_digit_def)

section \<open>Printing and parsing back\<close>

lemma plain_units [simp]:
  "plain_unit ''s''" "plain_unit ''m''" "plain_unit ''h''" "plain_unit ''ns''" "plain_unit ''ms''"
  "plain_unit [CHR 0xC2, CHR 0xB5, CHR ''s'']"
  by (simp_all add: plain_unit_def is_digit_def)

lemma parse_term_fmtFrac:
  assumes "fmtFrac v j = (frac, w)" "plain_unit u" "unitMap u = Some (10 ^ j)" "digit_start r" "j \<le> 9"
    and bound: "n * 10 ^ j + v mod 10 ^ j \<le> 2 ^ 63"
  shows "parse_term (nat_digits n @ frac @ u @ r) = Some (n * 10 ^ j + v mod 10 ^ j, r)"
proof -
  have "n * 10 ^ j \<le> 2 ^ 63" using bound by linarith
  then have n: "n \<le> 2 ^ 63 div 10 ^ j" by (simp add: less_eq_div_iff_mult_less_eq)
  also have "2 ^ 63 div 10 ^ j \<le> (2 ^ 63 :: nat)" by (rule div_le_dividend)
  finally have n': "n \<le> 2 ^ 63" .
  show ?thesis
  proof (cases rule: fmtFrac_cases [of v j])
    case none
    with assms n n' show ?thesis by (simp add: parse_term_int)
  next
    case (some ds)
    have "parse_term (nat_digits n @ (CHR ''.'' # ds) @ u @ r)
        = Some (n * 10 ^ j + digits_val ds * 10 ^ (j - length ds), r)"
      using assms n n' some by (intro parse_term_frac) auto
    with some assms(1) show ?thesis by simp
  qed
qed

lemma fmtFrac_snd: "fmtFrac v j = (frac, w) \<Longrightarrow> w = v div 10 ^ j"
  by (cases rule: fmtFrac_cases [of v j]) auto

lemma fmtFrac_chars: "fmtFrac v j = (frac, w) \<Longrightarrow> c \<in> set frac \<Longrightarrow> c = CHR ''.'' \<or> is_digit c"
  by (cases rule: fmtFrac_cases [of v j]) (auto simp: list_all_iff)

lemma parse_loop_unit:
  assumes "plain_unit u" "unitMap u = Some k" "digit_start r" "0 < k" "d + n * k \<le> 2 ^ 63"
  shows "parse_loop d (nat_digits n @ u @ r) = parse_loop (d + n * k) r"
proof (rule parse_loop_step [OF parse_term_int [OF assms(1-3)]])
  have "n * k \<le> 2 ^ 63" using assms(5) by linarith
  with assms(4) show "n \<le> 2 ^ 63 div k" by (simp add: less_eq_div_iff_mult_less_eq)
  also have "2 ^ 63 div k \<le> (2 ^ 63 :: nat)" by (rule div_le_dividend)
  finally show "n \<le> 2 ^ 63" .
qed (fact assms(5))

text \<open>The seconds of a duration \<open>u\<close> of at least a second, and what stands before them.\<close>

definition secs_text :: "nat \<Rightarrow> string" where
  "secs_text u = nat_digits (u div 10 ^ 9 mod 60) @ fst (fmtFrac u 9) @ ''s''"

definition mins_text :: "nat \<Rightarrow> string" where
  "mins_text u = nat_digits (u div 10 ^ 9 div 60 mod 60) @ ''m'' @ secs_text u"

lemma unitMap_simps [simp]:
  "unitMap ''s'' = Some 1000000000" "unitMap ''m'' = Some 60000000000"
  "unitMap ''h'' = Some 3600000000000" "unitMap ''ns'' = Some 1" "unitMap ''ms'' = Some 1000000"
  "unitMap [CHR 0xC2, CHR 0xB5, CHR ''s''] = Some 1000"
  by (simp_all add: unitMap_def)

lemma parse_secs_text:
  assumes "d + u div 10 ^ 9 mod 60 * 10 ^ 9 + u mod 10 ^ 9 \<le> 2 ^ 63"
  shows "parse_loop d (secs_text u) = Some (d + u div 10 ^ 9 mod 60 * 10 ^ 9 + u mod 10 ^ 9)"
proof -
  obtain frac w where f: "fmtFrac u 9 = (frac, w)" by fastforce
  have "parse_term (nat_digits (u div 10 ^ 9 mod 60) @ frac @ ''s'' @ [])
      = Some (u div 10 ^ 9 mod 60 * 10 ^ 9 + u mod 10 ^ 9, [])"
    using assms by (intro parse_term_fmtFrac [OF f]) auto
  with assms show ?thesis
    by (simp add: secs_text_def f parse_loop_step del: power_numeral)
qed

lemma parse_mins_text:
  assumes "d + u div 10 ^ 9 div 60 mod 60 * 60000000000 + u div 10 ^ 9 mod 60 * 10 ^ 9 + u mod 10 ^ 9 \<le> 2 ^ 63"
  shows "parse_loop d (mins_text u)
    = Some (d + u div 10 ^ 9 div 60 mod 60 * 60000000000 + u div 10 ^ 9 mod 60 * 10 ^ 9 + u mod 10 ^ 9)"
proof -
  have "digit_start (secs_text u)" by (simp add: secs_text_def)
  then have "parse_loop d (mins_text u)
      = parse_loop (d + u div 10 ^ 9 div 60 mod 60 * 60000000000) (secs_text u)"
    using assms unfolding mins_text_def by (intro parse_loop_unit) auto
  with assms show ?thesis by (simp add: parse_secs_text)
qed

definition hours_of :: "nat \<Rightarrow> nat" where
  "hours_of u = u div 10 ^ 9 div 60 div 60"

text \<open>The text with days, and what \<open>ParseStringDuration\<close> makes of it.\<close>

definition day_text :: "nat \<Rightarrow> string" where
  "day_text u =
     (if hours_of u = 0 then format_magnitude u
      else nat_digits (hours_of u div 24) @ CHR ''d'' # nat_digits (hours_of u mod 24) @ CHR ''h'' # mins_text u)"

definition hour_text :: "nat \<Rightarrow> string" where
  "hour_text u =
     (if hours_of u = 0 then format_magnitude u
      else nat_digits (24 * (hours_of u div 24)) @ CHR ''h'' # nat_digits (hours_of u mod 24) @ CHR ''h'' # mins_text u)"

lemma format_magnitude_large:
  assumes "1000000000 \<le> u"
  shows "format_magnitude u =
    (if u div 10 ^ 9 div 60 = 0 then secs_text u
     else if hours_of u = 0 then mins_text u
     else nat_digits (hours_of u) @ CHR ''h'' # mins_text u)"
proof -
  obtain frac w where f: "fmtFrac u 9 = (frac, w)" by fastforce
  with assms fmtFrac_snd [OF f] show ?thesis
    by (auto simp: format_magnitude_def secs_text_def mins_text_def hours_of_def Let_def)
qed

lemma format_magnitude_small:
  assumes "0 < u" "u < 1000000000"
  obtains n frac j unit where "format_magnitude u = nat_digits n @ frac @ unit"
    "fmtFrac u j = (frac, n)" "plain_unit unit" "unitMap unit = Some (10 ^ j)" "j \<le> 9"
    "CHR ''d'' \<notin> set unit" "CHR ''h'' \<notin> set unit"
proof -
  consider "u < 1000" | "1000 \<le> u" "u < 1000000" | "1000000 \<le> u" by linarith
  then show ?thesis
  proof cases
    case 1
    with assms that [of "snd (fmtFrac u 0)" "fst (fmtFrac u 0)" "''ns''" 0] show ?thesis
      by (auto simp: format_magnitude_def split: prod.splits)
  next
    case 2
    with assms that [of "snd (fmtFrac u 3)" "fst (fmtFrac u 3)" "[CHR 0xC2, CHR 0xB5, CHR ''s'']" 3]
    show ?thesis by (auto simp: format_magnitude_def split: prod.splits)
  next
    case 3
    with assms that [of "snd (fmtFrac u 6)" "fst (fmtFrac u 6)" "''ms''" 6] show ?thesis
      by (auto simp: format_magnitude_def split: prod.splits)
  qed
qed

lemma secs_text_chars: "c \<in> set (secs_text u) \<Longrightarrow> c = CHR ''.'' \<or> c = CHR ''s'' \<or> is_digit c"
  using nat_digits_all fmtFrac_chars [of u 9 "fst (fmtFrac u 9)" "snd (fmtFrac u 9)" c]
  by (auto simp: secs_text_def list_all_iff)

lemma mins_text_chars:
  "c \<in> set (mins_text u) \<Longrightarrow> c = CHR ''.'' \<or> c = CHR ''s'' \<or> c = CHR ''m'' \<or> is_digit c"
  using nat_digits_all secs_text_chars [of c u] by (auto simp: mins_text_def list_all_iff)

lemma mins_text_free: "CHR ''h'' \<notin> set (mins_text u)" "CHR ''d'' \<notin> set (mins_text u)"
  by (auto dest!: mins_text_chars)

lemma format_magnitude_free:
  assumes "hours_of u = 0" "\<not> is_digit c" "c = CHR ''h'' \<or> c = CHR ''d''"
  shows "c \<notin> set (format_magnitude u)"
proof -
  consider "u = 0" | "0 < u" "u < 1000000000" | "1000000000 \<le> u" by linarith
  then show ?thesis
  proof cases
    case 1
    with assms(3) show ?thesis by (auto simp: format_magnitude_def)
  next
    case 2
    then obtain n frac j unit where "format_magnitude u = nat_digits n @ frac @ unit"
      "fmtFrac u j = (frac, n)" "CHR ''d'' \<notin> set unit" "CHR ''h'' \<notin> set unit"
      by (rule format_magnitude_small)
    with assms(2,3) show ?thesis by (auto simp: digits_free dest: fmtFrac_chars)
  next
    case 3
    with assms show ?thesis
      by (auto simp: format_magnitude_large dest!: secs_text_chars mins_text_chars)
  qed
qed

lemma parse_hour_text:
  assumes "u \<le> 2 ^ 63"
  shows "parse_loop 0 (hour_text u) = Some u"
proof -
  consider "u = 0" | "0 < u" "u < 1000000000" | "1000000000 \<le> u" by linarith
  then show ?thesis
  proof cases
    case 1
    have "parse_loop 0 (nat_digits 0 @ ''s'' @ []) = Some 0"
      by (subst parse_loop_unit [where k = 1000000000]) auto
    moreover have "nat_digits 0 = ''0''"
      using digit_char_eq_0 [of 0] by (simp add: nat_digits.simps)
    ultimately show ?thesis using 1 by (simp add: hour_text_def hours_of_def format_magnitude_def)
  next
    case 2
    then obtain n frac j unit where f: "format_magnitude u = nat_digits n @ frac @ unit"
      "fmtFrac u j = (frac, n)" "plain_unit unit" "unitMap unit = Some (10 ^ j)" "j \<le> 9"
      by (rule format_magnitude_small)
    have n: "n * 10 ^ j + u mod 10 ^ j = u" using fmtFrac_snd [OF f(2)] by (simp add: div_mult_mod_eq)
    with f assms have "parse_term (nat_digits n @ frac @ unit @ []) = Some (u, [])"
      using parse_term_fmtFrac [OF f(2), of unit "[]" n] by simp
    with assms have "parse_loop 0 (format_magnitude u) = Some u"
      by (simp add: f(1) parse_loop_step)
    then show ?thesis using 2 by (simp add: hour_text_def hours_of_def)
  next
    case 3
    let ?S = "u div 10 ^ 9"
    have u: "u = ?S * 10 ^ 9 + u mod 10 ^ 9" by (rule div_mult_mod_eq [symmetric])
    have S: "?S = ?S div 60 * 60 + ?S mod 60" by (rule div_mult_mod_eq [symmetric])
    have M: "?S div 60 = hours_of u * 60 + ?S div 60 mod 60"
      unfolding hours_of_def by (rule div_mult_mod_eq [symmetric])
    have H: "hours_of u = hours_of u div 24 * 24 + hours_of u mod 24" by (rule div_mult_mod_eq [symmetric])
    have alg: "h * 3600000000000 + m * 60000000000 + sc * 10 ^ 9 + r = v"
      if "v = t * 10 ^ 9 + r" "t = k * 60 + sc" "k = h * 60 + m" for h m sc r v t k :: nat
      using that by (simp add: algebra_simps)
    note whole = alg [OF u S M]
    have secs: "?S mod 60 * 10 ^ 9 + u mod 10 ^ 9 = u" if "?S div 60 = 0"
      using whole that by (simp add: hours_of_def)
    have mins: "?S div 60 mod 60 * 60000000000 + ?S mod 60 * 10 ^ 9 + u mod 10 ^ 9 = u" if "hours_of u = 0"
      using whole by (simp only: that mult_0 add_0)
    have hrs: "24 * (hours_of u div 24) * 3600000000000 + hours_of u mod 24 * 3600000000000
        + ?S div 60 mod 60 * 60000000000 + ?S mod 60 * 10 ^ 9 + u mod 10 ^ 9 = u"
      using whole H by (metis (no_types) add_mult_distrib mult.commute)
    show ?thesis
    proof (cases "hours_of u = 0")
      case True
      with 3 assms show ?thesis
        using parse_secs_text [of 0 u] parse_mins_text [of 0 u] secs mins
        by (simp add: hour_text_def format_magnitude_large del: power_numeral)
    next
      case False
      let ?d = "24 * (hours_of u div 24) * 3600000000000"
      let ?r = "nat_digits (hours_of u mod 24) @ ''h'' @ mins_text u"
      have "digit_start (mins_text u)" by (simp add: mins_text_def)
      then have "parse_loop ?d ?r = parse_loop (?d + hours_of u mod 24 * 3600000000000) (mins_text u)"
        using assms hrs by (intro parse_loop_unit) (auto simp del: power_numeral)
      moreover have "parse_loop 0 (nat_digits (24 * (hours_of u div 24)) @ ''h'' @ ?r) = parse_loop (0 + ?d) ?r"
        using assms hrs by (intro parse_loop_unit) (auto simp del: power_numeral)
      ultimately show ?thesis
        using False assms hrs by (simp add: hour_text_def parse_mins_text del: power_numeral)
    qed
  qed
qed

text \<open>The sign and the magnitude of a 64-bit duration.\<close>

definition sign_of :: "i64 \<Rightarrow> string" where
  "sign_of d = (if sint d < 0 then ''-'' else [])"

definition magnitude :: "i64 \<Rightarrow> nat" where
  "magnitude d = (if sint d < 0 then unat (- d) else unat d)"

lemma magnitude_eq: "magnitude d = nat \<bar>sint d\<bar>"
proof -
  have d: "uint d = sint d mod 2 ^ 64" and m: "uint (- d) = (- sint d) mod 2 ^ 64"
    using uint_word_of_int [of "sint d", where 'a = 64] uint_word_of_int [of "- sint d", where 'a = 64]
    by simp_all
  have "uint (- d) = - sint d" if "sint d < 0"
    unfolding m using that sint_i64_bounds(1) [of d] by (intro mod_pos_pos_trivial) auto
  moreover have "uint d = sint d" if "\<not> sint d < 0"
    unfolding d using that sint_i64_bounds(2) [of d] by (intro mod_pos_pos_trivial) auto
  ultimately show ?thesis by (auto simp: magnitude_def unat_eq_nat_uint)
qed

lemma magnitude_le: "magnitude d \<le> 2 ^ 63"
  using sint_i64_bounds [of d] by (auto simp: magnitude_eq)

lemma magnitude_nonneg_le: "0 \<le> sint d \<Longrightarrow> magnitude d \<le> 2 ^ 63 - 1"
  using sint_i64_bounds(2) [of d] by (auto simp: magnitude_eq)

lemma magnitude_back:
  "sint d < 0 \<Longrightarrow> - word_of_nat (magnitude d) = d" "\<not> sint d < 0 \<Longrightarrow> word_of_nat (magnitude d) = d"
  by (simp_all add: magnitude_def)

lemma Duration_String_eq: "Duration_String d = sign_of d @ format_magnitude (magnitude d)"
  by (simp add: Duration_String_def sign_of_def magnitude_def)

lemma hours_of_bound: "u \<le> 2 ^ 63 \<Longrightarrow> hours_of u \<le> 2562047"
proof -
  assume "u \<le> 2 ^ 63"
  then have "u div 10 ^ 9 div 60 div 60 \<le> 2 ^ 63 div 10 ^ 9 div 60 div 60" by (intro div_le_mono)
  then show ?thesis by (simp add: hours_of_def)
qed

text \<open>The text the printer writes: the hours are split into days and hours.\<close>

lemma StringDuration_String_eq: "StringDuration_String d = sign_of d @ day_text (magnitude d)"
proof (cases "hours_of (magnitude d) = 0")
  case True
  then have "CHR ''h'' \<notin> set (Duration_String d)"
    using format_magnitude_free [OF True, of "CHR ''h''"] by (simp add: Duration_String_eq sign_of_def)
  then have "find_digit_runs CHR ''h'' [] (Duration_String d) = []" by (rule find_digit_runs_none)
  with True show ?thesis by (simp add: StringDuration_String_def Duration_String_eq day_text_def)
next
  case False
  let ?n = "hours_of (magnitude d)" and ?b = "mins_text (magnitude d)"
  have "\<not> magnitude d div 10 ^ 9 div 60 = 0" "1000000000 \<le> magnitude d"
    using False by (auto simp: hours_of_def)
  with False have t: "Duration_String d = sign_of d @ nat_digits ?n @ CHR ''h'' # ?b"
    by (simp add: Duration_String_eq format_magnitude_large)
  have "find_digit_runs CHR ''h'' [] (Duration_String d) = [nat_digits ?n @ ''h'']"
    unfolding t by (rule find_runs_signed) (auto simp: sign_of_def mins_text_free)
  moreover have "int ?n \<le> max_i64" using hours_of_bound [OF magnitude_le, of d] by simp
  ultimately show ?thesis
    using False mins_text_free
    by (simp add: StringDuration_String_def t hour_to_days_once sign_of_def day_text_def)
qed

text \<open>What the parser makes of that text before \<open>time.ParseDuration\<close> sees it.\<close>

lemma ParseStringDuration_day_text:
  assumes "a = [] \<or> a = ''-''" "u \<le> 2 ^ 63"
  shows "ParseStringDuration (a @ day_text u) =
    (case ParseDuration (a @ hour_text u) of
       Inl err \<Rightarrow> Inl (wrapf ''failed to parse string duration'' err) | Inr dur \<Rightarrow> Inr dur)"
proof (cases "hours_of u = 0")
  case True
  then have "CHR ''d'' \<notin> set (a @ format_magnitude u)"
    using assms(1) format_magnitude_free [OF True, of "CHR ''d''"] by auto
  then have "find_digit_runs CHR ''d'' [] (a @ format_magnitude u) = []" by (rule find_digit_runs_none)
  with True show ?thesis by (simp add: ParseStringDuration_def day_text_def hour_text_def)
next
  case False
  let ?b = "nat_digits (hours_of u mod 24) @ CHR ''h'' # mins_text u"
  have b: "CHR ''d'' \<notin> set ?b" by (auto simp: digits_free mins_text_free)
  have "find_digit_runs CHR ''d'' [] (a @ nat_digits (hours_of u div 24) @ CHR ''d'' # ?b)
      = [nat_digits (hours_of u div 24) @ ''d'']"
    using assms(1) b by (intro find_runs_signed) auto
  moreover have "24 * int (hours_of u div 24) \<le> max_i64" using hours_of_bound [OF assms(2)] by linarith
  ultimately show ?thesis
    using False assms(1) b day_to_hours_once [of a ?b "hours_of u div 24"]
    by (auto simp: ParseStringDuration_def day_text_def hour_text_def)
qed

lemma digits_then:
  assumes "t = nat_digits n @ r" "r \<noteq> []"
  shows "t \<noteq> [] \<and> t \<noteq> ''0'' \<and> hd t \<noteq> CHR ''-'' \<and> hd t \<noteq> CHR ''+''"
proof -
  have "is_digit (hd t)" using assms(1) is_digit_hd_nat_digits by simp
  moreover have "length t \<ge> 2"
    using assms by (cases "nat_digits n"; cases r) (auto simp: Suc_le_eq)
  ultimately show ?thesis by (auto simp: is_digit_def)
qed

lemma hour_text_start:
  "hour_text u \<noteq> [] \<and> hour_text u \<noteq> ''0'' \<and> hd (hour_text u) \<noteq> CHR ''-'' \<and> hd (hour_text u) \<noteq> CHR ''+''"
proof -
  consider "u = 0" | "0 < u" "u < 1000000000" | "1000000000 \<le> u" by linarith
  then show ?thesis
  proof cases
    case 1
    then show ?thesis by (simp add: hour_text_def hours_of_def format_magnitude_def)
  next
    case 2
    then obtain n frac unit where "format_magnitude u = nat_digits n @ frac @ unit" "plain_unit unit"
      by (rule format_magnitude_small)
    with 2 digits_then [of "format_magnitude u" n "frac @ unit"] show ?thesis
      by (auto simp: hour_text_def hours_of_def plain_unit_def)
  next
    case 3
    then show ?thesis
      using digits_then [OF secs_text_def] digits_then [OF mins_text_def]
        digits_then [of "hour_text u" "24 * (hours_of u div 24)"]
      by (auto simp: hour_text_def format_magnitude_large)
  qed
qed

lemma ParseDuration_hour_text:
  "ParseDuration (sign_of d @ hour_text (magnitude d)) = Inr d"
proof -
  obtain c cs where c: "hour_text (magnitude d) = c # cs" "c \<noteq> CHR ''-''" "c \<noteq> CHR ''+''"
    using hour_text_start [of "magnitude d"] by (cases "hour_text (magnitude d)") auto
  have l: "parse_loop 0 (c # cs) = Some (magnitude d)" "c # cs \<noteq> ''0''"
    using parse_hour_text [OF magnitude_le, of d] hour_text_start [of "magnitude d"] c(1) by auto
  show ?thesis
  proof (cases "sint d < 0")
    case True
    with c l show ?thesis by (auto simp: ParseDuration_def sign_of_def magnitude_back Let_def)
  next
    case False
    with magnitude_nonneg_le [of d] have "\<not> 2 ^ 63 - 1 < magnitude d" by simp
    with False c l show ?thesis
      by (auto simp: ParseDuration_def sign_of_def magnitude_back Let_def simp del: power_numeral)
  qed
qed

lemma ParseStringDuration_String [simp]: "ParseStringDuration (StringDuration_String d) = Inr d"
proof -
  have "sign_of d = [] \<or> sign_of d = ''-''" by (simp add: sign_of_def)
  then show ?thesis
    using ParseStringDuration_day_text [OF _ magnitude_le, of "sign_of d" d]
    by (simp add: StringDuration_String_eq ParseDuration_hour_text)
qed

section \<open>Properties\<close>

text \<open>
  Property C7. \<open>MarshalText\<close> and \<open>UnmarshalText\<close> are inverse: unmarshalling the text of
  any 64-bit duration, negative ones and the smallest one included, succeeds and stores exactly
  that duration, whatever the receiver held before.
\<close>

theorem string_duration_text_roundtrip:
  "StringDuration_UnmarshalText old (StringDuration_MarshalText d) = (None, d)"
  by (simp add: StringDuration_UnmarshalText_def StringDuration_MarshalText_def)

text \<open>
  Texts a JSON string literal holds as they are: printable ASCII without the quote and the
  backslash, and the two bytes of the micro sign.
\<close>

definition json_plain_char :: "char \<Rightarrow> bool" where
  "json_plain_char c \<longleftrightarrow> 32 \<le> (of_char c :: nat) \<and> (of_char c :: nat) < 127 \<and> c \<noteq> CHR 0x22 \<and> c \<noteq> CHR 0x5C"

fun json_plain :: "string \<Rightarrow> bool" where
  "json_plain [] = True"
| "json_plain (c # cs) =
     (if c = CHR 0xC2 then (case cs of [] \<Rightarrow> False | c' # cs' \<Rightarrow> c' = CHR 0xB5 \<and> json_plain cs')
      else json_plain_char c \<and> json_plain cs)"

lemma json_plain_append: "json_plain a \<Longrightarrow> json_plain b \<Longrightarrow> json_plain (a @ b)"
  by (induction a rule: json_plain.induct) (auto split: list.splits if_splits)

lemma json_plain_ascii: "list_all json_plain_char a \<Longrightarrow> json_plain a"
  by (induction a) (auto simp: json_plain_char_def)

lemma is_digit_plain: "is_digit c \<Longrightarrow> json_plain_char c"
  by (auto simp: is_digit_def json_plain_char_def)

lemma json_plain_digits [simp]: "json_plain (nat_digits n)"
  using nat_digits_all [of n] by (intro json_plain_ascii) (auto simp: list_all_iff is_digit_plain)

lemma json_plain_secs [simp]: "json_plain (secs_text u)"
  by (intro json_plain_ascii)
    (auto simp: list_all_iff is_digit_plain json_plain_char_def [of "CHR ''.''"]
      json_plain_char_def [of "CHR ''s''"] dest!: secs_text_chars)

lemma json_plain_mins [simp]: "json_plain (mins_text u)"
  by (intro json_plain_ascii)
    (auto simp: list_all_iff is_digit_plain json_plain_char_def [of "CHR ''.''"]
      json_plain_char_def [of "CHR ''s''"] json_plain_char_def [of "CHR ''m''"] dest!: mins_text_chars)

lemma json_plain_frac:
  assumes "fmtFrac u j = (frac, w)"
  shows "json_plain frac"
proof -
  have "json_plain_char c" if "c \<in> set frac" for c
    using fmtFrac_chars [OF assms that] by (auto simp: is_digit_plain json_plain_char_def [of "CHR ''.''"])
  then show ?thesis by (intro json_plain_ascii) (simp add: list_all_iff)
qed

lemma json_plain_number:
  "fmtFrac u j = (frac, w) \<Longrightarrow> json_plain unit \<Longrightarrow> json_plain (nat_digits n @ frac @ unit)"
  using json_plain_append [OF json_plain_digits json_plain_append [OF json_plain_frac]] by blast

lemma json_plain_units [simp]:
  "json_plain ''s''" "json_plain ''ns''" "json_plain ''ms''" "json_plain ''-''"
  "json_plain [CHR 0xC2, CHR 0xB5, CHR ''s'']"
  by (simp_all add: json_plain_char_def)

lemma json_plain_unit_Cons [simp]:
  "json_plain (CHR ''h'' # t) = json_plain t" "json_plain (CHR ''d'' # t) = json_plain t"
  "json_plain (CHR ''-'' # t) = json_plain t"
  by (simp_all add: json_plain_char_def)

lemma json_plain_format [simp]: "json_plain (format_magnitude u)"
proof -
  consider "u = 0" | "0 < u" "u < 1000000000" | "1000000000 \<le> u" by linarith
  then show ?thesis
  proof cases
    case 1
    then show ?thesis by (simp add: format_magnitude_def json_plain_char_def)
  next
    case 2
    then show ?thesis
      by (auto simp: format_magnitude_def Let_def simp del: json_plain.simps split: prod.splits
          intro: json_plain_number)
  next
    case 3
    then show ?thesis
      by (auto simp: format_magnitude_large simp del: json_plain.simps intro!: json_plain_append)
  qed
qed

lemma json_plain_String: "json_plain (StringDuration_String d)"
  by (auto simp: StringDuration_String_eq sign_of_def day_text_def simp del: json_plain.simps
      intro!: json_plain_append)

text \<open>
  \<open>MarshalJSON\<close> and \<open>UnmarshalJSON\<close> are inverse on every duration, for any
  \<open>json.Unmarshal\<close> into a string that reads a quoted text without escapes as that text.
\<close>

theorem string_duration_json_roundtrip:
  assumes "\<forall>p. json_plain p \<longrightarrow> json_string (CHR 0x22 # p @ [CHR 0x22]) = Inr p"
  shows "StringDuration_UnmarshalJSON json_string old (StringDuration_MarshalJSON d) = (None, d)"
  using assms by (simp add: StringDuration_UnmarshalJSON_def StringDuration_MarshalJSON_def json_plain_String)

theorem string_duration_json_roundtrip_witness:
  "StringDuration_UnmarshalJSON (\<lambda>raw. Inr (butlast (tl raw))) 7 (StringDuration_MarshalJSON 90000000000000)
    = (None, 90000000000000)"
  by (rule string_duration_json_roundtrip) simp

lemma find_digit_runs_skip:
  "x \<notin> set a \<Longrightarrow> a \<noteq> [] \<Longrightarrow> \<not> is_digit (last a) \<Longrightarrow> find_digit_runs x acc (a @ s) = find_digit_runs x [] s"
proof (induction a arbitrary: acc)
  case (Cons c a)
  then show ?case by (cases a) auto
qed simp

lemma ParseStringDuration_no_days:
  assumes "CHR ''d'' \<notin> set t"
  shows "ParseStringDuration t =
    (case ParseDuration t of Inl err \<Rightarrow> Inl (wrapf ''failed to parse string duration'' err) | Inr dur \<Rightarrow> Inr dur)"
  using assms by (simp add: ParseStringDuration_def find_digit_runs_none)

text \<open>
  A text with one day term means what it says: \<open>Nd\<close> is read as \<open>24*N\<close>
  hours wherever it stands after a non-digit, and the rest of the text is left to
  \<open>time.ParseDuration\<close>.
\<close>

theorem single_day_term:
  assumes "CHR ''d'' \<notin> set a" "CHR ''d'' \<notin> set b" "a = [] \<or> \<not> is_digit (last a)"
    and "24 * n \<le> 9223372036854775807"
  shows "ParseStringDuration (a @ nat_digits n @ ''d'' @ b) =
    ParseStringDuration (a @ nat_digits (24 * n) @ ''h'' @ b)"
proof -
  have "find_digit_runs CHR ''d'' [] (a @ nat_digits n @ CHR ''d'' # b) = [nat_digits n @ ''d'']"
    using assms find_digit_runs_once [of "nat_digits n" "CHR ''d''" b] nat_digits_all
    by (cases "a = []") (auto simp: find_digit_runs_skip)
  moreover have "CHR ''d'' \<notin> set (a @ nat_digits (24 * n) @ ''h'' @ b)"
    using assms by (simp add: digits_free)
  ultimately show ?thesis
    using assms by (simp add: ParseStringDuration_no_days)
      (simp add: ParseStringDuration_def day_to_hours_once)
qed

theorem single_day_term_witness:
  "ParseStringDuration (''-'' @ nat_digits 2 @ ''d'' @ ''4h'') = ParseStringDuration (''-'' @ nat_digits 48 @ ''h'' @ ''4h'')"
  using single_day_term [of "''-''" "''4h''" 2] by (simp add: is_digit_def)

text \<open>Evaluation of closed texts made of hours.\<close>

lemma ParseDuration_hours:
  assumes "parse_loop 0 t = Some n" "t = nat_digits k @ r" "r \<noteq> []" "n \<le> 2 ^ 63 - 1"
  shows "ParseDuration t = Inr (word_of_nat n)" "ParseDuration (CHR ''-'' # t) = Inr (- word_of_nat n)"
proof -
  have t: "t \<noteq> []" "t \<noteq> ''0''" "hd t \<noteq> CHR ''-''" "hd t \<noteq> CHR ''+''" using digits_then [OF assms(2,3)] by auto
  then obtain c cs where "t = c # cs" by (cases t) auto
  with t assms(1,4) show "ParseDuration t = Inr (word_of_nat n)" "ParseDuration (CHR ''-'' # t) = Inr (- word_of_nat n)"
    by (auto simp: ParseDuration_def Let_def)
qed

lemma ParseStringDuration_two_hours:
  assumes "(a + b) * 3600000000000 \<le> 2 ^ 63 - 1"
  shows "ParseStringDuration (nat_digits a @ ''h'' @ nat_digits b @ ''h'') = Inr (word_of_nat ((a + b) * 3600000000000))"
proof -
  have "parse_loop (a * 3600000000000) (nat_digits b @ ''h'' @ []) = Some ((a + b) * 3600000000000)"
    using assms by (subst parse_loop_unit [where k = 3600000000000]) auto
  moreover have "parse_loop 0 (nat_digits a @ ''h'' @ nat_digits b @ ''h'') = parse_loop (0 + a * 3600000000000) (nat_digits b @ ''h'')"
    using assms by (intro parse_loop_unit) auto
  ultimately show ?thesis
    using assms ParseDuration_hours(1) [of "nat_digits a @ ''h'' @ nat_digits b @ ''h''" "(a + b) * 3600000000000" a]
    by (simp add: ParseStringDuration_no_days digits_free)
qed

lemma ParseDuration_minus_day: "ParseDuration ''-24h'' = Inr (- 86400000000000)"
proof -
  have "parse_loop 0 (nat_digits 24 @ ''h'' @ []) = Some 86400000000000"
    by (subst parse_loop_unit [where k = 3600000000000]) auto
  then have "ParseDuration (CHR ''-'' # nat_digits 24 @ ''h'') = Inr (- word_of_nat 86400000000000)"
    by (intro ParseDuration_hours(2)) auto
  then show ?thesis by (simp add: nat_digits.simps digit_chars)
qed

lemmas eval_days = day_to_hours_def Atoi_ignoring_range_def digits_val_def digit_val_def fmt_d_def
  nat_digits.simps digit_chars is_digit_def

text \<open>
  Day terms are not independent: they are replaced with \<open>strings.ReplaceAll\<close> one
  after the other, so a term that is a suffix of a later one is also replaced inside it.
  \<open>1d11d\<close> is read as \<open>24h124h\<close>, 148 hours, while the same two terms in the other order
  give the 288 hours they stand for.
\<close>

theorem day_terms_overlap:
  "ParseStringDuration ''1d11d'' = Inr (148 * 3600000000000)
   \<and> ParseStringDuration ''11d1d'' = Inr (288 * 3600000000000)"
proof
  have "ParseStringDuration ''1d11d'' = ParseStringDuration (nat_digits 24 @ ''h'' @ nat_digits 124 @ ''h'')"
    by (simp add: ParseStringDuration_no_days digits_free) (simp add: ParseStringDuration_def eval_days)
  then show "ParseStringDuration ''1d11d'' = Inr (148 * 3600000000000)"
    using ParseStringDuration_two_hours [of 24 124] by simp
  have "ParseStringDuration ''11d1d'' = ParseStringDuration (nat_digits 264 @ ''h'' @ nat_digits 24 @ ''h'')"
    by (simp add: ParseStringDuration_no_days digits_free) (simp add: ParseStringDuration_def eval_days)
  then show "ParseStringDuration ''11d1d'' = Inr (288 * 3600000000000)"
    using ParseStringDuration_two_hours [of 264 24] by simp
qed

text \<open>
  The error of \<open>strconv.Atoi\<close> is ignored and the multiplication wraps: every day
  count from \<open>2^63 - 1\<close> on is accepted and read as minus one day.
\<close>

theorem day_count_overflow:
  assumes "9223372036854775807 \<le> n"
  shows "ParseStringDuration (nat_digits n @ ''d'') = Inr (- 86400000000000)"
proof -
  have "Atoi_ignoring_range (replace_all ''d'' [] (nat_digits n @ ''d'')) = max_i64"
    using assms strip_unit [of "nat_digits n" "CHR ''d''"]
    by (simp add: nat_digits_all Atoi_ignoring_range_def)
  moreover have "sint (word_of_int (max_i64 * 24) :: i64) = -24" by simp
  moreover have "fmt_d (- 24) = ''-24''" by (simp add: eval_days)
  moreover have "replace_all (nat_digits n @ ''d'') ''-24h'' ([] @ nat_digits n @ CHR ''d'' # []) = [] @ ''-24h'' @ []"
    by (rule digits_and_unit_once) auto
  moreover have "find_digit_runs CHR ''d'' [] (nat_digits n @ CHR ''d'' # []) = [nat_digits n @ ''d'']"
    using find_digit_runs_once [of "nat_digits n" "CHR ''d''" "[]"] nat_digits_all by simp
  ultimately show ?thesis by (simp add: ParseStringDuration_def day_to_hours_def ParseDuration_minus_day)
qed

theorem day_count_overflow_witness:
  "ParseStringDuration (nat_digits 10000000000000000000 @ ''d'') = Inr (- 86400000000000)"
  by (rule day_count_overflow) simp

end
