(* ===== verification/Crypto_Keys.thy ===== *)
theory Crypto_Keys
  imports Go_Text
begin

text \<open>
  \<open>crypto/\<close>: AES keys in their textual form, the encryptor (\<open>encryption.go\<close>), tokens and hashes
  (\<open>token.go\<close>, \<open>hashing.go\<close>). Random bytes are arguments; the AEAD, SHA-256 and bcrypt are
  parameters. Base64, \<open>strconv.Atoi\<close> and the key sizes of AES are the standard library's.
\<close>

section \<open>Base64\<close>

definition b64_char :: "nat \<Rightarrow> char" where
  "b64_char n =
     (if n < 26 then char_of (65 + n) else if n < 52 then char_of (71 + n) else if n < 62 then char_of (n - 4)
      else if n = 62 then CHR ''+'' else CHR ''/'')"

definition b64_val :: "char \<Rightarrow> nat option" where
  "b64_val c =
     (let k = (of_char c :: nat)
      in if 65 \<le> k \<and> k \<le> 90 then Some (k - 65) else if 97 \<le> k \<and> k \<le> 122 then Some (k - 71)
         else if 48 \<le> k \<and> k \<le> 57 then Some (k + 4) else if k = 43 then Some 62 else if k = 47 then Some 63 else None)"

fun b64_encode :: "u8 list \<Rightarrow> string" where
  "b64_encode [] = []"
| "b64_encode [a] = (let x = unat a in [b64_char (x div 4), b64_char (x mod 4 * 16), CHR ''='', CHR ''=''])"
| "b64_encode [a, b] =
     (let x = unat a; y = unat b
      in [b64_char (x div 4), b64_char (x mod 4 * 16 + y div 16), b64_char (y mod 16 * 4), CHR ''=''])"
| "b64_encode (a # b # c # bs) =
     (let x = unat a; y = unat b; z = unat c
      in [b64_char (x div 4), b64_char (x mod 4 * 16 + y div 16), b64_char (y mod 16 * 4 + z div 64), b64_char (z mod 64)]) @
     b64_encode bs"

text \<open>\<open>Decode\<close>: the bytes written before an error and whether there was one; line breaks are skipped
  beforehand. Padding ends the text, and leftover bits are ignored.\<close>

fun b64_quads :: "string \<Rightarrow> u8 list \<times> bool" where
  "b64_quads [] = ([], True)"
| "b64_quads [_] = ([], False)"
| "b64_quads [_, _] = ([], False)"
| "b64_quads [_, _, _] = ([], False)"
| "b64_quads (p # q # r # s # cs) =
     (case (b64_val p, b64_val q) of
        (Some x, Some y) \<Rightarrow>
          (if r = CHR ''='' then
             (if s = CHR ''='' then ([word_of_nat (x * 4 + y div 16)], cs = []) else ([], False))
           else case b64_val r of
             None \<Rightarrow> ([], False)
           | Some z \<Rightarrow>
               (if s = CHR ''='' then ([word_of_nat (x * 4 + y div 16), word_of_nat (y mod 16 * 16 + z div 4)], cs = [])
                else case b64_val s of
                  None \<Rightarrow> ([], False)
                | Some w \<Rightarrow>
                    (case b64_quads cs of
                       (bs, ok) \<Rightarrow> (word_of_nat (x * 4 + y div 16) # word_of_nat (y mod 16 * 16 + z div 4) #
                                    word_of_nat (z mod 4 * 64 + w) # bs, ok))))
      | _ \<Rightarrow> ([], False))"

definition b64_decode :: "string \<Rightarrow> u8 list \<times> bool" where
  "b64_decode s = b64_quads (filter (\<lambda>c. c \<noteq> CHR 0x0A \<and> c \<noteq> CHR 0x0D) s)"

section \<open>strconv.Atoi\<close>

definition Atoi_digits :: "bool \<Rightarrow> string \<Rightarrow> go_error + int" where
  "Atoi_digits neg ds =
     (if ds = [] \<or> \<not> list_all is_digit ds then Inl (EOther ''invalid syntax'')
      else let n = int (digits_val ds); k = (if neg then - n else n)
           in if - (2 ^ 63) \<le> k \<and> k < 2 ^ 63 then Inr k else Inl (EOther ''value out of range''))"

definition Atoi :: "string \<Rightarrow> go_error + int" where
  "Atoi s =
     (case s of
        [] \<Rightarrow> Atoi_digits False []
      | c # cs \<Rightarrow> if c = CHR ''-'' then Atoi_digits True cs else if c = CHR ''+'' then Atoi_digits False cs
                  else Atoi_digits False s)"

section \<open>Keys\<close>

text \<open>\<open>key\<close> stands for the \<open>bits/8\<close> random bytes, \<open>rand_err\<close> for the error of \<open>rand.Read\<close>; the string is
  returned beside that error.\<close>

definition GenerateAesKey :: "int \<Rightarrow> u8 list \<Rightarrow> go_error option \<Rightarrow> string \<times> go_error option" where
  "GenerateAesKey bits key rand_err =
     (if bits mod 8 \<noteq> 0 \<or> bits > 32 * 8 \<or> bits \<le> 16 then ('''', Some (EOther ''invalid key length''))
      else (''base64:'' @ nat_digits (nat (bits div 8)) @ '':'' @ b64_encode key, rand_err))"

text \<open>\<open>make([]byte, size)\<close> panics for a size the runtime cannot allocate.\<close>

definition max_alloc :: int where "max_alloc = 2 ^ 48"

text \<open>\<open>parseKey\<close>: \<open>Decode\<close> writes into the buffer of the announced size, and panics when the decoded
  bytes do not fit; what it does not write stays zero.\<close>

definition parseKey :: "string \<Rightarrow> (go_error + u8 list) outcome" where
  "parseKey key =
     (case split_on (CHR '':'') key of
        [p, sz, data] \<Rightarrow>
          (case Atoi sz of
             Inl err \<Rightarrow> Ret (Inl (wrapf ''failed to parse key size'' err))
           | Inr size' \<Rightarrow>
               if size' < 0 \<or> size' > max_alloc then Panic ''makeslice: len out of range''
               else (case b64_decode data of
                       (bs, ok) \<Rightarrow>
                         if length bs > nat size' then Panic ''index out of range''
                         else if \<not> ok then Ret (Inl (EOther ''illegal base64 data''))
                         else Ret (Inr (bs @ replicate (nat size' - length bs) 0))))
      | _ \<Rightarrow> Ret (Inl (EOther ''invalid key format'')))"

definition aes_key_ok :: "u8 list \<Rightarrow> bool" where
  "aes_key_ok k \<longleftrightarrow> length k \<in> {16, 24, 32}"

text \<open>The encryptor is the key of its block cipher; GCM with the standard nonce cannot fail on it.\<close>

definition NewEncryptor :: "string \<Rightarrow> (go_error + u8 list) outcome" where
  "NewEncryptor secret =
     (case parseKey secret of
        Panic m \<Rightarrow> Panic m
      | Ret (Inl err) \<Rightarrow> Ret (Inl (wrapf ''failed to parse secret'' err))
      | Ret (Inr key) \<Rightarrow>
          if aes_key_ok key then Ret (Inr key)
          else Ret (Inl (wrapf ''failed to init aes block'' (EOther (''crypto/aes: invalid key size '' @ nat_digits (length key))))))"

section \<open>Encryption\<close>

record aead =
  NonceSize :: nat
  Seal :: "u8 list \<Rightarrow> u8 list \<Rightarrow> u8 list"
  Open :: "u8 list \<Rightarrow> u8 list \<Rightarrow> go_error + u8 list"

definition Encrypt :: "aead \<Rightarrow> u8 list \<Rightarrow> go_error option \<Rightarrow> u8 list \<Rightarrow> go_error + u8 list" where
  "Encrypt gcm nonce rand_err p =
     (case rand_err of Some err \<Rightarrow> Inl err | None \<Rightarrow> Inr (nonce @ Seal gcm nonce p))"

definition Decrypt :: "aead \<Rightarrow> u8 list \<Rightarrow> (go_error + u8 list) outcome" where
  "Decrypt gcm c =
     (if length c < NonceSize gcm then Panic ''slice bounds out of range''
      else Ret (Open gcm (take (NonceSize gcm) c) (drop (NonceSize gcm) c)))"

section \<open>Hashes and tokens\<close>

definition HashPassword :: "(string \<Rightarrow> nat \<Rightarrow> go_error + string) \<Rightarrow> string \<Rightarrow> string \<times> go_error option" where
  "HashPassword bcrypt password = (case bcrypt password 13 of Inl err \<Rightarrow> ('''', Some err) | Inr pw \<Rightarrow> (pw, None))"

definition VerifyPassword :: "(string \<Rightarrow> string \<Rightarrow> go_error option) \<Rightarrow> string \<Rightarrow> string \<Rightarrow> go_error option" where
  "VerifyPassword compare password hash = compare hash password"

definition Sum :: "(string \<Rightarrow> u8 list) \<Rightarrow> string \<Rightarrow> string" where
  "Sum sha256 input = hex_encode (sha256 input)"

definition Token :: "(string \<Rightarrow> u8 list) \<Rightarrow> u8 list \<Rightarrow> go_error option \<Rightarrow> go_error + string \<times> string" where
  "Token sha256 out rand_err =
     (case rand_err of
        Some err \<Rightarrow> Inl (wrapf ''generate random token bytes'' err)
      | None \<Rightarrow> let token = hex_encode out in Inr (token, Sum sha256 token))"

section \<open>Lemmas\<close>

lemma b64_val_char [simp]: "n < 64 \<Longrightarrow> b64_val (b64_char n) = Some n"
  by (auto simp: b64_char_def b64_val_def Let_def)

lemma b64_val_plain: "b64_val (CHR ''='') = None" "b64_val (CHR '':'') = None" "b64_val (CHR 0x0A) = None" "b64_val (CHR 0x0D) = None"
  by (simp_all add: b64_val_def Let_def)

lemma b64_char_plain:
  "n < 64 \<Longrightarrow> b64_char n \<noteq> CHR ''='' \<and> b64_char n \<noteq> CHR '':'' \<and> b64_char n \<noteq> CHR 0x0A \<and> b64_char n \<noteq> CHR 0x0D"
  by (metis b64_val_char b64_val_plain option.distinct(1))

lemma b64_char_neq [simp]:
  "n < 64 \<Longrightarrow> b64_char n \<noteq> CHR '':''" "n < 64 \<Longrightarrow> b64_char n \<noteq> CHR 0x0A" "n < 64 \<Longrightarrow> b64_char n \<noteq> CHR 0x0D"
  using b64_char_plain by blast+

lemma unat_u8 [simp]: "unat (a :: u8) < 256" "unat (a :: u8) div 4 < 64" "unat (a :: u8) div 16 < 16" "unat (a :: u8) div 64 < 4"
  using unsigned_less [of a] by (auto simp: div_less_iff_less_mult)

lemma b64_bounds [simp]:
  fixes a b c :: u8
  shows "unat a mod 4 * 16 < 64" "unat a mod 4 * 16 + unat b div 16 < 64" "unat b mod 16 * 4 < 64"
    "unat b mod 16 * 4 + unat c div 64 < 64" "unat c mod 64 < 64"
  using unat_u8(3) [of b] unat_u8(4) [of c] mod_less_divisor [of 4 "unat a"] mod_less_divisor [of 16 "unat b"]
  by linarith+

lemma b64_quads_encode: "b64_quads (b64_encode bs) = (bs, True)"
proof (induction bs rule: b64_encode.induct)
  case (3 a b)
  have "(unat a mod 4 * 16 + unat b div 16) div 16 = unat a mod 4"
    "(unat a mod 4 * 16 + unat b div 16) mod 16 = unat b div 16" by simp_all
  then show ?case using b64_char_plain [of "unat b mod 16 * 4"] by (simp add: Let_def)
next
  case (4 a b c bs)
  have "(unat a mod 4 * 16 + unat b div 16) div 16 = unat a mod 4"
    "(unat a mod 4 * 16 + unat b div 16) mod 16 = unat b div 16"
    "(unat b mod 16 * 4 + unat c div 64) div 4 = unat b mod 16"
    "(unat b mod 16 * 4 + unat c div 64) mod 4 = unat c div 64" by simp_all
  then show ?case
    using b64_char_plain [of "unat b mod 16 * 4 + unat c div 64"] b64_char_plain [of "unat c mod 64"] "4.IH" by (simp add: Let_def)
qed (simp_all add: Let_def)

lemma b64_encode_plain: "x \<in> set (b64_encode bs) \<Longrightarrow> x \<noteq> CHR '':'' \<and> x \<noteq> CHR 0x0A \<and> x \<noteq> CHR 0x0D"
  by (induction bs rule: b64_encode.induct) (auto simp: Let_def)

lemma b64_decode_encode: "b64_decode (b64_encode bs) = (bs, True)"
proof -
  have "filter (\<lambda>c. c \<noteq> CHR 0x0A \<and> c \<noteq> CHR 0x0D) (b64_encode bs) = b64_encode bs"
    by (rule filter_True) (use b64_encode_plain in blast)
  then show ?thesis by (simp add: b64_decode_def b64_quads_encode)
qed

lemma Atoi_of_nat_digits:
  assumes "int n < 2 ^ 63"
  shows "Atoi (nat_digits n) = Inr (int n)"
proof -
  have all: "list_all is_digit (nat_digits n)" by (rule nat_digits_all)
  obtain c cs where c: "nat_digits n = c # cs" by (cases "nat_digits n") (simp_all add: nat_digits_nonempty)
  then have "is_digit c" using all by simp
  then have "c \<noteq> CHR ''-''" "c \<noteq> CHR ''+''" by (auto simp: is_digit_def)
  then have "Atoi (nat_digits n) = Atoi_digits False (nat_digits n)" by (simp add: Atoi_def c)
  then show ?thesis using all assms by (simp add: Atoi_digits_def)
qed

lemma parse_formatted:
  assumes "n \<le> 32" "length key \<le> n"
  shows "parseKey (''base64:'' @ nat_digits n @ '':'' @ b64_encode key) = Ret (Inr (key @ replicate (n - length key) 0))"
proof -
  have c: "CHR '':'' \<notin> set ''base64''" "CHR '':'' \<notin> set (nat_digits n)" "CHR '':'' \<notin> set (b64_encode key)"
    using nat_digits_all [of n] b64_encode_plain by (auto simp: list_all_iff is_digit_def)
  have "split_on (CHR '':'') (''base64'' @ CHR '':'' # nat_digits n @ CHR '':'' # b64_encode key) =
      [''base64'', nat_digits n, b64_encode key]"
    unfolding split_on_append [OF c(1)] split_on_append [OF c(2)] split_on_none [OF c(3)] by (rule refl)
  moreover have "''base64'' @ CHR '':'' # nat_digits n @ CHR '':'' # b64_encode key = ''base64:'' @ nat_digits n @ '':'' @ b64_encode key"
    by simp
  moreover have "Atoi (nat_digits n) = Inr (int n)" using assms(1) by (intro Atoi_of_nat_digits) simp
  ultimately show ?thesis using assms by (simp add: parseKey_def b64_decode_encode max_alloc_def)
qed

section \<open>Properties\<close>

text \<open>A generated key of 128, 192 or 256 bits is accepted by the encryptor and gives back
  exactly its random bytes.\<close>

theorem generated_key_roundtrip:
  assumes "bits \<in> {128, 192, 256}" "length key = nat (bits div 8)"
  shows "\<exists>s. GenerateAesKey bits key None = (s, None) \<and> NewEncryptor s = Ret (Inr key)"
proof -
  have b: "nat (bits div 8) \<in> {16, 24, 32}" using assms(1) by auto
  then have "parseKey (''base64:'' @ nat_digits (nat (bits div 8)) @ '':'' @ b64_encode key) = Ret (Inr (key @ replicate (nat (bits div 8) - length key) 0))"
    using assms(2) by (intro parse_formatted) auto
  then show ?thesis using assms b by (auto simp: GenerateAesKey_def NewEncryptor_def aes_key_ok_def)
qed

lemma generated_key_roundtrip_witness:
  "\<exists>s. GenerateAesKey 128 (replicate 16 7) None = (s, None) \<and> NewEncryptor s = Ret (Inr (replicate 16 7))"
  by (rule generated_key_roundtrip) simp_all

text \<open>The generator accepts every multiple of 8 from 24 to 256 bits, but a key of any other
  size than 128, 192 or 256 bits is refused by the encryptor.\<close>

theorem generated_key_refused:
  assumes "bits mod 8 = 0" "16 < bits" "bits \<le> 256" "bits \<notin> {128, 192, 256}" "length key = nat (bits div 8)"
  shows "\<exists>s err. GenerateAesKey bits key None = (s, None) \<and> NewEncryptor s = Ret (Inl err)"
proof -
  have n: "nat (bits div 8) \<le> 32" using assms(3) by simp
  have "bits div 8 \<notin> {16, 24, 32}" using assms(1,4) by auto
  then have "\<not> aes_key_ok key" using assms(2,5) by (auto simp: aes_key_ok_def nat_eq_iff)
  moreover have "parseKey (''base64:'' @ nat_digits (nat (bits div 8)) @ '':'' @ b64_encode key) = Ret (Inr key)"
    using parse_formatted [OF n, of key] assms(5) by simp
  ultimately show ?thesis using assms by (auto simp: GenerateAesKey_def NewEncryptor_def)
qed

lemma generated_key_refused_witness:
  "\<exists>s err. GenerateAesKey 64 (replicate 8 7) None = (s, None) \<and> NewEncryptor s = Ret (Inl err)"
  by (rule generated_key_refused) simp_all

text \<open>The announced size of a key is never compared with its data: a secret whose data is
  shorter is padded with zero bytes and accepted, down to no data at all, which is the key of zeros.\<close>

theorem short_key_padded:
  assumes "n \<in> {16, 24, 32}" "length key \<le> n"
  shows "NewEncryptor (''base64:'' @ nat_digits n @ '':'' @ b64_encode key) = Ret (Inr (key @ replicate (n - length key) 0))"
proof -
  have "n \<le> 32" using assms(1) by auto
  then show ?thesis using assms parse_formatted [OF _ assms(2)] by (auto simp: NewEncryptor_def aes_key_ok_def)
qed

lemma short_key_padded_witness:
  "NewEncryptor (''base64:'' @ nat_digits 32 @ '':'' @ b64_encode []) = Ret (Inr (replicate 32 0))"
  by (subst short_key_padded) simp_all

text \<open>Property C30. What was encrypted is decrypted with the same cipher, whatever the nonce drawn; a text
  shorter than a nonce makes \<open>Decrypt\<close> panic instead of failing.\<close>

theorem encrypt_decrypt:
  assumes "\<And>n p. length n = NonceSize gcm \<Longrightarrow> Open gcm n (Seal gcm n p) = Inr p"
  shows "(length nonce = NonceSize gcm \<longrightarrow> (\<exists>c. Encrypt gcm nonce None p = Inr c \<and> Decrypt gcm c = Ret (Inr p))) \<and>
    (length c < NonceSize gcm \<longrightarrow> Decrypt gcm c = Panic ''slice bounds out of range'')"
  using assms by (auto simp: Encrypt_def Decrypt_def)

definition xor_aead :: aead where
  "xor_aead = \<lparr>NonceSize = 12, Seal = (\<lambda>n p. map (\<lambda>b. xor b 0x55) p), Open = (\<lambda>n c. Inr (map (\<lambda>b. xor b 0x55) c))\<rparr>"

lemma encrypt_decrypt_witness:
  "\<exists>c. Encrypt xor_aead (replicate 12 1) None [1, 2, 3] = Inr c \<and> Decrypt xor_aead c = Ret (Inr [1, 2, 3])"
  using encrypt_decrypt [of xor_aead "replicate 12 1" "[1, 2, 3]" "[]"]
  by (simp add: xor_aead_def xor.assoc comp_def)

end
