(* ===== verification/Idempotency.thy ===== *)
theory Idempotency
  imports Uuid
begin

text \<open>
  \<open>http/middleware/idempotent.go\<close> and \<open>idempotent_store.go\<close>: the middleware that runs a request
  once per key and replays its recorded response, and its Redis store. A response writer follows
  \<open>net/http\<close>: the first write fixes the status 200 unless a status was written before. The handler is
  the list of calls it makes on its writer. JSON, the parser of keys and Redis are parameters. The
  locale \<open>idempotency_store\<close> is the contract of the interface; the Redis store interprets it.
\<close>

section \<open>Response writers\<close>

text \<open>Header maps have their keys in canonical form, as \<open>http.Header.Add\<close> puts them.\<close>

type_synonym http_headers = "(string \<times> string list) list"

definition header_get :: "http_headers \<Rightarrow> string \<Rightarrow> string list" where
  "header_get hs k = (case map_of hs k of Some vs \<Rightarrow> vs | None \<Rightarrow> [])"

fun header_add :: "string \<Rightarrow> string \<Rightarrow> http_headers \<Rightarrow> http_headers" where
  "header_add k v [] = [(k, [v])]"
| "header_add k v ((k', vs) # hs) = (if k = k' then (k', vs @ [v]) # hs else (k', vs) # header_add k v hs)"

text \<open>The loop over a header map that adds every value.\<close>

definition header_add_all :: "http_headers \<Rightarrow> http_headers \<Rightarrow> http_headers" where
  "header_add_all from_hs hs = fold (\<lambda>(k, vs) acc. fold (header_add k) vs acc) from_hs hs"

record writer =
  w_headers :: http_headers
  w_status :: "nat option"
  w_body :: string

definition w_WriteHeader :: "nat \<Rightarrow> writer \<Rightarrow> writer" where
  "w_WriteHeader code w = (if w_status w \<noteq> None then w else w\<lparr>w_status := Some code\<rparr>)"

definition w_Write :: "string \<Rightarrow> writer \<Rightarrow> writer" where
  "w_Write data w = (let w' = w_WriteHeader 200 w in w'\<lparr>w_body := w_body w' @ data\<rparr>)"

section \<open>The recorder\<close>

record recorded =
  Code :: nat
  Body :: string
  Headers :: http_headers

record recorder =
  rec_writer :: writer
  rec :: recorded

definition recorder_WriteHeader :: "nat \<Rightarrow> recorder \<Rightarrow> recorder" where
  "recorder_WriteHeader code r =
     (let w = (rec_writer r)\<lparr>w_headers := header_add_all (Headers (rec r)) (w_headers (rec_writer r))\<rparr>
      in r\<lparr>rec := (rec r)\<lparr>Code := code\<rparr>, rec_writer := w_WriteHeader code w\<rparr>)"

definition recorder_Write :: "string \<Rightarrow> recorder \<Rightarrow> recorder" where
  "recorder_Write data r = r\<lparr>rec := (rec r)\<lparr>Body := data\<rparr>, rec_writer := w_Write data (rec_writer r)\<rparr>"

text \<open>A call on the writer. \<open>Header()\<close> is the recorder's own map, so that setting a header changes
  only that.\<close>

datatype writer_call = AddHeader string string | WriteHeader nat | WriteBody string

fun recorder_call :: "writer_call \<Rightarrow> recorder \<Rightarrow> recorder" where
  "recorder_call (AddHeader k v) r = r\<lparr>rec := (rec r)\<lparr>Headers := header_add k v (Headers (rec r))\<rparr>\<rparr>"
| "recorder_call (WriteHeader code) r = recorder_WriteHeader code r"
| "recorder_call (WriteBody data) r = recorder_Write data r"

definition new_recorder :: "writer \<Rightarrow> recorder" where
  "new_recorder w = \<lparr>rec_writer = w, rec = \<lparr>Code = 0, Body = '''', Headers = []\<rparr>\<rparr>"

definition run_calls :: "writer_call list \<Rightarrow> writer \<Rightarrow> recorder" where
  "run_calls calls w = fold recorder_call calls (new_recorder w)"

text \<open>The replay of a recorded response: its headers, its body, then its status. \<open>replay_response\<close> has
  the errors: the response does not unwrap to echo's, or the connection fails after some bytes.\<close>

definition with_headers :: "recorded \<Rightarrow> writer \<Rightarrow> writer" where
  "with_headers resp w = w\<lparr>w_headers := header_add_all (Headers resp) (w_headers w)\<rparr>"

definition replay :: "recorded \<Rightarrow> writer \<Rightarrow> writer" where
  "replay resp w = w_WriteHeader (Code resp) (w_Write (Body resp) (with_headers resp w))"

record transport =
  unwrap_err :: "go_error option"
  write_err :: "(nat \<times> go_error) option"

definition replay_response :: "transport \<Rightarrow> recorded \<Rightarrow> writer \<Rightarrow> go_error option \<times> writer" where
  "replay_response tr resp w =
     (case unwrap_err tr of
        Some err \<Rightarrow> (Some (wrapf ''unwrap response'' err), with_headers resp w)
      | None \<Rightarrow>
          (case write_err tr of
             Some (n, err) \<Rightarrow> (Some (wrapf ''write cached body to response'' err), w_Write (take n (Body resp)) (with_headers resp w))
           | None \<Rightarrow> (None, replay resp w)))"

section \<open>The interface of the store\<close>

record ('s) idem_store =
  st_Get :: "uuid \<Rightarrow> 's \<Rightarrow> (go_error + string) \<times> 's"
  st_Store :: "uuid \<Rightarrow> i64 \<Rightarrow> string \<Rightarrow> 's \<Rightarrow> go_error option \<times> 's"
  st_Lock :: "uuid \<Rightarrow> i64 \<Rightarrow> 's \<Rightarrow> go_error option \<times> 's"
  st_Unlock :: "uuid \<Rightarrow> 's \<Rightarrow> go_error option \<times> 's"

record idem_opts =
  SkipMissingKeys :: "bool option"
  TTL :: i64
  LockTTL :: i64

definition setIdempotentOptsDefaults :: "idem_opts \<Rightarrow> idem_opts" where
  "setIdempotentOptsDefaults opts =
     (let o1 = (if TTL opts = 0 then opts\<lparr>TTL := 86400000000000\<rparr> else opts);
          o2 = (if LockTTL o1 = 0 then o1\<lparr>LockTTL := 60000000000\<rparr> else o1)
      in if SkipMissingKeys o2 = None then o2\<lparr>SkipMissingKeys := Some True\<rparr> else o2)"

section \<open>The middleware\<close>

text \<open>What happens to a request: the error returned by the middleware, the writer, whether the handler
  ran. The handler is its calls and its error.\<close>

record 's idem_result =
  ir_err :: "go_error option"
  ir_writer :: writer
  ir_ran :: bool
  ir_state :: 's

text \<open>What follows the look-up when nothing is recorded: the handler runs on a recorder, and its
  response is stored.\<close>

definition idem_handle ::
    "'s idem_store \<Rightarrow> (recorded \<Rightarrow> go_error + string) \<Rightarrow> idem_opts \<Rightarrow> transport \<Rightarrow>
     (writer_call list \<times> go_error option) \<Rightarrow> uuid \<Rightarrow> writer \<Rightarrow> 's \<Rightarrow> 's idem_result" where
  "idem_handle st marshal opts tr nxt key w s =
     (case unwrap_err tr of
        Some err \<Rightarrow> \<lparr>ir_err = Some (wrapf ''unwrap response'' err), ir_writer = w, ir_ran = False, ir_state = s\<rparr>
      | None \<Rightarrow>
          let r = run_calls (fst nxt) w;
              ran = (\<lambda>e s'. \<lparr>ir_err = e, ir_writer = rec_writer r, ir_ran = True, ir_state = s'\<rparr>)
          in case snd nxt of
               Some err \<Rightarrow> ran (Some err) s
             | None \<Rightarrow>
                 (case marshal (rec r) of
                    Inl err \<Rightarrow> ran (Some (wrapf ''marshal recorded response'' err)) s
                  | Inr by \<Rightarrow>
                      (case st_Store st key (TTL opts) by s of
                         (Some err, s') \<Rightarrow> ran (Some (wrapf ''store idempotency key value'' err)) s'
                       | (None, s') \<Rightarrow> ran None s')))"

text \<open>A request that holds the lock; its release is deferred, and its error dropped.\<close>

definition idem_locked ::
    "'s idem_store \<Rightarrow> (recorded \<Rightarrow> go_error + string) \<Rightarrow> (string \<Rightarrow> go_error + recorded) \<Rightarrow> idem_opts \<Rightarrow> transport \<Rightarrow>
     (writer_call list \<times> go_error option) \<Rightarrow> uuid \<Rightarrow> writer \<Rightarrow> 's \<Rightarrow> 's idem_result" where
  "idem_locked st marshal unmarshal opts tr nxt key w s =
     (let res =
        (case st_Get st key s of
           (Inl err, s1) \<Rightarrow>
             if \<not> errors_Is err ErrIdempotentMissing
             then \<lparr>ir_err = Some (wrapf ''get idempotency key value'' err), ir_writer = w, ir_ran = False, ir_state = s1\<rparr>
             else idem_handle st marshal opts tr nxt key w s1
         | (Inr resp, s1) \<Rightarrow>
             (case unmarshal resp of
                Inl err \<Rightarrow> \<lparr>ir_err = Some (wrapf ''unmarshal cached response'' err), ir_writer = w, ir_ran = False, ir_state = s1\<rparr>
              | Inr recorded \<Rightarrow>
                  (case replay_response tr recorded w of
                     (err, w') \<Rightarrow> \<lparr>ir_err = err, ir_writer = w', ir_ran = False, ir_state = s1\<rparr>)))
      in res\<lparr>ir_state := snd (st_Unlock st key (ir_state res))\<rparr>)"

text \<open>\<open>plain\<close> applies the calls of the handler to the request's own writer, when no key is given.\<close>

fun plain_call :: "writer_call \<Rightarrow> writer \<Rightarrow> writer" where
  "plain_call (AddHeader k v) w = w\<lparr>w_headers := header_add k v (w_headers w)\<rparr>"
| "plain_call (WriteHeader code) w = w_WriteHeader code w"
| "plain_call (WriteBody data) w = w_Write data w"

definition Idempotent ::
    "'s idem_store \<Rightarrow> uuid_parser \<Rightarrow> (recorded \<Rightarrow> go_error + string) \<Rightarrow> (string \<Rightarrow> go_error + recorded) \<Rightarrow> idem_opts \<Rightarrow> transport \<Rightarrow>
     (writer_call list \<times> go_error option) \<Rightarrow> string \<Rightarrow> writer \<Rightarrow> 's \<Rightarrow> 's idem_result" where
  "Idempotent st parse marshal unmarshal opts0 tr nxt keyRaw w s =
     (let opts = setIdempotentOptsDefaults opts0 in
      if keyRaw = '''' then
        (if SkipMissingKeys opts = Some True
         then \<lparr>ir_err = snd nxt, ir_writer = fold plain_call (fst nxt) w, ir_ran = True, ir_state = s\<rparr>
         else \<lparr>ir_err = Some (EValidation [(''idempotency_key'', ''missing key'')]), ir_writer = w, ir_ran = False, ir_state = s\<rparr>)
      else case Parse parse keyRaw of
        Inl err \<Rightarrow> \<lparr>ir_err = Some (EValidation [(''idempotency_key'', ''invalid uuid'')]), ir_writer = w, ir_ran = False, ir_state = s\<rparr>
      | Inr key \<Rightarrow>
          (case st_Lock st key (LockTTL opts) s of
             (Some err, s1) \<Rightarrow>
               if errors_Is err ErrIdempotentLocked
               then \<lparr>ir_err = None, ir_writer = w_WriteHeader 423 w, ir_ran = False, ir_state = s1\<rparr>
               else \<lparr>ir_err = Some (wrapf ''lock idempotency key'' err), ir_writer = w, ir_ran = False, ir_state = s1\<rparr>
           | (None, s1) \<Rightarrow> idem_locked st marshal unmarshal opts tr nxt key w s1))"

section \<open>The Redis store\<close>

text \<open>Replies of a Redis command: nil, a value, an error, or a value of another type, which \<open>AsBytes\<close>
  refuses with an error.\<close>

datatype redis_reply = RNil | RValue string | ROther go_error | RError go_error

record 's redis =
  redis_SetNxEx :: "string \<Rightarrow> string \<Rightarrow> i64 \<Rightarrow> 's \<Rightarrow> redis_reply \<times> 's"
  redis_Del :: "string \<Rightarrow> 's \<Rightarrow> redis_reply \<times> 's"
  redis_Get :: "string \<Rightarrow> 's \<Rightarrow> redis_reply \<times> 's"

definition lock_key :: "uuid \<Rightarrow> string" where
  "lock_key key = UUID_String key @ '':lock''"

definition Rueidis_Lock :: "'s redis \<Rightarrow> uuid \<Rightarrow> i64 \<Rightarrow> 's \<Rightarrow> go_error option \<times> 's" where
  "Rueidis_Lock c key ttl s =
     (case redis_SetNxEx c (lock_key key) ''1'' ttl s of
        (RNil, s') \<Rightarrow> (Some (ESentinel ErrIdempotentLocked), s')
      | (RError err, s') \<Rightarrow> (Some (wrapf ''setnx key'' err), s')
      | (_, s') \<Rightarrow> (None, s'))"

definition Rueidis_Unlock :: "'s redis \<Rightarrow> uuid \<Rightarrow> 's \<Rightarrow> go_error option \<times> 's" where
  "Rueidis_Unlock c key s =
     (case redis_Del c (lock_key key) s of
        (RError err, s') \<Rightarrow> (Some (wrapf ''del key'' err), s')
      | (RNil, s') \<Rightarrow> (Some (wrapf ''del key'' (EOther ''redis nil message'')), s')
      | (_, s') \<Rightarrow> (None, s'))"

definition Rueidis_Get :: "'s redis \<Rightarrow> uuid \<Rightarrow> 's \<Rightarrow> (go_error + string) \<times> 's" where
  "Rueidis_Get c key s =
     (case redis_Get c (UUID_String key) s of
        (RNil, s') \<Rightarrow> (Inl (ESentinel ErrIdempotentMissing), s')
      | (RError err, s') \<Rightarrow> (Inl (wrapf ''get key'' err), s')
      | (ROther err, s') \<Rightarrow> (Inl (wrapf ''get result as bytes'' err), s')
      | (RValue v, s') \<Rightarrow> (Inr v, s'))"

definition Rueidis_Store :: "'s redis \<Rightarrow> uuid \<Rightarrow> i64 \<Rightarrow> string \<Rightarrow> 's \<Rightarrow> go_error option \<times> 's" where
  "Rueidis_Store c key ttl resp s =
     (case redis_SetNxEx c (UUID_String key) resp ttl s of
        (RNil, s') \<Rightarrow> (None, s')
      | (RError err, s') \<Rightarrow> (Some (wrapf ''store result'' err), s')
      | (_, s') \<Rightarrow> (None, s'))"

definition rueidis_store :: "'s redis \<Rightarrow> 's idem_store" where
  "rueidis_store c = \<lparr>st_Get = Rueidis_Get c, st_Store = Rueidis_Store c, st_Lock = Rueidis_Lock c, st_Unlock = Rueidis_Unlock c\<rparr>"

section \<open>The contract of the store\<close>

locale idempotency_store =
  fixes st :: "'s idem_store" and locked :: "'s \<Rightarrow> uuid \<Rightarrow> bool" and cached :: "'s \<Rightarrow> uuid \<Rightarrow> string option"
  assumes lock_ok: "is_uuid k \<Longrightarrow> fst (st_Lock st k t s) = None \<Longrightarrow> \<not> locked s k \<and> locked (snd (st_Lock st k t s)) k"
    and lock_keeps: "is_uuid k \<Longrightarrow> is_uuid j \<Longrightarrow> locked s j \<Longrightarrow> locked (snd (st_Lock st k t s)) j"
    and lock_cached: "is_uuid k \<Longrightarrow> is_uuid j \<Longrightarrow> cached (snd (st_Lock st k t s)) j = cached s j"
    and get_some: "is_uuid k \<Longrightarrow> fst (st_Get st k s) = Inr v \<Longrightarrow> cached s k = Some v"
    and get_missing: "is_uuid k \<Longrightarrow> fst (st_Get st k s) = Inl e \<Longrightarrow> errors_Is e ErrIdempotentMissing \<Longrightarrow> cached s k = None"
    and get_frame: "is_uuid k \<Longrightarrow> is_uuid j \<Longrightarrow> locked (snd (st_Get st k s)) j = locked s j"
      "is_uuid k \<Longrightarrow> is_uuid j \<Longrightarrow> cached (snd (st_Get st k s)) j = cached s j"
    and store_first: "is_uuid k \<Longrightarrow> cached s k \<noteq> None \<Longrightarrow> cached (snd (st_Store st k t v s)) k = cached s k"
    and store_ok: "is_uuid k \<Longrightarrow> cached s k = None \<Longrightarrow> fst (st_Store st k t v s) = None \<Longrightarrow>
      cached (snd (st_Store st k t v s)) k = Some v"
    and store_frame: "is_uuid k \<Longrightarrow> is_uuid j \<Longrightarrow> locked (snd (st_Store st k t v s)) j = locked s j"
      "is_uuid k \<Longrightarrow> is_uuid j \<Longrightarrow> j \<noteq> k \<Longrightarrow> cached (snd (st_Store st k t v s)) j = cached s j"
    and unlock_frame: "is_uuid k \<Longrightarrow> is_uuid j \<Longrightarrow> j \<noteq> k \<Longrightarrow> locked (snd (st_Unlock st k s)) j = locked s j"
      "is_uuid k \<Longrightarrow> is_uuid j \<Longrightarrow> cached (snd (st_Unlock st k s)) j = cached s j"

section \<open>The Redis store keeps the contract\<close>

text \<open>The documented replies of the commands, on a view of the keys; a command that reports an error
  may or may not have been executed, and its error is none of the middleware's own.\<close>

locale redis_laws =
  fixes c :: "'s redis" and view :: "'s \<Rightarrow> string \<Rightarrow> string option"
  assumes setnx: "case redis_SetNxEx c k v t s of
      (RNil, s') \<Rightarrow> view s k \<noteq> None \<and> view s' = view s
    | (RValue x, s') \<Rightarrow> view s k = None \<and> view s' = (view s)(k \<mapsto> v)
    | (ROther e, s') \<Rightarrow> False
    | (RError e, s') \<Rightarrow> view s' = view s \<or> view s k = None \<and> view s' = (view s)(k \<mapsto> v)"
    and del: "view (snd (redis_Del c k s)) \<in> {view s, (view s)(k := None)}"
    and get: "case redis_Get c k s of
      (RNil, s') \<Rightarrow> view s k = None \<and> view s' = view s
    | (RValue x, s') \<Rightarrow> view s k = Some x \<and> view s' = view s
    | (ROther e, s') \<Rightarrow> view s k \<noteq> None \<and> view s' = view s \<and> \<not> errors_Is e ErrIdempotentMissing
    | (RError e, s') \<Rightarrow> view s' = view s \<and> \<not> errors_Is e ErrIdempotentMissing"

lemma UUID_String_inject: "is_uuid u \<Longrightarrow> is_uuid v \<Longrightarrow> UUID_String u = UUID_String v \<longleftrightarrow> u = v"
  using canonical_parse_reads by (metis Inr_inject reads_canonical_def)

lemma UUID_String_length: "is_uuid u \<Longrightarrow> length (UUID_String u) = 36"
  by (simp add: UUID_String_def is_uuid_def)

lemma lock_key_neq: "is_uuid u \<Longrightarrow> is_uuid v \<Longrightarrow> lock_key u \<noteq> UUID_String v"
proof
  assume "is_uuid u" "is_uuid v" "lock_key u = UUID_String v"
  then have "length (lock_key u) = length (UUID_String v)" by simp
  then show False using \<open>is_uuid u\<close> \<open>is_uuid v\<close> by (simp add: lock_key_def UUID_String_length)
qed

lemma lock_key_inject: "is_uuid u \<Longrightarrow> is_uuid v \<Longrightarrow> lock_key u = lock_key v \<longleftrightarrow> u = v"
  by (simp add: lock_key_def UUID_String_inject)

definition redis_locked :: "('s \<Rightarrow> string \<Rightarrow> string option) \<Rightarrow> 's \<Rightarrow> uuid \<Rightarrow> bool" where
  "redis_locked view s k \<longleftrightarrow> view s (lock_key k) \<noteq> None"

definition redis_cached :: "('s \<Rightarrow> string \<Rightarrow> string option) \<Rightarrow> 's \<Rightarrow> uuid \<Rightarrow> string option" where
  "redis_cached view s k = view s (UUID_String k)"

context redis_laws
begin

lemma lock_view:
  "view (snd (Rueidis_Lock c k t s)) \<in> {view s, (view s)(lock_key k \<mapsto> ''1'')}"
  "fst (Rueidis_Lock c k t s) = None \<Longrightarrow> view s (lock_key k) = None \<and> view (snd (Rueidis_Lock c k t s)) = (view s)(lock_key k \<mapsto> ''1'')"
  using setnx [where k = "lock_key k" and v = "''1''" and t = t and s = s] by (auto simp: Rueidis_Lock_def split: prod.splits redis_reply.splits)

lemma store_view:
  "view s (UUID_String k) \<noteq> None \<Longrightarrow> view (snd (Rueidis_Store c k t v s)) = view s"
  "view (snd (Rueidis_Store c k t v s)) \<in> {view s, (view s)(UUID_String k \<mapsto> v)}"
  "fst (Rueidis_Store c k t v s) = None \<Longrightarrow> view s (UUID_String k) = None \<Longrightarrow>
     view (snd (Rueidis_Store c k t v s)) = (view s)(UUID_String k \<mapsto> v)"
  using setnx [where k = "UUID_String k" and v = v and t = t and s = s] by (auto simp: Rueidis_Store_def split: prod.splits redis_reply.splits)

lemma unlock_view: "view (snd (Rueidis_Unlock c k s)) \<in> {view s, (view s)(lock_key k := None)}"
  using del [where k = "lock_key k" and s = s] by (auto simp: Rueidis_Unlock_def split: prod.splits redis_reply.splits)

lemma get_view:
  "view (snd (Rueidis_Get c k s)) = view s" "fst (Rueidis_Get c k s) = Inr v \<Longrightarrow> view s (UUID_String k) = Some v"
  "fst (Rueidis_Get c k s) = Inl e \<Longrightarrow> errors_Is e ErrIdempotentMissing \<Longrightarrow> view s (UUID_String k) = None"
  using get [where k = "UUID_String k" and s = s] by (auto simp: Rueidis_Get_def split: prod.splits redis_reply.splits)

lemma rueidis_contract: "idempotency_store (rueidis_store c) (redis_locked view) (redis_cached view)"
proof unfold_locales
  fix k j :: uuid and t s v e
  assume k: "is_uuid k"
  show "fst (st_Lock (rueidis_store c) k t s) = None \<Longrightarrow>
      \<not> redis_locked view s k \<and> redis_locked view (snd (st_Lock (rueidis_store c) k t s)) k"
    using lock_view(2) [where k = k and t = t and s = s] by (simp add: rueidis_store_def redis_locked_def)
  show "fst (st_Get (rueidis_store c) k s) = Inr v \<Longrightarrow> redis_cached view s k = Some v"
    "fst (st_Get (rueidis_store c) k s) = Inl e \<Longrightarrow> errors_Is e ErrIdempotentMissing \<Longrightarrow> redis_cached view s k = None"
    using get_view [where k = k and s = s] by (auto simp: rueidis_store_def redis_cached_def)
  show "redis_cached view s k \<noteq> None \<Longrightarrow> redis_cached view (snd (st_Store (rueidis_store c) k t v s)) k = redis_cached view s k"
    "redis_cached view s k = None \<Longrightarrow> fst (st_Store (rueidis_store c) k t v s) = None \<Longrightarrow>
      redis_cached view (snd (st_Store (rueidis_store c) k t v s)) k = Some v"
    using store_view [where k = k and t = t and s = s and v = v] by (auto simp: rueidis_store_def redis_cached_def)
  assume j: "is_uuid j"
  note keys = lock_key_neq [OF k j] lock_key_neq [OF j k] lock_key_inject [OF j k] UUID_String_inject [OF j k]
  show "redis_locked view s j \<Longrightarrow> redis_locked view (snd (st_Lock (rueidis_store c) k t s)) j"
    "redis_cached view (snd (st_Lock (rueidis_store c) k t s)) j = redis_cached view s j"
    using lock_view(1) [where k = k and t = t and s = s] keys by (auto simp: rueidis_store_def redis_locked_def redis_cached_def)
  show "redis_locked view (snd (st_Get (rueidis_store c) k s)) j = redis_locked view s j"
    "redis_cached view (snd (st_Get (rueidis_store c) k s)) j = redis_cached view s j"
    using get_view(1) [where k = k and s = s] by (simp_all add: rueidis_store_def redis_locked_def redis_cached_def)
  show "redis_locked view (snd (st_Store (rueidis_store c) k t v s)) j = redis_locked view s j"
    "j \<noteq> k \<Longrightarrow> redis_cached view (snd (st_Store (rueidis_store c) k t v s)) j = redis_cached view s j"
    using store_view(2) [where k = k and t = t and s = s and v = v] keys by (auto simp: rueidis_store_def redis_locked_def redis_cached_def)
  show "j \<noteq> k \<Longrightarrow> redis_locked view (snd (st_Unlock (rueidis_store c) k s)) j = redis_locked view s j"
    "redis_cached view (snd (st_Unlock (rueidis_store c) k s)) j = redis_cached view s j"
    using unlock_view [where k = k and s = s] keys by (auto simp: rueidis_store_def redis_locked_def redis_cached_def)
qed

end

sublocale redis_laws \<subseteq> rueidis: idempotency_store "rueidis_store c" "redis_locked view" "redis_cached view"
  by (rule rueidis_contract)

text \<open>A Redis of one map: the instance the laws are discharged on.\<close>

definition map_redis :: "(string \<Rightarrow> string option) redis" where
  "map_redis =
     \<lparr>redis_SetNxEx = (\<lambda>k v t m. if m k \<noteq> None then (RNil, m) else (RValue ''OK'', m(k \<mapsto> v))),
      redis_Del = (\<lambda>k m. (RValue (if m k = None then ''0'' else ''1''), m(k := None))),
      redis_Get = (\<lambda>k m. case m k of None \<Rightarrow> (RNil, m) | Some v \<Rightarrow> (RValue v, m))\<rparr>"

interpretation map_redis: redis_laws map_redis "\<lambda>m. m"
  by unfold_locales (auto simp: map_redis_def split: option.split)

section \<open>Requests interleaved\<close>

text \<open>A request that holds its key's lock is about to look its response up, runs the handler, or is
  about to unlock. Keys do not expire: the lock's time to live exceeds a handler's run.\<close>

datatype idem_phase = PGet | PRun | PUnlock

record 's idem_run =
  ist :: 's
  active :: "(uuid \<times> idem_phase) list"
  recorded_runs :: "uuid list"

inductive idem_reach for st cached where
  idem_init: "(\<And>k. is_uuid k \<Longrightarrow> cached s k = None) \<Longrightarrow> idem_reach st cached \<lparr>ist = s, active = [], recorded_runs = []\<rparr>"
| idem_lock: "idem_reach st cached r \<Longrightarrow> is_uuid k \<Longrightarrow> st_Lock st k t (ist r) = (res, s') \<Longrightarrow>
    idem_reach st cached (r\<lparr>ist := s', active := active r @ (if res = None then [(k, PGet)] else [])\<rparr>)"
| idem_get: "idem_reach st cached r \<Longrightarrow> active r = xs @ (k, PGet) # ys \<Longrightarrow> st_Get st k (ist r) = (res, s') \<Longrightarrow>
    p = (case res of Inl e \<Rightarrow> if errors_Is e ErrIdempotentMissing then PRun else PUnlock | Inr v \<Rightarrow> PUnlock) \<Longrightarrow>
    idem_reach st cached (r\<lparr>ist := s', active := xs @ (k, p) # ys\<rparr>)"
| idem_fail: "idem_reach st cached r \<Longrightarrow> active r = xs @ (k, PRun) # ys \<Longrightarrow>
    idem_reach st cached (r\<lparr>active := xs @ (k, PUnlock) # ys\<rparr>)"
| idem_store: "idem_reach st cached r \<Longrightarrow> active r = xs @ (k, PRun) # ys \<Longrightarrow> st_Store st k t v (ist r) = (res, s') \<Longrightarrow>
    idem_reach st cached (r\<lparr>ist := s', active := xs @ (k, PUnlock) # ys,
      recorded_runs := recorded_runs r @ (if res = None then [k] else [])\<rparr>)"
| idem_unlock: "idem_reach st cached r \<Longrightarrow> active r = xs @ (k, PUnlock) # ys \<Longrightarrow> st_Unlock st k (ist r) = (res, s') \<Longrightarrow>
    idem_reach st cached (r\<lparr>ist := s', active := xs @ ys\<rparr>)"

text \<open>A request past the lock takes the machine's steps: it looks up, runs or not, and unlocks; the run
  is recorded when it returned no error.\<close>

definition next_phase :: "go_error + string \<Rightarrow> idem_phase" where
  "next_phase g = (case g of Inl e \<Rightarrow> if errors_Is e ErrIdempotentMissing then PRun else PUnlock | Inr v \<Rightarrow> PUnlock)"

lemma idem_locked_cases:
  assumes "st_Get st k s = (g, s1)" "res = idem_locked st marshal unmarshal opts tr nxt k w s"
  obtains (unlock) "ir_state res = snd (st_Unlock st k s1)" "\<not> (ir_ran res \<and> ir_err res = None)"
  | (store) v e s2 where "next_phase g = PRun" "st_Store st k (TTL opts) v s1 = (e, s2)"
      "ir_state res = snd (st_Unlock st k s2)" "ir_ran res \<and> ir_err res = None \<longleftrightarrow> e = None"
proof (cases "\<exists>v e s2. next_phase g = PRun \<and> st_Store st k (TTL opts) v s1 = (e, s2) \<and>
    ir_state res = snd (st_Unlock st k s2) \<and> (ir_ran res \<and> ir_err res = None \<longleftrightarrow> e = None)")
  case True
  then show thesis using store by blast
next
  case False
  have "ir_state res = snd (st_Unlock st k s1) \<and> \<not> (ir_ran res \<and> ir_err res = None)"
  proof (cases "\<exists>e. g = Inl e \<and> errors_Is e ErrIdempotentMissing")
    case True
    then obtain e where e: "g = Inl e" "errors_Is e ErrIdempotentMissing" by blast
    let ?h = "idem_handle st marshal opts tr nxt k w s1"
    have res: "res = ?h\<lparr>ir_state := snd (st_Unlock st k (ir_state ?h))\<rparr>"
      using assms e by (simp add: idem_locked_def Let_def)
    consider "ir_state ?h = s1" "\<not> (ir_ran ?h \<and> ir_err ?h = None)"
      | v e' s2 where "st_Store st k (TTL opts) v s1 = (e', s2)" "ir_state ?h = s2" "ir_ran ?h \<and> ir_err ?h = None \<longleftrightarrow> e' = None"
    proof (cases "unwrap_err tr = None \<and> snd nxt = None \<and> (\<exists>by. marshal (rec (run_calls (fst nxt) w)) = Inr by)")
      case True
      then obtain bs where bs: "marshal (rec (run_calls (fst nxt) w)) = Inr bs" by blast
      obtain e' s2 where "st_Store st k (TTL opts) bs s1 = (e', s2)" by fastforce
      with True bs that(2) show thesis by (cases e') (auto simp: idem_handle_def Let_def)
    next
      case False
      then show thesis using that(1) by (auto simp: idem_handle_def Let_def split: option.splits sum.splits)
    qed
    then show ?thesis
    proof cases
      case 2
      have "next_phase g = PRun" using e by (simp add: next_phase_def)
      then show ?thesis using False 2 res by auto
    qed (simp add: res)
  next
    case False
    then show ?thesis using assms
      by (cases g) (auto simp: idem_locked_def replay_response_def Let_def split: sum.splits option.splits prod.splits)
  qed
  then show thesis using unlock by blast
qed

lemma idem_locked_steps:
  assumes r: "idem_reach st cached r" and a: "active r = xs @ (k, PGet) # ys"
  shows "let res = idem_locked st marshal unmarshal opts tr nxt k w (ist r) in
    idem_reach st cached (r\<lparr>ist := ir_state res, active := xs @ ys,
      recorded_runs := recorded_runs r @ (if ir_ran res \<and> ir_err res = None then [k] else [])\<rparr>)"
proof -
  obtain g s1 where g: "st_Get st k (ist r) = (g, s1)" by force
  define r1 where "r1 = r\<lparr>ist := s1, active := xs @ (k, next_phase g) # ys\<rparr>"
  have r1: "idem_reach st cached r1" using idem_get [OF r a g refl] by (simp add: r1_def next_phase_def)
  have unlock: "idem_reach st cached (q\<lparr>ist := snd (st_Unlock st k (ist q)), active := xs @ ys\<rparr>)"
    if "idem_reach st cached q" "active q = xs @ (k, PUnlock) # ys" for q
    using idem_unlock [OF that] by (metis prod.collapse)
  show ?thesis
  proof (cases rule: idem_locked_cases [OF g refl, where marshal = marshal and unmarshal = unmarshal and opts = opts and tr = tr and nxt = nxt and w = w])
    case 1
    obtain q where q: "idem_reach st cached q" "q = r\<lparr>ist := s1, active := xs @ (k, PUnlock) # ys\<rparr>"
      using r1 idem_fail [OF r1] by (cases "next_phase g") (auto simp: r1_def next_phase_def split: sum.splits if_splits)
    then show ?thesis using unlock [OF q(1)] 1 by (auto simp: Let_def)
  next
    case (2 v e s2)
    have "idem_reach st cached (r1\<lparr>ist := s2, active := xs @ (k, PUnlock) # ys,
        recorded_runs := recorded_runs r1 @ (if e = None then [k] else [])\<rparr>)"
      by (rule idem_store [OF r1]) (use 2 in \<open>simp_all add: r1_def\<close>)
    from unlock [OF this] show ?thesis using 2 by (cases r, cases e) (auto simp: Let_def r1_def)
  qed
qed

definition idem_inv :: "('s \<Rightarrow> uuid \<Rightarrow> bool) \<Rightarrow> ('s \<Rightarrow> uuid \<Rightarrow> string option) \<Rightarrow> 's idem_run \<Rightarrow> bool" where
  "idem_inv locked cached r \<longleftrightarrow>
     distinct (map fst (active r)) \<and>
     list_all (\<lambda>(k, p). is_uuid k \<and> locked (ist r) k \<and> (p = PRun \<longrightarrow> cached (ist r) k = None)) (active r) \<and>
     distinct (recorded_runs r) \<and> list_all (\<lambda>k. is_uuid k \<and> cached (ist r) k \<noteq> None) (recorded_runs r)"

context idempotency_store
begin

abbreviation holds :: "'s \<Rightarrow> uuid \<times> idem_phase \<Rightarrow> bool" where
  "holds s \<equiv> (\<lambda>(k, p). is_uuid k \<and> locked s k \<and> (p = PRun \<longrightarrow> cached s k = None))"

lemma holds_mono:
  assumes "list_all (holds s) xs"
    "\<And>k p. (k, p) \<in> set xs \<Longrightarrow> is_uuid k \<Longrightarrow> locked s k \<Longrightarrow> locked s' k \<and> (p = PRun \<longrightarrow> cached s' k = cached s k)"
  shows "list_all (holds s') xs"
  using assms by (fastforce simp: list_all_iff)

lemma idem_reach_inv: "idem_reach st cached r \<Longrightarrow> idem_inv locked cached r"
proof (induction rule: idem_reach.induct)
  case (idem_init s)
  then show ?case by (simp add: idem_inv_def)
next
  case (idem_lock r k t res s')
  have s': "s' = snd (st_Lock st k t (ist r))" and res: "res = fst (st_Lock st k t (ist r))"
    using idem_lock.hyps(3) by simp_all
  have act: "list_all (holds (ist r)) (active r)" using idem_lock.IH by (simp add: idem_inv_def)
  have "list_all (holds s') (active r)"
    by (rule holds_mono [OF act]) (use idem_lock.hyps(2) lock_keeps lock_cached s' in blast)
  moreover have "list_all (\<lambda>j. is_uuid j \<and> cached s' j \<noteq> None) (recorded_runs r)"
    using idem_lock.IH lock_cached [OF idem_lock.hyps(2)] by (auto simp: idem_inv_def list_all_iff s')
  moreover have "k \<notin> fst ` set (active r) \<and> locked s' k" if "res = None"
  proof -
    have "\<not> locked (ist r) k" "locked s' k" using lock_ok [OF idem_lock.hyps(2)] that res s' by auto
    then show ?thesis using act by (auto simp: list_all_iff)
  qed
  ultimately show ?case using idem_lock.IH idem_lock.hyps(2) by (cases res) (auto simp: idem_inv_def)
next
  case (idem_get r xs k ys res s' p)
  have k: "is_uuid k" using idem_get.IH idem_get.hyps(2) by (simp add: idem_inv_def)
  have s': "s' = snd (st_Get st k (ist r))" and res: "res = fst (st_Get st k (ist r))"
    using idem_get.hyps(3) by simp_all
  have act: "list_all (holds (ist r)) (xs @ (k, PGet) # ys)" using idem_get.IH idem_get.hyps(2) by (simp add: idem_inv_def)
  have "list_all (holds s') (xs @ (k, PGet) # ys)"
    by (rule holds_mono [OF act]) (use get_frame [OF k] s' in auto)
  moreover have "p = PRun \<Longrightarrow> cached s' k = None"
    using idem_get.hyps(4) get_missing [OF k] get_frame(2) [OF k k] res s' by (auto split: sum.splits if_splits)
  moreover have "list_all (\<lambda>j. is_uuid j \<and> cached s' j \<noteq> None) (recorded_runs r)"
    using idem_get.IH get_frame(2) [OF k] by (auto simp: idem_inv_def list_all_iff s')
  ultimately show ?case using idem_get.IH idem_get.hyps(2) by (simp add: idem_inv_def)
next
  case (idem_fail r xs k ys)
  then show ?case by (simp add: idem_inv_def)
next
  case (idem_store r xs k ys t v res s')
  have d: "distinct (map fst (xs @ (k, PRun) # ys))" and k: "is_uuid k" and none: "cached (ist r) k = None"
    and l: "locked (ist r) k"
    using idem_store.IH idem_store.hyps(2) by (simp_all add: idem_inv_def)
  have s': "s' = snd (st_Store st k t v (ist r))" and res: "res = fst (st_Store st k t v (ist r))"
    using idem_store.hyps(3) by simp_all
  have act: "list_all (holds (ist r)) (xs @ ys)" using idem_store.IH idem_store.hyps(2) by (simp add: idem_inv_def)
  have "list_all (holds s') (xs @ ys)"
  proof (rule holds_mono [OF act])
    fix j p assume "(j, p) \<in> set (xs @ ys)" "is_uuid j" "locked (ist r) j"
    moreover from this have "j \<noteq> k" using d by (auto simp: image_iff)
    ultimately show "locked s' j \<and> (p = PRun \<longrightarrow> cached s' j = cached (ist r) j)" using store_frame [OF k] s' by simp
  qed
  moreover have "locked s' k" using store_frame(1) [OF k k] l s' by simp
  moreover have "k \<notin> set (recorded_runs r)" using idem_store.IH none by (auto simp: idem_inv_def list_all_iff)
  moreover have "list_all (\<lambda>j. is_uuid j \<and> cached s' j \<noteq> None) (recorded_runs r)"
    unfolding list_all_iff
  proof
    fix j assume "j \<in> set (recorded_runs r)"
    then have "is_uuid j" "cached (ist r) j \<noteq> None" "j \<noteq> k"
      using idem_store.IH \<open>k \<notin> set (recorded_runs r)\<close> by (auto simp: idem_inv_def list_all_iff)
    then show "is_uuid j \<and> cached s' j \<noteq> None" using store_frame(2) [OF k] by (simp add: s')
  qed
  moreover have "res = None \<Longrightarrow> cached s' k \<noteq> None" using store_ok [OF k none] res s' by simp
  ultimately show ?case using idem_store.IH idem_store.hyps(2) k by (cases res) (auto simp: idem_inv_def)
next
  case (idem_unlock r xs k ys res s')
  have d: "distinct (map fst (xs @ (k, PUnlock) # ys))" and k: "is_uuid k"
    using idem_unlock.IH idem_unlock.hyps(2) by (simp_all add: idem_inv_def)
  have s': "s' = snd (st_Unlock st k (ist r))" using idem_unlock.hyps(3) by simp
  have act: "list_all (holds (ist r)) (xs @ ys)" using idem_unlock.IH idem_unlock.hyps(2) by (simp add: idem_inv_def)
  have "list_all (holds s') (xs @ ys)"
  proof (rule holds_mono [OF act])
    fix j p assume "(j, p) \<in> set (xs @ ys)" "is_uuid j" "locked (ist r) j"
    moreover from this have "j \<noteq> k" using d by (auto simp: image_iff)
    ultimately show "locked s' j \<and> (p = PRun \<longrightarrow> cached s' j = cached (ist r) j)" using unlock_frame [OF k] s' by simp
  qed
  moreover have "list_all (\<lambda>j. is_uuid j \<and> cached s' j \<noteq> None) (recorded_runs r)"
    using idem_unlock.IH unlock_frame(2) [OF k] by (auto simp: idem_inv_def list_all_iff s')
  ultimately show ?case using idem_unlock.IH idem_unlock.hyps(2) d by (auto simp: idem_inv_def)
qed

text \<open>A run that returned no error left its response in the store; a key with a response is never run.\<close>

lemma handled_recorded:
  assumes "is_uuid k" "res = idem_locked st marshal unmarshal opts tr nxt k w s" "ir_ran res" "ir_err res = None"
  shows "\<exists>by. marshal (rec (run_calls (fst nxt) w)) = Inr by \<and> cached (ir_state res) k = Some by \<and>
    ir_writer res = rec_writer (run_calls (fst nxt) w)"
proof -
  obtain g s1 where g: "st_Get st k s = (g, s1)" by force
  obtain e where e: "g = Inl e" "errors_Is e ErrIdempotentMissing"
    using assms(2,3) g by (cases g) (auto simp: idem_locked_def Let_def split: if_splits sum.splits prod.splits)
  have none: "cached s1 k = None"
    using get_missing [OF assms(1), of s e] get_frame(2) [OF assms(1,1), of s] g e by simp
  have h: "res = (idem_handle st marshal opts tr nxt k w s1)
      \<lparr>ir_state := snd (st_Unlock st k (ir_state (idem_handle st marshal opts tr nxt k w s1)))\<rparr>"
    using assms(2) g e by (simp add: idem_locked_def Let_def)
  then obtain v s2 where v: "marshal (rec (run_calls (fst nxt) w)) = Inr v" and s2: "st_Store st k (TTL opts) v s1 = (None, s2)"
    and r: "res = \<lparr>ir_err = None, ir_writer = rec_writer (run_calls (fst nxt) w), ir_ran = True, ir_state = snd (st_Unlock st k s2)\<rparr>"
    using assms(3,4) by (auto simp: idem_handle_def Let_def split: option.splits sum.splits prod.splits)
  have "cached s2 k = Some v" using store_ok [OF assms(1) none, of "TTL opts" v] s2 by simp
  then show ?thesis using v r unlock_frame(2) [OF assms(1,1)] by simp
qed

lemma recorded_not_run:
  assumes "is_uuid k" "cached s k = Some by" "res = idem_locked st marshal unmarshal opts tr nxt k w s"
  shows "\<not> ir_ran res \<and> cached (ir_state res) k = Some by"
    "unmarshal by = Inr resp \<Longrightarrow> ir_err res = None \<Longrightarrow> ir_writer res = replay resp w"
    "unmarshal by = Inr resp \<Longrightarrow> fst (st_Get st k s) = Inr v \<Longrightarrow> unwrap_err tr = None \<Longrightarrow> write_err tr = None \<Longrightarrow> ir_err res = None"
proof -
  obtain g s1 where g: "st_Get st k s = (g, s1)" by force
  have c: "cached s1 k = Some by" using get_frame(2) [OF assms(1,1), of s] assms(2) g by simp
  have "\<not> errors_Is e ErrIdempotentMissing" if "g = Inl e" for e
    using get_missing [OF assms(1), of s e] assms(2) g that by auto
  then show "\<not> ir_ran res \<and> cached (ir_state res) k = Some by"
    using assms(3) g c unlock_frame(2) [OF assms(1,1), of s1]
    by (cases g) (auto simp: idem_locked_def Let_def split: sum.split prod.split)
  show "ir_writer res = replay resp w" if "unmarshal by = Inr resp" "ir_err res = None"
    using get_some [OF assms(1), of s] get_missing [OF assms(1), of s] assms(2,3) that g
    by (cases g) (auto simp: idem_locked_def replay_response_def Let_def split: prod.splits sum.splits option.splits if_splits)
  show "ir_err res = None" if "unmarshal by = Inr resp" "fst (st_Get st k s) = Inr v" "unwrap_err tr = None" "write_err tr = None"
    using get_some [OF assms(1) that(2)] assms(2,3) that g
    by (auto simp: idem_locked_def replay_response_def Let_def)
qed

end

section \<open>Properties\<close>

text \<open>Whatever requests are interleaved and whatever commands fail, on the Redis store: no
  two requests of one key are past the lock together, at most one run per key is recorded, and a
  handler never runs for a key whose response is recorded.\<close>

theorem idempotent_once:
  assumes "redis_laws c view" "idem_reach (rueidis_store c) (redis_cached view) r"
  shows "distinct (map fst (active r)) \<and> distinct (recorded_runs r) \<and>
    (\<forall>k. (k, PRun) \<in> set (active r) \<longrightarrow> k \<notin> set (recorded_runs r))"
proof -
  have inv: "idem_inv (redis_locked view) (redis_cached view) r"
    by (rule idempotency_store.idem_reach_inv [OF redis_laws.rueidis_contract [OF assms(1)] assms(2)])
  have "k \<notin> set (recorded_runs r)" if "(k, PRun) \<in> set (active r)" for k
  proof -
    have "redis_cached view (ist r) k = None" using inv that by (force simp: idem_inv_def list_all_iff)
    then show ?thesis using inv by (auto simp: idem_inv_def list_all_iff)
  qed
  then show ?thesis using inv by (simp add: idem_inv_def)
qed

definition demo_key :: uuid where "demo_key = replicate 16 7"

lemma idempotent_once_witness:
  "\<exists>r :: (string \<Rightarrow> string option) idem_run. active r = [(demo_key, PRun)] \<and> demo_key \<notin> set (recorded_runs r)"
proof -
  let ?s = "Map.empty :: string \<Rightarrow> string option" and ?s1 = "[lock_key demo_key \<mapsto> ''1'']"
  let ?st = "rueidis_store map_redis" and ?ca = "redis_cached (\<lambda>m. m)"
  have u: "is_uuid demo_key" by (simp add: demo_key_def is_uuid_def)
  have "idem_reach ?st ?ca \<lparr>ist = ?s, active = [], recorded_runs = []\<rparr>"
    by (rule idem_init) (simp add: redis_cached_def)
  from idem_lock [OF this u, of 60 None ?s1]
  have 1: "idem_reach ?st ?ca \<lparr>ist = ?s1, active = [] @ (demo_key, PGet) # [], recorded_runs = []\<rparr>"
    by (simp add: rueidis_store_def Rueidis_Lock_def map_redis_def)
  from idem_get [OF this, of "[]" demo_key "[]" "Inl (ESentinel ErrIdempotentMissing)" ?s1 PRun]
  have 2: "idem_reach ?st ?ca \<lparr>ist = ?s1, active = [(demo_key, PRun)], recorded_runs = []\<rparr>"
    using lock_key_neq [OF u u] by (simp add: rueidis_store_def Rueidis_Get_def map_redis_def)
  show ?thesis
    using idempotent_once [OF map_redis.redis_laws_axioms 2]
    by (intro exI [of _ "\<lparr>ist = ?s1, active = [(demo_key, PRun)], recorded_runs = []\<rparr>"]) simp
qed

text \<open>What the calls of a handler say: the values it adds to a header, and the last piece of body it writes.\<close>

definition added :: "writer_call list \<Rightarrow> string \<Rightarrow> string list" where
  "added calls k = concat (map (\<lambda>c. case c of AddHeader k' v \<Rightarrow> if k' = k then [v] else [] | _ \<Rightarrow> []) calls)"

definition last_piece :: "writer_call list \<Rightarrow> string" where
  "last_piece calls = fold (\<lambda>c b. case c of WriteBody d \<Rightarrow> d | _ \<Rightarrow> b) calls ''''"

lemma header_get_add: "header_get (header_add k v hs) j = header_get hs j @ (if j = k then [v] else [])"
  by (induction k v hs rule: header_add.induct) (auto simp: header_get_def)

lemma header_get_adds: "header_get (fold (header_add k) vs hs) j = header_get hs j @ (if j = k then vs else [])"
  by (induction vs arbitrary: hs) (auto simp: header_get_add)

lemma header_get_none: "j \<notin> fst ` set hs \<Longrightarrow> header_get hs j = []"
  by (metis header_get_def map_of_eq_None_iff option.case(1))

lemma header_get_add_all:
  "distinct (map fst from_hs) \<Longrightarrow> header_get (header_add_all from_hs hs) j = header_get hs j @ header_get from_hs j"
proof (induction from_hs arbitrary: hs)
  case (Cons p from_hs)
  obtain k vs where p: "p = (k, vs)" by fastforce
  have "header_get (header_add_all (p # from_hs) hs) j = header_get (header_add_all from_hs (fold (header_add k) vs hs)) j"
    by (simp add: header_add_all_def p)
  also have "\<dots> = header_get hs j @ (if j = k then vs else []) @ header_get from_hs j"
    using Cons by (simp add: header_get_adds p)
  also have "(if j = k then vs else []) @ header_get from_hs j = header_get (p # from_hs) j"
    using Cons.prems header_get_none [of k from_hs] by (auto simp: p header_get_def)
  finally show ?case .
qed (simp add: header_add_all_def header_get_def)

lemma header_add_keys: "fst ` set (header_add k v hs) = insert k (fst ` set hs)"
  by (induction k v hs rule: header_add.induct) auto

lemma header_add_distinct: "distinct (map fst hs) \<Longrightarrow> distinct (map fst (header_add k v hs))"
  by (induction k v hs rule: header_add.induct) (simp_all add: header_add_keys)

text \<open>The recorder's record is what the calls say.\<close>

lemma recorded_calls:
  "distinct (map fst (Headers (rec r))) \<Longrightarrow>
   distinct (map fst (Headers (rec (fold recorder_call calls r)))) \<and>
   header_get (Headers (rec (fold recorder_call calls r))) k = header_get (Headers (rec r)) k @ added calls k \<and>
   Body (rec (fold recorder_call calls r)) = fold (\<lambda>c b. case c of WriteBody d \<Rightarrow> d | _ \<Rightarrow> b) calls (Body (rec r))"
proof (induction calls arbitrary: r)
  case (Cons c calls)
  have d: "distinct (map fst (Headers (rec (recorder_call c r))))"
    using Cons.prems by (cases c) (simp_all add: header_add_distinct recorder_WriteHeader_def recorder_Write_def Let_def)
  have "header_get (Headers (rec (recorder_call c r))) k = header_get (Headers (rec r)) k @ added [c] k"
    "Body (rec (recorder_call c r)) = (case c of WriteBody d \<Rightarrow> d | _ \<Rightarrow> Body (rec r))"
    by (cases c; simp add: header_get_add recorder_WriteHeader_def recorder_Write_def added_def Let_def)+
  then show ?case using Cons.IH [OF d] by (simp add: added_def)
qed (simp add: added_def)

lemma recorded_run:
  "distinct (map fst (Headers (rec (run_calls calls w))))"
  "header_get (Headers (rec (run_calls calls w))) k = added calls k"
  "Body (rec (run_calls calls w)) = last_piece calls"
  using recorded_calls [of "new_recorder w" calls k]
  by (simp_all add: run_calls_def new_recorder_def last_piece_def header_get_def)

lemma replayed:
  "w_body (replay (rec (run_calls calls w)) w') = w_body w' @ last_piece calls"
  "w_status (replay (rec (run_calls calls w)) w') = Some (case w_status w' of None \<Rightarrow> 200 | Some code \<Rightarrow> code)"
  "header_get (w_headers (replay (rec (run_calls calls w)) w')) k = header_get (w_headers w') k @ added calls k"
  using recorded_run [of calls w]
  by (auto simp: replay_def w_WriteHeader_def w_Write_def with_headers_def header_get_add_all Let_def split: option.splits)

text \<open>A handler that sets headers, a status and a body in one piece: what its own request is answered.\<close>

lemma one_piece:
  assumes "calls = map (\<lambda>(k, v). AddHeader k v) hs @ [WriteHeader code, WriteBody b]" "w_status w = None"
  shows "w_status (rec_writer (run_calls calls w)) = Some code" "w_body (rec_writer (run_calls calls w)) = w_body w @ b"
    "header_get (w_headers (rec_writer (run_calls calls w))) k = header_get (w_headers w) k @ added calls k"
    "last_piece calls = b"
proof -
  let ?hs = "map (\<lambda>(k, v). AddHeader k v) hs"
  have keep: "rec_writer (fold recorder_call (map (\<lambda>(k, v). AddHeader k v) hs) r) = rec_writer r" for r
    by (induction hs arbitrary: r) (auto simp: split_def)
  then have w: "rec_writer (run_calls ?hs w) = w" by (simp add: run_calls_def new_recorder_def)
  have run: "run_calls calls w = recorder_Write b (recorder_WriteHeader code (run_calls ?hs w))"
    by (simp add: run_calls_def assms(1))
  show "w_status (rec_writer (run_calls calls w)) = Some code" "w_body (rec_writer (run_calls calls w)) = w_body w @ b"
    unfolding run using assms(2) w by (simp_all add: recorder_Write_def recorder_WriteHeader_def w_Write_def w_WriteHeader_def Let_def)
  have "added calls k = added ?hs k" by (simp add: added_def assms(1))
  then show "header_get (w_headers (rec_writer (run_calls calls w))) k = header_get (w_headers w) k @ added calls k"
    unfolding run using assms(2) w recorded_run(1,2) [of ?hs w]
    by (simp add: recorder_Write_def recorder_WriteHeader_def w_Write_def w_WriteHeader_def header_get_add_all Let_def)
  show "last_piece calls = b" by (simp add: last_piece_def assms(1))
qed

text \<open>Property C5. Once a request of a key has run without error, a later request of the key, in any state
  \<open>s'\<close> that still has the key's response, never runs its handler. If it gets the lock and Redis and the
  connection do not fail, it is answered, and its answer has the headers that the first handler added and
  the last piece of body that it wrote; its status is 200 unless one was written before. Without
  the lock it is answered 423 or with an error. So a response written in one piece is replayed with its
  headers and its body but, unlike the README says, not with its status; one written in several pieces
  loses all but the last.\<close>

theorem idempotent_replays:
  assumes laws: "redis_laws c view" and key: "keyRaw \<noteq> ''''" "parse keyRaw = Inr key" "is_uuid key"
    and first: "first = Idempotent (rueidis_store c) parse marshal unmarshal opts tr nxt keyRaw w s"
      "ir_ran first" "ir_err first = None"
    and kept: "redis_cached view s' key = redis_cached view (ir_state first) key"
    and later: "later = Idempotent (rueidis_store c) parse marshal unmarshal opts' tr' nxt' keyRaw w' s'"
    and json: "\<And>r by. marshal r = Inr by \<Longrightarrow> unmarshal by = Inr r"
  shows "\<not> ir_ran later \<and>
    (let l = Rueidis_Lock c key (LockTTL (setIdempotentOptsDefaults opts')) s'; a = ir_writer later in
     (fst l = None \<and> (\<exists>v. fst (Rueidis_Get c key (snd l)) = Inr v) \<and> unwrap_err tr' = None \<and> write_err tr' = None \<longrightarrow>
        ir_err later = None) \<and>
     (ir_err later = None \<longrightarrow>
        (if fst l = None
         then w_body a = w_body w' @ last_piece (fst nxt) \<and>
              w_status a = Some (case w_status w' of None \<Rightarrow> 200 | Some code \<Rightarrow> code) \<and>
              (\<forall>k. header_get (w_headers a) k = header_get (w_headers w') k @ added (fst nxt) k)
         else a = w_WriteHeader 423 w'))) \<and>
    (\<forall>hs code b. w_status w = None \<and> fst nxt = map (\<lambda>(k, v). AddHeader k v) hs @ [WriteHeader code, WriteBody b] \<longrightarrow>
       w_status (ir_writer first) = Some code \<and> w_body (ir_writer first) = w_body w @ b \<and> last_piece (fst nxt) = b \<and>
       (\<forall>k. header_get (w_headers (ir_writer first)) k = header_get (w_headers w) k @ added (fst nxt) k))"
proof -
  note store = redis_laws.rueidis_contract [OF laws]
  let ?st = "rueidis_store c" and ?rec = "rec (run_calls (fst nxt) w)"
  have "first = idem_locked ?st marshal unmarshal (setIdempotentOptsDefaults opts) tr nxt key w
      (snd (st_Lock ?st key (LockTTL (setIdempotentOptsDefaults opts)) s))"
    using first key by (auto simp: Idempotent_def Parse_def Let_def split: prod.splits option.splits if_splits)
  then obtain bs where bs: "marshal ?rec = Inr bs" "redis_cached view (ir_state first) key = Some bs"
    and w: "ir_writer first = rec_writer (run_calls (fst nxt) w)"
    using idempotency_store.handled_recorded [OF store key(3) _ first(2,3)] by blast
  let ?o = "setIdempotentOptsDefaults opts'"
  obtain e s1 where l: "st_Lock ?st key (LockTTL ?o) s' = (e, s1)" by force
  have l': "Rueidis_Lock c key (LockTTL ?o) s' = (e, s1)" and get: "st_Get ?st = Rueidis_Get c"
    using l by (simp_all add: rueidis_store_def)
  have c1: "redis_cached view s1 key = Some bs"
    using idempotency_store.lock_cached [OF store key(3,3), of "LockTTL ?o" s'] l kept bs(2) by simp
  note past = idempotency_store.recorded_not_run [OF store key(3) c1 refl, where marshal = marshal and unmarshal = unmarshal and opts = ?o and tr = tr' and nxt = nxt' and w = w']
  note past = past(1) past(2) [OF json [OF bs(1)]] past(3) [OF json [OF bs(1)]]
  have 1: "\<not> ir_ran later" "e \<noteq> None \<Longrightarrow> ir_err later = None \<Longrightarrow> ir_writer later = w_WriteHeader 423 w'"
    using later key l past(1) by (cases e; auto simp: Idempotent_def Parse_def Let_def split: if_splits)+
  have 2: "e = None \<Longrightarrow> ir_err later = None \<Longrightarrow> ir_writer later = replay ?rec w'"
    "e = None \<Longrightarrow> fst (Rueidis_Get c key s1) = Inr v \<Longrightarrow> unwrap_err tr' = None \<Longrightarrow> write_err tr' = None \<Longrightarrow> ir_err later = None" for v
    using later key l past(2,3) get by (auto simp: Idempotent_def Parse_def Let_def)
  have 3: "w_status (ir_writer first) = Some code \<and> w_body (ir_writer first) = w_body w @ b \<and> last_piece (fst nxt) = b \<and>
       (\<forall>k. header_get (w_headers (ir_writer first)) k = header_get (w_headers w) k @ added (fst nxt) k)"
    if "w_status w = None" "fst nxt = map (\<lambda>(k, v). AddHeader k v) hs @ [WriteHeader code, WriteBody b]" for hs code b
    unfolding w using one_piece [OF that(2,1)] by blast
  show ?thesis
  proof (intro conjI)
    show "let l = Rueidis_Lock c key (LockTTL ?o) s'; a = ir_writer later in
     (fst l = None \<and> (\<exists>v. fst (Rueidis_Get c key (snd l)) = Inr v) \<and> unwrap_err tr' = None \<and> write_err tr' = None \<longrightarrow>
        ir_err later = None) \<and>
     (ir_err later = None \<longrightarrow>
        (if fst l = None
         then w_body a = w_body w' @ last_piece (fst nxt) \<and>
              w_status a = Some (case w_status w' of None \<Rightarrow> 200 | Some code \<Rightarrow> code) \<and>
              (\<forall>k. header_get (w_headers a) k = header_get (w_headers w') k @ added (fst nxt) k)
         else a = w_WriteHeader 423 w'))"
      using 1(2) 2 replayed [of "fst nxt" w w'] by (auto simp: l' Let_def)
  qed (use 1(1) 3 in blast)+
qed

definition demo_call :: "writer_call list \<Rightarrow> (string \<Rightarrow> string option) \<Rightarrow> (string \<Rightarrow> string option) idem_result" where
  "demo_call calls s = Idempotent (rueidis_store map_redis) (\<lambda>_. Inr demo_key)
     (\<lambda>r. if Code r = 0 \<and> Headers r = [] then Inr (Body r) else Inl (EOther ''''))
     (\<lambda>b. Inr \<lparr>Code = 0, Body = b, Headers = []\<rparr>) \<lparr>SkipMissingKeys = None, TTL = 0, LockTTL = 0\<rparr>
     \<lparr>unwrap_err = None, write_err = None\<rparr> (calls, None) ''k''
     \<lparr>w_headers = [], w_status = None, w_body = ''''\<rparr> s"

lemma idempotent_replays_witness:
  "let first = demo_call [WriteBody ''o'', WriteBody ''k''] Map.empty; later = demo_call [WriteBody ''again''] (ir_state first) in
    ir_ran first \<and> \<not> ir_ran later \<and> ir_err later = None \<and> w_body (ir_writer later) = ''k'' \<and> w_status (ir_writer later) = Some 200"
proof -
  have u: "is_uuid demo_key" by (simp add: demo_key_def is_uuid_def)
  note run = Idempotent_def setIdempotentOptsDefaults_def Parse_def idem_locked_def idem_handle_def rueidis_store_def
    Rueidis_Lock_def Rueidis_Get_def Rueidis_Store_def Rueidis_Unlock_def map_redis_def lock_key_neq [OF u u] lock_key_neq [OF u u, symmetric]
    run_calls_def new_recorder_def recorder_Write_def w_Write_def w_WriteHeader_def replay_response_def replay_def with_headers_def
    header_add_all_def Let_def
  let ?f = "demo_call [WriteBody ''o'', WriteBody ''k''] Map.empty" and ?l = "\<lambda>s. demo_call [WriteBody ''again''] s"
  have f: "ir_ran ?f" "ir_err ?f = None" by (simp_all add: demo_call_def run)
  have json: "(\<lambda>b. Inr \<lparr>Code = 0, Body = b, Headers = []\<rparr> :: go_error + recorded) bs = Inr r"
    if "(if Code r = 0 \<and> Headers r = [] then Inr (Body r) else Inl (EOther '''')) = Inr bs" for r bs
    using that by (cases r) (auto split: if_splits)
  note th = idempotent_replays [OF map_redis.redis_laws_axioms _ _ u demo_call_def f refl demo_call_def json]
  have l: "fst (Rueidis_Lock map_redis demo_key 60000000000 (ir_state ?f)) = None"
    "\<exists>v. fst (Rueidis_Get map_redis demo_key (snd (Rueidis_Lock map_redis demo_key 60000000000 (ir_state ?f)))) = Inr v"
    by (simp_all add: demo_call_def run)
  have "\<not> ir_ran (?l (ir_state ?f)) \<and> ir_err (?l (ir_state ?f)) = None \<and> w_body (ir_writer (?l (ir_state ?f))) = ''k'' \<and>
      w_status (ir_writer (?l (ir_state ?f))) = Some 200"
    using th l by (simp add: setIdempotentOptsDefaults_def Let_def last_piece_def)
  then show ?thesis using f by (simp add: Let_def)
qed


text \<open>A request's fate by its key: without one it runs unprotected, or is refused as
  invalid, as the option says; a malformed key is refused; a key that is locked is answered 423;
  and in these cases the store is not touched beyond the attempt to lock.\<close>

theorem idempotent_gate:
  "(keyRaw = '''' \<and> SkipMissingKeys opts \<in> {None, Some True} \<longrightarrow>
      Idempotent st parse marshal unmarshal opts tr nxt keyRaw w s =
        \<lparr>ir_err = snd nxt, ir_writer = fold plain_call (fst nxt) w, ir_ran = True, ir_state = s\<rparr>) \<and>
   (keyRaw = '''' \<and> SkipMissingKeys opts = Some False \<or> keyRaw \<noteq> '''' \<and> parse keyRaw = Inl err \<longrightarrow>
      (\<exists>m. Idempotent st parse marshal unmarshal opts tr nxt keyRaw w s =
        \<lparr>ir_err = Some (EValidation [(''idempotency_key'', m)]), ir_writer = w, ir_ran = False, ir_state = s\<rparr>)) \<and>
   (keyRaw \<noteq> '''' \<and> parse keyRaw = Inr key \<and>
      st_Lock st key (LockTTL (setIdempotentOptsDefaults opts)) s = (Some (ESentinel ErrIdempotentLocked), s1) \<longrightarrow>
      Idempotent st parse marshal unmarshal opts tr nxt keyRaw w s =
        \<lparr>ir_err = None, ir_writer = w_WriteHeader 423 w, ir_ran = False, ir_state = s1\<rparr>)"
  by (auto simp: Idempotent_def setIdempotentOptsDefaults_def Parse_def Let_def)

lemma idempotent_gate_witness:
  "\<exists>m. Idempotent (rueidis_store map_redis) canonical_parse (\<lambda>_. Inr '''') (\<lambda>_. Inl (EOther '''')) \<lparr>SkipMissingKeys = Some False, TTL = 0, LockTTL = 0\<rparr>
      \<lparr>unwrap_err = None, write_err = None\<rparr> ([], None) '''' \<lparr>w_headers = [], w_status = None, w_body = ''''\<rparr> Map.empty =
    \<lparr>ir_err = Some (EValidation [(''idempotency_key'', m)]), ir_writer = \<lparr>w_headers = [], w_status = None, w_body = ''''\<rparr>,
     ir_ran = False, ir_state = Map.empty\<rparr>"
  by (rule idempotent_gate [THEN conjunct2, THEN conjunct1, THEN mp]) simp

text \<open>The replay of a recorded response always has status 200: the body is written before
  the status, so that the recorded status never reaches the client.\<close>

theorem replay_status_lost:
  assumes "w_status w = None"
  shows "w_status (replay resp w) = Some 200 \<and> w_body (replay resp w) = w_body w @ Body resp"
  using assms by (simp add: replay_def with_headers_def w_WriteHeader_def w_Write_def Let_def)

lemma replay_status_lost_witness:
  "w_status (replay \<lparr>Code = 404, Body = ''gone'', Headers = []\<rparr> \<lparr>w_headers = [], w_status = None, w_body = ''''\<rparr>) = Some 200"
  by (subst conjunct1 [OF replay_status_lost]) simp_all

lemma write_chunks:
  "w_status (rec_writer r) \<noteq> None \<Longrightarrow>
   w_status (rec_writer (fold recorder_call (map WriteBody chunks) r)) = w_status (rec_writer r) \<and>
   w_body (rec_writer (fold recorder_call (map WriteBody chunks) r)) = w_body (rec_writer r) @ concat chunks \<and>
   w_headers (rec_writer (fold recorder_call (map WriteBody chunks) r)) = w_headers (rec_writer r) \<and>
   rec (fold recorder_call (map WriteBody chunks) r) =
     (rec r)\<lparr>Body := (if chunks = [] then Body (rec r) else last chunks)\<rparr>"
proof (induction chunks arbitrary: r)
  case (Cons d ds)
  then show ?case using Cons.IH [of "recorder_Write d r"]
    by (auto simp: recorder_Write_def w_Write_def w_WriteHeader_def Let_def)
qed simp

text \<open>A response written in one piece is recorded as the client saw it; of a response
  written in several pieces only the last one is recorded, so that the replay is cut.\<close>

theorem recorder_keeps_last_chunk:
  assumes "w_status w = None" "w_body w = ''''"
  shows "let r = run_calls (WriteHeader code # map WriteBody chunks) w in
    w_status (rec_writer r) = Some code \<and> w_body (rec_writer r) = concat chunks \<and>
    Code (rec r) = code \<and> Body (rec r) = (if chunks = [] then '''' else last chunks)"
proof -
  have "w_status (rec_writer (recorder_WriteHeader code (new_recorder w))) = Some code"
    using assms(1) by (simp add: recorder_WriteHeader_def new_recorder_def w_WriteHeader_def Let_def)
  then show ?thesis
    using write_chunks [of "recorder_WriteHeader code (new_recorder w)" chunks] assms
    by (simp add: run_calls_def Let_def recorder_WriteHeader_def new_recorder_def w_WriteHeader_def header_add_all_def)
qed

lemma recorder_keeps_last_chunk_witness:
  "let r = run_calls (WriteHeader 200 # map WriteBody [''ab'', ''cd'']) \<lparr>w_headers = [], w_status = None, w_body = ''''\<rparr> in
    w_status (rec_writer r) = Some 200 \<and> w_body (rec_writer r) = ''abcd'' \<and> Code (rec r) = 200 \<and> Body (rec r) = ''cd''"
  using recorder_keeps_last_chunk [of "\<lparr>w_headers = [], w_status = None, w_body = ''''\<rparr>" 200 "[''ab'', ''cd'']"] by simp

end
