(* ===== verification/Idempotency_Lease.thy ===== *)
theory Idempotency_Lease
  imports Idempotency
begin

text \<open>
  The idempotency middleware when keys expire: \<open>LockTTL\<close> is the lease of a request on its key and
  \<open>TTL\<close> the time for which a response is kept (\<open>http/middleware/idempotent.go\<close>,
  \<open>idempotent_store.go\<close>). Redis is given by its replies on entries with an instant of expiry, as the
  locale \<open>redis_clock\<close>; time passes as a step of its own. Requests that keep to their lease exclude
  each other; one that outlives it can break the exclusion of two others that do not.
\<close>

section \<open>Redis with a clock\<close>

type_synonym entries = "string \<Rightarrow> (string \<times> int) option"

definition unexpired :: "int \<Rightarrow> entries \<Rightarrow> entries" where
  "unexpired now es k = (case es k of Some (v, d) \<Rightarrow> if now < d then Some (v, d) else None | None \<Rightarrow> None)"

text \<open>\<open>life\<close> is the number of nanoseconds of the expiry that the client sends for a duration. An expiry
  that is not positive is refused with an error.\<close>

locale redis_clock =
  fixes c :: "'s redis" and entry :: "'s \<Rightarrow> entries" and clock :: "'s \<Rightarrow> int"
    and life :: "i64 \<Rightarrow> int" and pass :: "'s \<Rightarrow> 's \<Rightarrow> bool"
  assumes setnx: "case redis_SetNxEx c k v t s of
      (RNil, s') \<Rightarrow> entry s k \<noteq> None \<and> entry s' = entry s
    | (RValue x, s') \<Rightarrow> 0 < life t \<and> entry s k = None \<and> entry s' = (entry s)(k \<mapsto> (v, clock s + life t))
    | (ROther e, s') \<Rightarrow> False
    | (RError e, s') \<Rightarrow> entry s' = entry s \<or> 0 < life t \<and> entry s k = None \<and> entry s' = (entry s)(k \<mapsto> (v, clock s + life t))"
    and del: "entry (snd (redis_Del c k s)) \<in> {entry s, (entry s)(k := None)}"
    and get: "case redis_Get c k s of
      (RNil, s') \<Rightarrow> entry s k = None \<and> entry s' = entry s
    | (RValue x, s') \<Rightarrow> (\<exists>d. entry s k = Some (x, d)) \<and> entry s' = entry s
    | (ROther e, s') \<Rightarrow> entry s k \<noteq> None \<and> entry s' = entry s \<and> \<not> errors_Is e ErrIdempotentMissing
    | (RError e, s') \<Rightarrow> entry s' = entry s \<and> \<not> errors_Is e ErrIdempotentMissing"
    and at_once: "clock (snd (redis_SetNxEx c k v t s)) = clock s" "clock (snd (redis_Del c k s)) = clock s"
      "clock (snd (redis_Get c k s)) = clock s"
    and passing: "pass s s' \<Longrightarrow> clock s \<le> clock s' \<and> entry s' = unexpired (clock s') (entry s)"

text \<open>Between the steps of time such a Redis is the one without a clock.\<close>

sublocale redis_clock \<subseteq> untimed: redis_laws c "\<lambda>s k. map_option fst (entry s k)"
proof unfold_locales
  show "case redis_SetNxEx c k v t s of
      (RNil, s') \<Rightarrow> map_option fst (entry s k) \<noteq> None \<and> (\<lambda>j. map_option fst (entry s' j)) = (\<lambda>j. map_option fst (entry s j))
    | (RValue x, s') \<Rightarrow> map_option fst (entry s k) = None \<and>
        (\<lambda>j. map_option fst (entry s' j)) = (\<lambda>j. map_option fst (entry s j))(k \<mapsto> v)
    | (ROther e, s') \<Rightarrow> False
    | (RError e, s') \<Rightarrow> (\<lambda>j. map_option fst (entry s' j)) = (\<lambda>j. map_option fst (entry s j)) \<or>
        map_option fst (entry s k) = None \<and> (\<lambda>j. map_option fst (entry s' j)) = (\<lambda>j. map_option fst (entry s j))(k \<mapsto> v)" for k v t s
    using setnx [where k = k and v = v and t = t and s = s] by (auto simp: fun_eq_iff split: prod.splits redis_reply.splits)
  show "(\<lambda>j. map_option fst (entry (snd (redis_Del c k s)) j)) \<in>
      {\<lambda>j. map_option fst (entry s j), (\<lambda>j. map_option fst (entry s j))(k := None)}" for k s
    using del [where k = k and s = s] by (auto simp: fun_eq_iff)
  show "case redis_Get c k s of
      (RNil, s') \<Rightarrow> map_option fst (entry s k) = None \<and> (\<lambda>j. map_option fst (entry s' j)) = (\<lambda>j. map_option fst (entry s j))
    | (RValue x, s') \<Rightarrow> map_option fst (entry s k) = Some x \<and> (\<lambda>j. map_option fst (entry s' j)) = (\<lambda>j. map_option fst (entry s j))
    | (ROther e, s') \<Rightarrow> map_option fst (entry s k) \<noteq> None \<and>
        (\<lambda>j. map_option fst (entry s' j)) = (\<lambda>j. map_option fst (entry s j)) \<and> \<not> errors_Is e ErrIdempotentMissing
    | (RError e, s') \<Rightarrow> (\<lambda>j. map_option fst (entry s' j)) = (\<lambda>j. map_option fst (entry s j)) \<and>
        \<not> errors_Is e ErrIdempotentMissing" for k s
    using get [where k = k and s = s] by (auto split: prod.splits redis_reply.splits)
qed

section \<open>Requests with leases\<close>

text \<open>A request that got the lock has the end of its lease; a recorded run has the instant at which
  it was stored.\<close>

record 's lease_run =
  lst :: 's
  holders :: "(uuid \<times> idem_phase \<times> int) list"
  stored :: "(uuid \<times> int) list"

text \<open>\<open>punctual\<close> is the policy under which nobody is past the lock when its lease ends.\<close>

definition punctual :: "('s \<Rightarrow> int) \<Rightarrow> 's lease_run \<Rightarrow> 's \<Rightarrow> bool" where
  "punctual clock r s' \<longleftrightarrow> list_all (\<lambda>(k, p, d). clock s' < d) (holders r)"

inductive lease_reach for st clock life pass policy and opts :: idem_opts and s0 where
  lease_init: "lease_reach st clock life pass policy opts s0 \<lparr>lst = s0, holders = [], stored = []\<rparr>"
| lease_lock: "lease_reach st clock life pass policy opts s0 r \<Longrightarrow> is_uuid k \<Longrightarrow>
    st_Lock st k (LockTTL opts) (lst r) = (res, s') \<Longrightarrow>
    lease_reach st clock life pass policy opts s0
      (r\<lparr>lst := s', holders := holders r @ (if res = None then [(k, PGet, clock (lst r) + life (LockTTL opts))] else [])\<rparr>)"
| lease_get: "lease_reach st clock life pass policy opts s0 r \<Longrightarrow> holders r = xs @ (k, PGet, d) # ys \<Longrightarrow>
    st_Get st k (lst r) = (res, s') \<Longrightarrow>
    p = (case res of Inl e \<Rightarrow> if errors_Is e ErrIdempotentMissing then PRun else PUnlock | Inr v \<Rightarrow> PUnlock) \<Longrightarrow>
    lease_reach st clock life pass policy opts s0 (r\<lparr>lst := s', holders := xs @ (k, p, d) # ys\<rparr>)"
| lease_fail: "lease_reach st clock life pass policy opts s0 r \<Longrightarrow> holders r = xs @ (k, PRun, d) # ys \<Longrightarrow>
    lease_reach st clock life pass policy opts s0 (r\<lparr>holders := xs @ (k, PUnlock, d) # ys\<rparr>)"
| lease_store: "lease_reach st clock life pass policy opts s0 r \<Longrightarrow> holders r = xs @ (k, PRun, d) # ys \<Longrightarrow>
    st_Store st k (TTL opts) v (lst r) = (res, s') \<Longrightarrow>
    lease_reach st clock life pass policy opts s0 (r\<lparr>lst := s', holders := xs @ (k, PUnlock, d) # ys,
      stored := stored r @ (if res = None then [(k, clock (lst r))] else [])\<rparr>)"
| lease_unlock: "lease_reach st clock life pass policy opts s0 r \<Longrightarrow> holders r = xs @ (k, PUnlock, d) # ys \<Longrightarrow>
    st_Unlock st k (lst r) = (res, s') \<Longrightarrow>
    lease_reach st clock life pass policy opts s0 (r\<lparr>lst := s', holders := xs @ ys\<rparr>)"
| lease_pass: "lease_reach st clock life pass policy opts s0 r \<Longrightarrow> pass (lst r) s' \<Longrightarrow> policy r s' \<Longrightarrow>
    lease_reach st clock life pass policy opts s0 (r\<lparr>lst := s'\<rparr>)"

text \<open>The middleware is such a request: past the lock, at one instant, it takes the steps of a holder, and
  the run that it stores is recorded.\<close>

lemma idem_locked_lease:
  assumes r: "lease_reach st clock life pass policy opts s0 r" and a: "holders r = xs @ (k, PGet, d) # ys"
    and clock: "\<And>s. clock (snd (st_Get st k s)) = clock s"
  shows "let res = idem_locked st marshal unmarshal opts tr nxt k w (lst r) in
    lease_reach st clock life pass policy opts s0 (r\<lparr>lst := ir_state res, holders := xs @ ys,
      stored := stored r @ (if ir_ran res \<and> ir_err res = None then [(k, clock (lst r))] else [])\<rparr>)"
proof -
  obtain g s1 where g: "st_Get st k (lst r) = (g, s1)" by force
  have s1: "clock s1 = clock (lst r)" using clock [of "lst r"] by (simp add: g)
  define r1 where "r1 = r\<lparr>lst := s1, holders := xs @ (k, next_phase g, d) # ys\<rparr>"
  have r1: "lease_reach st clock life pass policy opts s0 r1"
    using lease_get [OF r a g refl] by (simp add: r1_def next_phase_def)
  have unlock: "lease_reach st clock life pass policy opts s0 (q\<lparr>lst := snd (st_Unlock st k (lst q)), holders := xs @ ys\<rparr>)"
    if "lease_reach st clock life pass policy opts s0 q" "holders q = xs @ (k, PUnlock, d) # ys" for q
    using lease_unlock [OF that] by (metis prod.collapse)
  show ?thesis
  proof (cases rule: idem_locked_cases [OF g refl, where marshal = marshal and unmarshal = unmarshal and opts = opts and tr = tr and nxt = nxt and w = w])
    case 1
    obtain q where q: "lease_reach st clock life pass policy opts s0 q" "q = r\<lparr>lst := s1, holders := xs @ (k, PUnlock, d) # ys\<rparr>"
      using r1 lease_fail [OF r1] by (cases "next_phase g") (auto simp: r1_def next_phase_def split: sum.splits if_splits)
    then show ?thesis using unlock [OF q(1)] 1 by (auto simp: Let_def)
  next
    case (2 v e s2)
    have "lease_reach st clock life pass policy opts s0 (r1\<lparr>lst := s2, holders := xs @ (k, PUnlock, d) # ys,
        stored := stored r1 @ (if e = None then [(k, clock (lst r1))] else [])\<rparr>)"
      by (rule lease_store [OF r1]) (use 2 in \<open>simp_all add: r1_def\<close>)
    from unlock [OF this] show ?thesis using 2 s1 by (cases r, cases e) (auto simp: Let_def r1_def)
  qed
qed

section \<open>The invariant\<close>

definition leased :: "entries \<Rightarrow> uuid \<times> idem_phase \<times> int \<Rightarrow> bool" where
  "leased es = (\<lambda>(k, p, d). is_uuid k \<and> map_option snd (es (lock_key k)) = Some d \<and> (p = PRun \<longrightarrow> es (UUID_String k) = None))"

definition kept :: "int \<Rightarrow> int \<Rightarrow> entries \<Rightarrow> uuid \<times> int \<Rightarrow> bool" where
  "kept ttl now es = (\<lambda>(k, i). is_uuid k \<and>
     (case es (UUID_String k) of None \<Rightarrow> i + ttl \<le> now | Some (v, d) \<Rightarrow> i + ttl \<le> d))"

text \<open>Two recorded runs of one key are as far apart as a response is kept.\<close>

definition spaced :: "int \<Rightarrow> (uuid \<times> int) list \<Rightarrow> bool" where
  "spaced ttl = sorted_wrt (\<lambda>(k, i) (k', i'). k = k' \<longrightarrow> i + ttl \<le> i')"

definition lease_inv :: "('s \<Rightarrow> entries) \<Rightarrow> ('s \<Rightarrow> int) \<Rightarrow> int \<Rightarrow> 's lease_run \<Rightarrow> bool" where
  "lease_inv entry clock ttl r \<longleftrightarrow>
     distinct (map fst (holders r)) \<and> list_all (leased (entry (lst r))) (holders r) \<and>
     list_all (kept ttl (clock (lst r)) (entry (lst r))) (stored r) \<and> spaced ttl (stored r)"

lemma leased_cong:
  "leased es (k, p, d) \<Longrightarrow> (is_uuid k \<Longrightarrow> es' (lock_key k) = es (lock_key k)) \<Longrightarrow>
   (is_uuid k \<Longrightarrow> p' = PRun \<Longrightarrow> es' (UUID_String k) = None) \<Longrightarrow> leased es' (k, p', d)"
  by (simp add: leased_def)

lemma kept_cong:
  "kept ttl now es (k, i) \<Longrightarrow> (is_uuid k \<Longrightarrow> es' (UUID_String k) = es (UUID_String k)) \<Longrightarrow> kept ttl now es' (k, i)"
  by (simp add: kept_def)

context redis_clock
begin

lemma lock_entry:
  "fst (Rueidis_Lock c k t s) = None \<Longrightarrow> entry s (lock_key k) = None \<and>
     entry (snd (Rueidis_Lock c k t s)) = (entry s)(lock_key k \<mapsto> (''1'', clock s + life t))"
  "entry (snd (Rueidis_Lock c k t s)) = entry s \<or> entry s (lock_key k) = None \<and>
     entry (snd (Rueidis_Lock c k t s)) = (entry s)(lock_key k \<mapsto> (''1'', clock s + life t))"
  "clock (snd (Rueidis_Lock c k t s)) = clock s"
  using setnx [where k = "lock_key k" and v = "''1''" and t = t and s = s]
    at_once(1) [where k = "lock_key k" and v = "''1''" and t = t and s = s]
  by (auto simp: Rueidis_Lock_def split: prod.splits redis_reply.splits)

lemma store_entry:
  "fst (Rueidis_Store c k t v s) = None \<Longrightarrow> entry s (UUID_String k) = None \<Longrightarrow>
     entry (snd (Rueidis_Store c k t v s)) = (entry s)(UUID_String k \<mapsto> (v, clock s + life t))"
  "entry (snd (Rueidis_Store c k t v s)) = entry s \<or> 0 < life t \<and> entry s (UUID_String k) = None \<and>
     entry (snd (Rueidis_Store c k t v s)) = (entry s)(UUID_String k \<mapsto> (v, clock s + life t))"
  "clock (snd (Rueidis_Store c k t v s)) = clock s"
  using setnx [where k = "UUID_String k" and v = v and t = t and s = s]
    at_once(1) [where k = "UUID_String k" and v = v and t = t and s = s]
  by (auto simp: Rueidis_Store_def split: prod.splits redis_reply.splits)

lemma get_entry:
  "fst (Rueidis_Get c k s) = Inl e \<Longrightarrow> errors_Is e ErrIdempotentMissing \<Longrightarrow> entry s (UUID_String k) = None"
  "entry (snd (Rueidis_Get c k s)) = entry s" "clock (snd (Rueidis_Get c k s)) = clock s"
  using get [where k = "UUID_String k" and s = s] at_once(3) [where k = "UUID_String k" and s = s]
  by (auto simp: Rueidis_Get_def split: prod.splits redis_reply.splits)

lemma unlock_entry:
  "entry (snd (Rueidis_Unlock c k s)) \<in> {entry s, (entry s)(lock_key k := None)}"
  "clock (snd (Rueidis_Unlock c k s)) = clock s"
  using del [where k = "lock_key k" and s = s] at_once(2) [where k = "lock_key k" and s = s]
  by (auto simp: Rueidis_Unlock_def split: prod.splits redis_reply.splits)

abbreviation inv :: "idem_opts \<Rightarrow> 's lease_run \<Rightarrow> bool" where
  "inv opts \<equiv> lease_inv entry clock (life (TTL opts))"

lemma inv_lock:
  assumes "inv opts r" "is_uuid k" "Rueidis_Lock c k t (lst r) = (res, s')"
  shows "inv opts (r\<lparr>lst := s', holders := holders r @ (if res = None then [(k, PGet, clock (lst r) + life t)] else [])\<rparr>)"
proof -
  note e = lock_entry [where k = k and t = t and s = "lst r", unfolded assms(3), simplified]
  have "leased (entry s') x" if "x \<in> set (holders r)" for x
  proof -
    obtain j p d where x: "x = (j, p, d)" by (cases x)
    have l: "leased (entry (lst r)) (j, p, d)" using that assms(1) by (simp add: lease_inv_def list_all_iff x)
    then have j: "is_uuid j" "entry (lst r) (lock_key j) \<noteq> None" by (auto simp: leased_def)
    show ?thesis unfolding x
      by (rule leased_cong [OF l]) (use e(2) j(2) l lock_key_neq [OF assms(2) j(1)] in \<open>auto simp: leased_def\<close>)
  qed
  moreover have "kept (life (TTL opts)) (clock s') (entry s') y" if "y \<in> set (stored r)" for y
  proof -
    obtain j i where y: "y = (j, i)" by (cases y)
    have l: "kept (life (TTL opts)) (clock (lst r)) (entry (lst r)) (j, i)" using that assms(1) by (simp add: lease_inv_def list_all_iff y)
    show ?thesis unfolding y e(3)
      by (rule kept_cong [OF l]) (use e(2) lock_key_neq [OF assms(2)] in \<open>metis fun_upd_other\<close>)
  qed
  moreover have "k \<notin> fst ` set (holders r) \<and> leased (entry s') (k, PGet, clock (lst r) + life t)" if "res = None"
    using e(1) [OF that] assms(1,2) by (auto simp: lease_inv_def list_all_iff leased_def)
  ultimately show ?thesis using assms(1) by (auto simp: lease_inv_def list_all_iff)
qed

lemma inv_holder:
  assumes "inv opts r" "holders r = xs @ (k, p, d) # ys"
  shows "is_uuid k" "leased (entry (lst r)) (k, p, d)" "\<And>j q f. (j, q, f) \<in> set (xs @ ys) \<Longrightarrow> is_uuid j \<and> j \<noteq> k \<and> leased (entry (lst r)) (j, q, f)"
proof -
  have l: "list_all (leased (entry (lst r))) (xs @ (k, p, d) # ys)" and di: "distinct (map fst (xs @ (k, p, d) # ys))"
    using assms by (simp_all add: lease_inv_def)
  then show "leased (entry (lst r)) (k, p, d)" by simp
  then show "is_uuid k" by (simp add: leased_def)
  show "is_uuid j \<and> j \<noteq> k \<and> leased (entry (lst r)) (j, q, f)" if "(j, q, f) \<in> set (xs @ ys)" for j q f
  proof -
    have "leased (entry (lst r)) (j, q, f)" using l that by (auto simp: list_all_iff)
    moreover have "j \<in> fst ` set (xs @ ys)" using that by force
    then have "j \<noteq> k" using di by auto
    ultimately show ?thesis by (simp add: leased_def)
  qed
qed

lemma inv_phase:
  assumes "inv opts r" "holders r = xs @ (k, p, d) # ys" "entry s' = entry (lst r)" "clock s' = clock (lst r)"
    "q = PRun \<Longrightarrow> entry (lst r) (UUID_String k) = None"
  shows "inv opts (r\<lparr>lst := s', holders := xs @ (k, q, d) # ys\<rparr>)"
  using assms by (simp add: lease_inv_def leased_def)

lemma inv_store:
  assumes "inv opts r" "holders r = xs @ (k, PRun, d) # ys" "Rueidis_Store c k (TTL opts) v (lst r) = (res, s')"
  shows "inv opts (r\<lparr>lst := s', holders := xs @ (k, PUnlock, d) # ys,
    stored := stored r @ (if res = None then [(k, clock (lst r))] else [])\<rparr>)"
proof -
  note e = store_entry [where k = k and t = "TTL opts" and v = v and s = "lst r", unfolded assms(3), simplified]
  note h = inv_holder [OF assms(1,2)]
  have none: "entry (lst r) (UUID_String k) = None" using h(2) by (simp add: leased_def)
  have "leased (entry s') (j, q, f)" if "(j, q, f) \<in> set (xs @ ys)" for j q f
    by (rule leased_cong [OF conjunct2 [OF conjunct2 [OF h(3) [OF that]]]])
      (use e(2) h(1) h(3) [OF that] lock_key_neq UUID_String_inject in \<open>auto simp: leased_def\<close>)
  moreover have "leased (entry s') (k, PUnlock, d)"
    by (rule leased_cong [OF h(2)]) (use e(2) h(1) lock_key_neq in auto)
  moreover have "kept (life (TTL opts)) (clock s') (entry s') (j, i)" if "(j, i) \<in> set (stored r)" for j i
  proof -
    have l: "kept (life (TTL opts)) (clock (lst r)) (entry (lst r)) (j, i)" using that assms(1) by (auto simp: lease_inv_def list_all_iff)
    then have "is_uuid j" by (simp add: kept_def)
    then show ?thesis using l none e(2,3) UUID_String_inject [OF h(1)] by (cases "j = k") (auto simp: kept_def)
  qed
  moreover have "i + life (TTL opts) \<le> clock (lst r)" if "(k, i) \<in> set (stored r)" for i
    using that assms(1) none by (auto simp: lease_inv_def list_all_iff kept_def)
  moreover have "kept (life (TTL opts)) (clock s') (entry s') (k, clock (lst r))" if "res = None"
    using e(1) [OF that none] h(1) by (simp add: kept_def)
  ultimately show ?thesis using assms(1,2)
    by (auto simp: lease_inv_def list_all_iff spaced_def sorted_wrt_append)
qed

lemma inv_unlock:
  assumes "inv opts r" "holders r = xs @ (k, p, d) # ys" "Rueidis_Unlock c k (lst r) = (res, s')"
  shows "inv opts (r\<lparr>lst := s', holders := xs @ ys\<rparr>)"
proof -
  note e = unlock_entry [where k = k and s = "lst r", unfolded assms(3), simplified]
  note h = inv_holder [OF assms(1,2)]
  have "leased (entry s') (j, q, f)" if "(j, q, f) \<in> set (xs @ ys)" for j q f
    by (rule leased_cong [OF conjunct2 [OF conjunct2 [OF h(3) [OF that]]]])
      (use e(1) h(1) h(3) [OF that] lock_key_neq lock_key_inject in \<open>auto simp: leased_def\<close>)
  moreover have "kept (life (TTL opts)) (clock s') (entry s') (j, i)" if "(j, i) \<in> set (stored r)" for j i
  proof -
    have l: "kept (life (TTL opts)) (clock (lst r)) (entry (lst r)) (j, i)" using that assms(1) by (auto simp: lease_inv_def list_all_iff)
    show ?thesis unfolding e(2) by (rule kept_cong [OF l]) (use e(1) lock_key_neq [OF h(1), THEN not_sym] in auto)
  qed
  ultimately show ?thesis using assms(1,2) by (auto simp: lease_inv_def list_all_iff)
qed

lemma inv_pass:
  assumes "inv opts r" "pass (lst r) s'" "punctual clock r s'"
  shows "inv opts (r\<lparr>lst := s'\<rparr>)"
proof -
  have p: "clock (lst r) \<le> clock s'" "entry s' = unexpired (clock s') (entry (lst r))" using passing [OF assms(2)] by simp_all
  have "leased (entry s') (k, q, d)" if "(k, q, d) \<in> set (holders r)" for k q d
  proof -
    have "leased (entry (lst r)) (k, q, d)" "clock s' < d" using that assms(1,3) by (auto simp: lease_inv_def punctual_def list_all_iff)
    then show ?thesis by (auto simp: leased_def p(2) unexpired_def)
  qed
  moreover have "kept (life (TTL opts)) (clock s') (entry s') (k, i)" if "(k, i) \<in> set (stored r)" for k i
  proof -
    have "kept (life (TTL opts)) (clock (lst r)) (entry (lst r)) (k, i)" using that assms(1) by (auto simp: lease_inv_def list_all_iff)
    then show ?thesis using p by (auto simp: kept_def unexpired_def split: option.splits)
  qed
  ultimately show ?thesis using assms(1) by (auto simp: lease_inv_def list_all_iff)
qed

lemma lease_reach_inv:
  "lease_reach (rueidis_store c) clock life pass (punctual clock) opts s0 r \<Longrightarrow> inv opts r"
proof (induction rule: lease_reach.induct)
  case lease_init
  then show ?case by (simp add: lease_inv_def spaced_def)
next
  case (lease_lock r k res s')
  then show ?case using inv_lock by (simp add: rueidis_store_def)
next
  case (lease_get r xs k d ys res s' p)
  have g: "Rueidis_Get c k (lst r) = (res, s')" using lease_get.hyps(3) by (simp add: rueidis_store_def)
  note e = get_entry [where k = k and s = "lst r", unfolded g, simplified]
  show ?case
    by (rule inv_phase [OF lease_get.IH lease_get.hyps(2) e(2,3)])
      (use e(1) lease_get.hyps(4) in \<open>auto split: sum.splits if_splits\<close>)
next
  case (lease_fail r xs k d ys)
  then show ?case using inv_phase [OF lease_fail.IH lease_fail.hyps(2) refl refl, of PUnlock] by simp
next
  case (lease_store r xs k d ys v res s')
  then show ?case using inv_store by (simp add: rueidis_store_def)
next
  case (lease_unlock r xs k d ys res s')
  then show ?case using inv_unlock by (simp add: rueidis_store_def)
next
  case (lease_pass r s')
  then show ?case using inv_pass by blast
qed

end

section \<open>A Redis of one map with a clock\<close>

record clock_redis =
  cr_now :: int
  cr_entries :: entries

text \<open>The client sends a duration as whole seconds.\<close>

definition whole_seconds :: "i64 \<Rightarrow> int" where
  "whole_seconds t = sint t div 1000000000 * 1000000000"

definition advance :: "int \<Rightarrow> clock_redis \<Rightarrow> clock_redis" where
  "advance d s = s\<lparr>cr_now := cr_now s + d, cr_entries := unexpired (cr_now s + d) (cr_entries s)\<rparr>"

definition time_passes :: "clock_redis \<Rightarrow> clock_redis \<Rightarrow> bool" where
  "time_passes s s' \<longleftrightarrow> (\<exists>d \<ge> 0. s' = advance d s)"

definition clock_server :: "clock_redis redis" where
  "clock_server =
     \<lparr>redis_SetNxEx = (\<lambda>k v t s.
        if cr_entries s k \<noteq> None then (RNil, s)
        else if whole_seconds t \<le> 0 then (RError (EOther ''ERR invalid expire time in 'set' command''), s)
        else (RValue ''OK'', s\<lparr>cr_entries := (cr_entries s)(k \<mapsto> (v, cr_now s + whole_seconds t))\<rparr>)),
      redis_Del = (\<lambda>k s. (RValue ''1'', s\<lparr>cr_entries := (cr_entries s)(k := None)\<rparr>)),
      redis_Get = (\<lambda>k s. case cr_entries s k of None \<Rightarrow> (RNil, s) | Some (v, d) \<Rightarrow> (RValue v, s))\<rparr>"

lemma no_pair: "(\<forall>a b. x \<noteq> Some (a, b)) \<longleftrightarrow> x = None"
  by (cases x) auto

interpretation clock_server: redis_clock clock_server cr_entries cr_now whole_seconds time_passes
  by unfold_locales (auto simp: clock_server_def time_passes_def advance_def no_pair split: option.split)

text \<open>A run of it as a list of actions; a request is named by its place among the holders.\<close>

datatype lease_action = LLock uuid | LGet nat | LFail nat | LStore nat string | LUnlock nat | LPass int

definition set_phase :: "nat \<Rightarrow> idem_phase \<Rightarrow> (uuid \<times> idem_phase \<times> int) list \<Rightarrow> (uuid \<times> idem_phase \<times> int) list" where
  "set_phase n p hs = take n hs @ (fst (hs ! n), p, snd (snd (hs ! n))) # drop (Suc n) hs"

fun lease_act :: "idem_opts \<Rightarrow> lease_action \<Rightarrow> clock_redis lease_run \<Rightarrow> clock_redis lease_run option" where
  "lease_act opts (LLock k) r =
     (if is_uuid k then
        (case Rueidis_Lock clock_server k (LockTTL opts) (lst r) of
           (res, s') \<Rightarrow> Some (r\<lparr>lst := s',
             holders := holders r @ (if res = None then [(k, PGet, cr_now (lst r) + whole_seconds (LockTTL opts))] else [])\<rparr>))
      else None)"
| "lease_act opts (LGet n) r =
     (if n < length (holders r) \<and> fst (snd (holders r ! n)) = PGet then
        (case Rueidis_Get clock_server (fst (holders r ! n)) (lst r) of
           (res, s') \<Rightarrow> Some (r\<lparr>lst := s', holders := set_phase n
             (case res of Inl e \<Rightarrow> if errors_Is e ErrIdempotentMissing then PRun else PUnlock | Inr v \<Rightarrow> PUnlock) (holders r)\<rparr>))
      else None)"
| "lease_act opts (LFail n) r =
     (if n < length (holders r) \<and> fst (snd (holders r ! n)) = PRun
      then Some (r\<lparr>holders := set_phase n PUnlock (holders r)\<rparr>) else None)"
| "lease_act opts (LStore n v) r =
     (if n < length (holders r) \<and> fst (snd (holders r ! n)) = PRun then
        (case Rueidis_Store clock_server (fst (holders r ! n)) (TTL opts) v (lst r) of
           (res, s') \<Rightarrow> Some (r\<lparr>lst := s', holders := set_phase n PUnlock (holders r),
             stored := stored r @ (if res = None then [(fst (holders r ! n), cr_now (lst r))] else [])\<rparr>))
      else None)"
| "lease_act opts (LUnlock n) r =
     (if n < length (holders r) \<and> fst (snd (holders r ! n)) = PUnlock then
        (case Rueidis_Unlock clock_server (fst (holders r ! n)) (lst r) of
           (res, s') \<Rightarrow> Some (r\<lparr>lst := s', holders := remove_nth n (holders r)\<rparr>))
      else None)"
| "lease_act opts (LPass d) r = (if 0 \<le> d then Some (r\<lparr>lst := advance d (lst r)\<rparr>) else None)"

fun lease_acts :: "(clock_redis lease_run \<Rightarrow> clock_redis \<Rightarrow> bool) \<Rightarrow> idem_opts \<Rightarrow> lease_action list \<Rightarrow> clock_redis lease_run \<Rightarrow>
    clock_redis lease_run option" where
  "lease_acts policy opts [] r = Some r"
| "lease_acts policy opts (a # as) r =
     (if case a of LPass d \<Rightarrow> policy r (advance d (lst r)) | _ \<Rightarrow> True
      then Option.bind (lease_act opts a r) (lease_acts policy opts as) else None)"

abbreviation clock_reach where
  "clock_reach \<equiv> lease_reach (rueidis_store clock_server) cr_now whole_seconds time_passes"

lemma holders_split:
  assumes "n < length hs" "fst (snd (hs ! n)) = p"
  shows "hs = take n hs @ (fst (hs ! n), p, snd (snd (hs ! n))) # drop (Suc n) hs"
  using id_take_nth_drop [OF assms(1)] assms(2) by (metis prod.collapse)

lemma lease_act_reach:
  assumes "clock_reach policy opts s0 r" "lease_act opts a r = Some r'"
    "\<And>d. a = LPass d \<Longrightarrow> policy r (advance d (lst r))"
  shows "clock_reach policy opts s0 r'"
proof (cases a)
  case (LLock k)
  then show ?thesis using assms(2) lease_lock [OF assms(1), of k]
    by (auto simp: rueidis_store_def split: if_splits prod.splits)
next
  case (LGet n)
  then have n: "n < length (holders r)" "fst (snd (holders r ! n)) = PGet" using assms(2) by (auto split: if_splits)
  show ?thesis using assms(2) LGet n lease_get [OF assms(1) holders_split [OF n]]
    by (auto simp: rueidis_store_def set_phase_def split: prod.splits)
next
  case (LFail n)
  then have n: "n < length (holders r)" "fst (snd (holders r ! n)) = PRun" using assms(2) by (auto split: if_splits)
  show ?thesis using assms(2) LFail n lease_fail [OF assms(1) holders_split [OF n]] by (auto simp: set_phase_def)
next
  case (LStore n v)
  then have n: "n < length (holders r)" "fst (snd (holders r ! n)) = PRun" using assms(2) by (auto split: if_splits)
  obtain res s' where s: "Rueidis_Store clock_server (fst (holders r ! n)) (TTL opts) v (lst r) = (res, s')" by fastforce
  have "r' = r\<lparr>lst := s', holders := set_phase n PUnlock (holders r),
      stored := stored r @ (if res = None then [(fst (holders r ! n), cr_now (lst r))] else [])\<rparr>"
    using assms(2) LStore n s by simp
  moreover have "st_Store (rueidis_store clock_server) (fst (holders r ! n)) (TTL opts) v (lst r) = (res, s')"
    using s by (simp add: rueidis_store_def)
  ultimately show ?thesis using lease_store [OF assms(1) holders_split [OF n]] unfolding set_phase_def by blast
next
  case (LUnlock n)
  then have n: "n < length (holders r)" "fst (snd (holders r ! n)) = PUnlock" using assms(2) by (auto split: if_splits)
  show ?thesis using assms(2) LUnlock n lease_unlock [OF assms(1) holders_split [OF n]]
    by (auto simp: rueidis_store_def remove_nth_def split: prod.splits)
next
  case (LPass d)
  then show ?thesis using assms(2) assms(3) [OF LPass] lease_pass [OF assms(1), of "advance d (lst r)"]
    by (auto simp: time_passes_def split: if_splits)
qed

lemma lease_acts_reach:
  "lease_acts policy opts as r = Some r' \<Longrightarrow> clock_reach policy opts s0 r \<Longrightarrow> clock_reach policy opts s0 r'"
proof (induction as arbitrary: r)
  case (Cons a as)
  then obtain q where q: "lease_act opts a r = Some q" "lease_acts policy opts as q = Some r'"
    and pol: "case a of LPass d \<Rightarrow> policy r (advance d (lst r)) | _ \<Rightarrow> True"
    by (auto split: if_splits bind_splits)
  have "clock_reach policy opts s0 q" by (rule lease_act_reach [OF Cons.prems(2) q(1)]) (use pol in simp)
  then show ?case using Cons.IH q(2) by blast
qed simp

section \<open>Properties\<close>

definition idle :: "clock_redis lease_run" where
  "idle = \<lparr>lst = \<lparr>cr_now = 0, cr_entries = Map.empty\<rparr>, holders = [], stored = []\<rparr>"

definition default_opts :: idem_opts where
  "default_opts = setIdempotentOptsDefaults \<lparr>SkipMissingKeys = None, TTL = 0, LockTTL = 0\<rparr>"

lemma idle_reach: "clock_reach policy opts \<lparr>cr_now = 0, cr_entries = Map.empty\<rparr> idle"
  unfolding idle_def by (rule lease_init)

lemma default_life [simp]: "whole_seconds (TTL default_opts) = 86400000000000" "whole_seconds (LockTTL default_opts) = 60000000000"
  by (simp_all add: default_opts_def setIdempotentOptsDefaults_def whole_seconds_def)

lemma demo_uuid [simp]: "is_uuid demo_key"
  by (simp add: demo_key_def is_uuid_def)

lemmas lease_run_defs = idle_def punctual_def advance_def unexpired_def Rueidis_Lock_def Rueidis_Get_def Rueidis_Store_def
  Rueidis_Unlock_def clock_server_def set_phase_def remove_nth_def lock_key_neq lock_key_neq [THEN not_sym]

text \<open>Property C4. As long as no request is past the lock when its lease ends, however requests are
  interleaved and whatever commands fail: no two requests of one key are past the lock together,
  two recorded runs of a key are at least the time apart for which a response is kept, and a handler
  runs only when all responses recorded for its key have expired.\<close>

theorem idempotent_lease:
  assumes "redis_clock c entry clock life pass"
    and "lease_reach (rueidis_store c) clock life pass (punctual clock) opts s0 r"
  shows "distinct (map fst (holders r)) \<and>
    (\<forall>i j. i < j \<and> j < length (stored r) \<and> fst (stored r ! i) = fst (stored r ! j) \<longrightarrow>
       snd (stored r ! i) + life (TTL opts) \<le> snd (stored r ! j)) \<and>
    (\<forall>k d i. (k, PRun, d) \<in> set (holders r) \<and> (k, i) \<in> set (stored r) \<longrightarrow> i + life (TTL opts) \<le> clock (lst r))"
proof (intro conjI allI impI)
  have inv: "lease_inv entry clock (life (TTL opts)) r" by (rule redis_clock.lease_reach_inv [OF assms])
  then show "distinct (map fst (holders r))" by (simp add: lease_inv_def)
  show "snd (stored r ! i) + life (TTL opts) \<le> snd (stored r ! j)"
    if "i < j \<and> j < length (stored r) \<and> fst (stored r ! i) = fst (stored r ! j)" for i j
    using inv that sorted_wrt_nth_less [of _ "stored r" i j] by (fastforce simp: lease_inv_def spaced_def case_prod_unfold)
  show "i + life (TTL opts) \<le> clock (lst r)" if "(k, PRun, d) \<in> set (holders r) \<and> (k, i) \<in> set (stored r)" for k d i
    using inv that by (fastforce simp: lease_inv_def list_all_iff leased_def kept_def)
qed

lemma idempotent_lease_witness:
  "\<exists>r. lease_acts (punctual cr_now) default_opts
     [LLock demo_key, LGet 0, LStore 0 ''ok'', LUnlock 0, LPass 86400000000000, LLock demo_key, LGet 0] idle = Some r \<and>
   holders r = [(demo_key, PRun, 86460000000000)] \<and> stored r = [(demo_key, 0)] \<and> 0 + 86400000000000 \<le> cr_now (lst r)"
proof -
  let ?as = "[LLock demo_key, LGet 0, LStore 0 ''ok'', LUnlock 0, LPass 86400000000000, LLock demo_key, LGet 0]"
  obtain r where r: "lease_acts (punctual cr_now) default_opts ?as idle = Some r" "holders r = [(demo_key, PRun, 86460000000000)]"
    "stored r = [(demo_key, 0)]"
    by (simp add: lease_run_defs)
  have "0 + whole_seconds (TTL default_opts) \<le> cr_now (lst r)"
    using idempotent_lease [OF clock_server.redis_clock_axioms lease_acts_reach [OF r(1) idle_reach]] r(2,3) by simp
  then show ?thesis using r by simp
qed



end
