(* ===== verification/Http_Server.thy ===== *)
theory Http_Server
  imports Go_Text
begin

text \<open>
  \<open>http/http.go\<close>, \<open>http/validation/\<close>, \<open>http/httperrors/\<close> and \<open>http/handlers/\<close>: the typed handler
  wrapped by \<open>Register\<close>, the mapping of errors to replies, the error handler, the operations of the
  OpenAPI schema and the server's start and stop. Echo's binder, the validator library, the schema
  reflector and the JSON encoder are parameters; a reply is the call made on the echo context.
\<close>

section \<open>Errors of the package httperrors\<close>

definition ErrRequiredField :: go_error where
  "ErrRequiredField = EWrap (sentinel_text ErrValidation @ '': required field'') (ESentinel ErrValidation)"

definition ErrNotEqual :: go_error where
  "ErrNotEqual = EWrap (sentinel_text ErrValidation @ '': fileds must match'') (ESentinel ErrValidation)"

section \<open>Validation\<close>

text \<open>A \<open>*ValidationError\<close> is its Go map, kept as an association list with one entry per field.\<close>

definition Build :: "(string \<times> string) list" where
  "Build = []"

definition With :: "string \<Rightarrow> string \<Rightarrow> (string \<times> string) list \<Rightarrow> (string \<times> string) list" where
  "With field message v =
     (if map_of v field = None then v @ [(field, message)]
      else map (\<lambda>p. if fst p = field then (field, message) else p) v)"

text \<open>What the validator library says of a struct: valid, invalid fields with their tags, or an
  error of its own (the request is not a struct). \<open>nil_req\<close> says the request is a nil interface.\<close>

datatype validator_result = VValid | VInvalid "(string \<times> string) list" | VFailed go_error

definition Validate :: "bool \<Rightarrow> validator_result \<Rightarrow> go_error option" where
  "Validate nil_req res =
     (if nil_req then None
      else case res of
        VValid \<Rightarrow> None
      | VFailed err \<Rightarrow> Some err
      | VInvalid vErr \<Rightarrow>
          if vErr = [] then None
          else Some (EValidation (foldl (\<lambda>out (f, t). With f t out) Build vErr)))"

section \<open>The mapping of errors\<close>

datatype payload =
    PHTTPError nat string | PMessage string | PValidation "(string \<times> string) list" | PCustom string | PNil

definition NewError :: "string \<Rightarrow> payload" where
  "NewError msg = PMessage msg"

fun as_http_error :: "go_error \<Rightarrow> (nat \<times> string) option" where
  "as_http_error (EHTTP c m) = Some (c, m)"
| "as_http_error _ = None"

fun as_validation :: "go_error \<Rightarrow> (string \<times> string) list option" where
  "as_validation (EValidation fs) = Some fs"
| "as_validation _ = None"

fun as_pg :: "go_error \<Rightarrow> string option" where
  "as_pg (EPg code m) = Some code"
| "as_pg _ = None"

definition asPgError :: "go_error \<Rightarrow> string option" where
  "asPgError err = errors_As as_pg err"

type_synonym error_handler = "go_error \<Rightarrow> (nat \<times> payload) option"

fun run_handlers :: "error_handler list \<Rightarrow> go_error \<Rightarrow> (nat \<times> payload) option" where
  "run_handlers [] err = None"
| "run_handlers (h # hs) err = (case h err of Some r \<Rightarrow> Some r | None \<Rightarrow> run_handlers hs err)"

definition getErrorCodeAndResponse :: "error_handler list \<Rightarrow> go_error \<Rightarrow> nat \<times> payload \<times> bool" where
  "getErrorCodeAndResponse handleErrors err =
     (case errors_As as_http_error err of
        Some (code, m) \<Rightarrow> (code, PHTTPError code m, True)
      | None \<Rightarrow>
      (case run_handlers handleErrors err of
        Some (code, resp) \<Rightarrow> (code, resp, True)
      | None \<Rightarrow>
      if errors_Is err PgxErrNoRows then (404, NewError ''not found'', True)
      else if errors_Is err SqlErrNoRows then (404, NewError ''not found'', True)
      else if errors_Is err GormErrRecordNotFound then (404, NewError ''not found'', True)
      else if errors_Is err ErrValidation then (422, NewError (error_text err), True)
      else if errors_Is err ErrBadRequest then (400, NewError (error_text err), True)
      else if errors_Is err ErrUnauth then (401, NewError (error_text err), True)
      else if errors_Is err ErrForbidden then (403, NewError ''fobidden'', True)
      else if errors_Is err ErrNotFound then (404, NewError ''not found'', True)
      else
      (case errors_As as_validation err of
        Some fs \<Rightarrow> (422, PValidation fs, True)
      | None \<Rightarrow>
      (case asPgError err of
        Some code \<Rightarrow>
          if code = ''23505'' then (422, NewError ''a record with the same details already exists'', True)
          else (503, PNil, False)
      | None \<Rightarrow> (503, PNil, False)))))"

section \<open>The wrapped handler\<close>

datatype response_kind = KindString | KindJSON

record auth =
  auth_Enabled :: bool
  auth_Name :: string
  auth_Scopes :: "string list"

record metadata =
  md_Name :: string
  md_Description :: string
  md_Tag :: string
  md_ID :: "string option"
  md_Code :: nat
  md_Method :: string
  md_Path :: string
  md_GenerateSpec :: bool
  md_Kind :: response_kind
  md_Auths :: "auth list"
  md_AuthOptional :: bool
  md_SkipValidation :: bool

text \<open>What the handler does to the context: one reply, or an error for the error handler.\<close>

datatype 'r reply = JSONError nat payload | JSONReply nat 'r | StringReply nat string | NoContent nat | Fails go_error

text \<open>\<open>bound\<close> is the result of the binder, \<open>valid\<close> that of \<open>Validate\<close>; \<open>handler\<close> returns the
  response and the error. The second component says whether the handler was called.\<close>

definition wrapHandler ::
    "error_handler list \<Rightarrow> metadata \<Rightarrow> (go_error + 'q) \<Rightarrow> ('q \<Rightarrow> go_error option) \<Rightarrow> ('q \<Rightarrow> 'r option \<times> go_error option) \<Rightarrow>
     ('r \<Rightarrow> string) \<Rightarrow> 'r reply \<times> bool" where
  "wrapHandler hs md bound valid handler sprint =
     (case bound of
        Inl err \<Rightarrow> (Fails (ESentinel ErrBadRequest), False)
      | Inr req \<Rightarrow>
          (case (if \<not> md_SkipValidation md then valid req else None) of
             Some err \<Rightarrow> (case getErrorCodeAndResponse hs err of (code, resp, _) \<Rightarrow> (JSONError code resp, False))
           | None \<Rightarrow>
               (case handler req of
                  (_, Some err) \<Rightarrow>
                    (case getErrorCodeAndResponse hs err of
                       (code, resp, handled) \<Rightarrow> if handled then (JSONError code resp, True) else (Fails err, True))
                | (None, None) \<Rightarrow> (NoContent (md_Code md), True)
                | (Some resp, None) \<Rightarrow>
                    (case md_Kind md of
                       KindString \<Rightarrow> (StringReply (md_Code md) (sprint resp), True)
                     | KindJSON \<Rightarrow> (JSONReply (md_Code md) resp, True)))))"

section \<open>The error handler\<close>

text \<open>What \<open>handleError\<close> does: nothing, a JSON reply, or echo's default handler after logging and
  reporting what is not an HTTP error (\<open>status_coder\<close> is \<open>isHTTPError\<close>).\<close>

datatype error_action = Ignored | WritesJSON nat payload | DefaultHandler "go_error option"

definition handleError ::
    "error_handler list \<Rightarrow> (go_error \<Rightarrow> bool) \<Rightarrow> bool \<Rightarrow> go_error option \<Rightarrow> error_action" where
  "handleError hs status_coder committed err =
     (case err of
        None \<Rightarrow> Ignored
      | Some e \<Rightarrow>
          if committed then Ignored
          else case getErrorCodeAndResponse hs e of
            (code, resp, handled) \<Rightarrow>
              if handled then WritesJSON code resp
              else DefaultHandler (if \<not> status_coder e then Some e else None))"

section \<open>Paths\<close>

definition is_param_char :: "char \<Rightarrow> bool" where
  "is_param_char c \<longleftrightarrow>
     (let n = (of_char c :: nat)
      in 65 \<le> n \<and> n \<le> 90 \<or> 97 \<le> n \<and> n \<le> 122 \<or> 48 \<le> n \<and> n \<le> 57 \<or> n = 45 \<or> n = 95)"

definition replaceParams :: "string \<Rightarrow> string" where
  "replaceParams path =
     foldl (\<lambda>p match. replace_all match (''{'' @ replace_all '':'' '''' match @ ''}'') p) path
       (find_prefixed_runs (CHR '':'') is_param_char path)"

section \<open>The schema's operations\<close>

record operation =
  op_Method :: string
  op_Path :: string
  op_ID :: "string option"
  op_Tag :: string
  op_Summary :: string
  op_Description :: "string option"
  op_Statuses :: "nat list"
  op_Security :: "(string \<times> string list) option list"

text \<open>\<open>buildSchema\<close>; an empty security requirement is \<open>None\<close>. \<open>reflector\<close> is the library's check of
  the operation.\<close>

definition buildSchema :: "bool \<Rightarrow> (operation \<Rightarrow> go_error option) \<Rightarrow> metadata \<Rightarrow> operation list \<Rightarrow> go_error + operation list" where
  "buildSchema authEnabled reflector md spec =
     (let o0 = \<lparr>op_Method = md_Method md, op_Path = replaceParams (md_Path md), op_ID = md_ID md, op_Tag = md_Tag md,
                op_Summary = md_Name md, op_Description = (if md_Description md \<noteq> '''' then Some (md_Description md) else None),
                op_Statuses = [md_Code md, 422, 404, 401, 403], op_Security = []\<rparr>;
          o1 = (if authEnabled
                then o0\<lparr>op_Security := map (\<lambda>a. Some (auth_Name a, auth_Scopes a)) (filter auth_Enabled (md_Auths md)) @
                          (if md_AuthOptional md then [None] else [])\<rparr>
                else o0)
      in case reflector o1 of Some err \<Rightarrow> Inl err | None \<Rightarrow> Inr (spec @ [o1]))"

section \<open>The server\<close>

record http_server =
  routes :: "(string \<times> string) list"
  spec :: "operation list"
  handle_errors :: "error_handler list"
  openapi_enabled :: bool
  auth_enabled :: bool
  http_port :: nat
  running :: bool
  stopping :: bool

record auth_config =
  ac_Enabled :: bool
  ac_Name :: string
  ac_Format :: string
  ac_Description :: string

text \<open>The document of the reflector: its information and servers, the security schemes by name, and the
  schemas by which Go types are described.\<close>

record type_schema =
  ts_Type :: string
  ts_Format :: "string option"
  ts_Examples :: "string list"
  ts_Title :: string

record openapi_doc =
  doc_Title :: string
  doc_Version :: string
  doc_Servers :: "string list"
  doc_Security :: "string \<Rightarrow> (string \<times> string) option"
  doc_Types :: "string \<Rightarrow> type_schema option"

definition addSpecTypes :: "openapi_doc \<Rightarrow> openapi_doc" where
  "addSpecTypes r =
     r\<lparr>doc_Types := (doc_Types r)
        (''uuid.UUID'' \<mapsto> \<lparr>ts_Type = ''string'', ts_Format = Some ''uuid'',
           ts_Examples = [''01972d8a-8038-7523-abb5-48a2bc60bedc''], ts_Title = ''UUID''\<rparr>,
         ''duration.StringDuration'' \<mapsto> \<lparr>ts_Type = ''string'', ts_Format = None,
           ts_Examples = [''1s'', ''1m'', ''1h'', ''1d'', ''23h4m2s''], ts_Title = ''String duration''\<rparr>)\<rparr>"

record http_opts =
  ho_Port :: nat
  ho_Openapi :: bool
  ho_ServiceName :: string
  ho_ServiceVersion :: string
  ho_PublicURL :: string
  ho_AuthConfig :: "auth_config list"
  ho_SpecMutations :: "(openapi_doc \<Rightarrow> openapi_doc) list"

definition New_HTTP :: "http_opts \<Rightarrow> http_server \<times> openapi_doc" where
  "New_HTTP opts =
     (let r0 = \<lparr>doc_Title = ho_ServiceName opts, doc_Version = ho_ServiceVersion opts, doc_Servers = [ho_PublicURL opts],
                doc_Security = Map.empty, doc_Types = Map.empty\<rparr>;
          r1 = foldl (\<lambda>r b. r\<lparr>doc_Security := (doc_Security r)(ac_Name b \<mapsto> (ac_Format b, ac_Description b))\<rparr>) r0 (ho_AuthConfig opts);
          r2 = foldl (\<lambda>r m. m r) r1 (ho_SpecMutations opts @ [addSpecTypes])
      in (\<lparr>routes = (if ho_Openapi opts then [(''GET'', ''/docs/*'')] else []), spec = [], handle_errors = [],
           openapi_enabled = ho_Openapi opts, auth_enabled = 0 < length (ho_AuthConfig opts), http_port = ho_Port opts,
           running = False, stopping = False\<rparr>, r2))"

definition HandleErrors :: "error_handler list \<Rightarrow> http_server \<Rightarrow> http_server" where
  "HandleErrors funcs h = h\<lparr>handle_errors := handle_errors h @ funcs\<rparr>"

definition valid_methods :: "string list" where
  "valid_methods = [''GET'', ''POST'', ''PATCH'', ''DELETE'', ''PUT'', ''HEAD'', ''OPTIONS'']"

definition Register :: "(operation \<Rightarrow> go_error option) \<Rightarrow> metadata \<Rightarrow> http_server \<Rightarrow> http_server outcome" where
  "Register reflector md h =
     (if md_Method md \<notin> set valid_methods then Panic ''invalid http method registered''
      else
        let h1 = h\<lparr>routes := routes h @ [(md_Method md, md_Path md)]\<rparr>
        in if md_GenerateSpec md
           then (case buildSchema (auth_enabled h1) reflector md (spec h1) of
                   Inl err \<Rightarrow> Panic (error_text (wrapf ''invalid openapi spec'' err))
                 | Inr s \<Rightarrow> Ret (h1\<lparr>spec := s\<rparr>))
           else Ret h1)"

text \<open>The handler of the schema document, registered by \<open>Start\<close>.\<close>

definition schema_metadata :: metadata where
  "schema_metadata =
     \<lparr>md_Name = ''Openapi schema'', md_Description = '''', md_Tag = '''', md_ID = None, md_Code = 200, md_Method = ''GET'',
      md_Path = ''/docs/schema.yaml'', md_GenerateSpec = False, md_Kind = KindString, md_Auths = [], md_AuthOptional = False,
      md_SkipValidation = False\<rparr>"

text \<open>\<open>Start\<close> up to the call that serves, and its result from that call's.\<close>

definition Start_begin :: "(operation list \<Rightarrow> go_error + string) \<Rightarrow> (operation \<Rightarrow> go_error option) \<Rightarrow> http_server \<Rightarrow>
    (go_error + http_server) outcome" where
  "Start_begin marshalYAML reflector h =
     (if openapi_enabled h
      then (case marshalYAML (spec h) of
              Inl err \<Rightarrow> Ret (Inl (wrapf ''could not marshal openapi spec'' err))
            | Inr schema \<Rightarrow>
                (case Register reflector schema_metadata h of
                   Panic m \<Rightarrow> Panic m
                 | Ret h' \<Rightarrow> Ret (Inr (h'\<lparr>running := True, stopping := False\<rparr>))))
      else Ret (Inr (h\<lparr>running := True, stopping := False\<rparr>)))"

definition Start_end :: "go_error option \<Rightarrow> go_error option" where
  "Start_end served =
     (case served of
        None \<Rightarrow> None
      | Some err \<Rightarrow> if \<not> errors_Is err ErrServerClosed then Some err else None)"

text \<open>\<open>Stop\<close>: \<open>done_first\<close> says that \<open>Start\<close> returned before the given context ended.\<close>

definition Stop :: "bool \<Rightarrow> go_error \<Rightarrow> http_server \<Rightarrow> go_error option \<times> http_server" where
  "Stop done_first ctx_err h =
     (if \<not> running h then (None, h)
      else (if done_first then None else Some ctx_err, h\<lparr>stopping := True\<rparr>))"

section \<open>The documentation page\<close>

text \<open>\<open>html.EscapeString\<close> and the page of \<open>docs/swagger.go\<close>.\<close>

fun html_escape :: "string \<Rightarrow> string" where
  "html_escape [] = []"
| "html_escape (c # s) =
     (if c = CHR ''&'' then ''&amp;''
      else if c = CHR 0x27 then ''&#39;''
      else if c = CHR ''<'' then ''&lt;''
      else if c = CHR ''>'' then ''&gt;''
      else if c = CHR 0x22 then ''&#34;''
      else [c]) @ html_escape s"

definition schemaURL :: "string \<Rightarrow> string" where
  "schemaURL url = html_escape (url @ ''/docs/schema.yaml'')"

definition schema_attribute :: "string \<Rightarrow> string" where
  "schema_attribute url = ''data-url='' @ [CHR 0x22] @ schemaURL url @ [CHR 0x22]"

section \<open>Lemmas\<close>

lemma errors_As_wrapf:
  assumes "\<And>m e. sel (EWrap m e) = None"
  shows "errors_As sel (wrapf p err) = errors_As sel err"
  by (simp add: wrapf_def assms)

lemma as_wrap [simp]:
  "errors_As as_http_error (wrapf p err) = errors_As as_http_error err"
  "errors_As as_validation (wrapf p err) = errors_As as_validation err"
  "errors_As as_pg (wrapf p err) = errors_As as_pg err"
  by (rule errors_As_wrapf, simp)+

lemma run_handlers_append:
  "run_handlers (xs @ ys) err = (case run_handlers xs err of Some r \<Rightarrow> Some r | None \<Rightarrow> run_handlers ys err)"
  by (induction xs) (auto split: option.splits)

section \<open>Properties\<close>

text \<open>Wrapping an error never changes how it is answered: the status and the fact that
  it is handled are those of the error inside, when the registered handlers look through wrappers
  too.\<close>

theorem error_status_stable:
  assumes "\<And>h p e. h \<in> set hs \<Longrightarrow> map_option fst (h (wrapf p e)) = map_option fst (h e)"
  shows "fst (getErrorCodeAndResponse hs (wrapf p err)) = fst (getErrorCodeAndResponse hs err) \<and>
    snd (snd (getErrorCodeAndResponse hs (wrapf p err))) = snd (snd (getErrorCodeAndResponse hs err))"
proof -
  have "map_option fst (run_handlers hs (wrapf p err)) = map_option fst (run_handlers hs err)"
    using assms
  proof (induction hs)
    case (Cons h hs)
    have "map_option fst (h (wrapf p err)) = map_option fst (h err)" using Cons.prems by simp
    moreover have "map_option fst (run_handlers hs (wrapf p err)) = map_option fst (run_handlers hs err)"
      using Cons by simp
    ultimately show ?case by (cases "h err"; cases "h (wrapf p err)") auto
  qed simp
  then show ?thesis
    by (cases "errors_As as_http_error err"; cases "run_handlers hs err"; cases "run_handlers hs (wrapf p err)";
        cases "errors_As as_validation err")
      (simp_all add: getErrorCodeAndResponse_def asPgError_def NewError_def case_prod_unfold)
qed

lemma error_status_stable_witness:
  "fst (getErrorCodeAndResponse [\<lambda>e. if errors_Is e DeadlineExceeded then Some (402, PNil) else None]
     (wrapf ''load'' (wrapf ''user'' (ESentinel ErrNotFound)))) = 404"
  by (subst conjunct1 [OF error_status_stable], simp)
    (subst conjunct1 [OF error_status_stable], simp, simp add: getErrorCodeAndResponse_def asPgError_def)

text \<open>Property C24. An HTTP error answers with its own code before any registered handler is asked;
  otherwise the first registered handler that accepts the error decides, before the built-in table;
  and an error that nothing knows is not handled.\<close>

theorem error_precedence:
  "(errors_As as_http_error err = Some (c, m) \<longrightarrow> getErrorCodeAndResponse hs err = (c, PHTTPError c m, True)) \<and>
   (errors_As as_http_error err = None \<and> run_handlers xs err = None \<and> h err = Some (code, resp) \<longrightarrow>
      getErrorCodeAndResponse (xs @ h # ys) err = (code, resp, True)) \<and>
   (errors_As as_http_error err = None \<and> run_handlers hs err = None \<and> errors_As as_validation err = None \<and>
    asPgError err \<noteq> Some ''23505'' \<and>
    (\<forall>t \<in> {PgxErrNoRows, SqlErrNoRows, GormErrRecordNotFound, ErrValidation, ErrBadRequest, ErrUnauth, ErrForbidden, ErrNotFound}.
       \<not> errors_Is err t) \<longrightarrow> getErrorCodeAndResponse hs err = (503, PNil, False))"
  by (auto simp: getErrorCodeAndResponse_def run_handlers_append split: option.split)

lemma error_precedence_witness:
  "getErrorCodeAndResponse [] (EWrap ''x'' (EHTTP 418 ''tea'')) = (418, PHTTPError 418 ''tea'', True) \<and>
   getErrorCodeAndResponse ([] @ (\<lambda>e. Some (402, PNil)) # []) (ESentinel ErrNotFound) = (402, PNil, True) \<and>
   getErrorCodeAndResponse [] (EOther ''boom'') = (503, PNil, False)"
  using error_precedence [of "EWrap ''x'' (EHTTP 418 ''tea'')" 418 "''tea''" "[]" "[]" "\<lambda>e. None"]
    error_precedence [of "ESentinel ErrNotFound" 418 "''tea''" "[]" "[]" "\<lambda>e. Some (402, PNil)" 402 PNil "[]"]
    error_precedence [of "EOther ''boom''" 418 "''tea''" "[]" "[]" "\<lambda>e. None"]
  by (simp add: asPgError_def)

text \<open>Property C23. The handler runs exactly when the request was bound and, unless the metadata
  skips validation, is valid; the README says that it is invoked even when validation failed. An
  invalid request is answered without it: by the first handler registered with \<open>HandleErrors\<close> that
  takes the validation error, and with its fields and status 422 when none does.\<close>

theorem handler_runs_only_on_valid:
  "(snd (wrapHandler hs md bound valid handler sprint) \<longleftrightarrow>
     (\<exists>req. bound = Inr req \<and> (md_SkipValidation md \<or> valid req = None))) \<and>
   (\<forall>req fs. bound = Inr req \<and> \<not> md_SkipValidation md \<and> valid req = Some (EValidation fs) \<longrightarrow>
      wrapHandler hs md bound valid handler sprint =
        (case run_handlers hs (EValidation fs) of
           Some (code, p) \<Rightarrow> (JSONError code p, False)
         | None \<Rightarrow> (JSONError 422 (PValidation fs), False)))"
proof (rule conjI)
  have run: "snd (case handler req of
      (_, Some err) \<Rightarrow> (case getErrorCodeAndResponse hs err of
         (code, resp, handled) \<Rightarrow> if handled then (JSONError code resp, True) else (Fails err, True))
    | (None, None) \<Rightarrow> (NoContent (md_Code md), True)
    | (Some resp, None) \<Rightarrow> (case md_Kind md of KindString \<Rightarrow> (StringReply (md_Code md) (sprint resp), True)
        | KindJSON \<Rightarrow> (JSONReply (md_Code md) resp, True)))" for req
    by (cases "handler req"; cases "fst (handler req)"; cases "snd (handler req)")
      (auto split: prod.splits response_kind.splits)
  show "snd (wrapHandler hs md bound valid handler sprint) \<longleftrightarrow>
     (\<exists>req. bound = Inr req \<and> (md_SkipValidation md \<or> valid req = None))"
  proof (cases bound)
    case (Inr req)
    show ?thesis
    proof (cases "if \<not> md_SkipValidation md then valid req else None")
      case None
      then show ?thesis unfolding wrapHandler_def Inr sum.case None option.case using run [of req] None
        by (auto split: if_splits)
    next
      case (Some err)
      then show ?thesis unfolding wrapHandler_def Inr sum.case Some option.case using Some
        by (auto split: if_splits prod.splits)
    qed
  qed (simp add: wrapHandler_def)
qed (auto simp: wrapHandler_def getErrorCodeAndResponse_def split: option.split)

lemma handler_runs_only_on_valid_witness:
  "wrapHandler [] (schema_metadata\<lparr>md_Path := ''/ping''\<rparr>) (Inr (1 :: nat)) (\<lambda>_. Some (EValidation [(''name'', ''required'')]))
     (\<lambda>q. (Some q, None)) (\<lambda>_. ''1'') = (JSONError 422 (PValidation [(''name'', ''required'')]), False)"
  using handler_runs_only_on_valid [of "[]" "schema_metadata\<lparr>md_Path := ''/ping''\<rparr>" "Inr (1 :: nat)"
      "\<lambda>_. Some (EValidation [(''name'', ''required'')])" "\<lambda>q. (Some q, None)" "\<lambda>_. ''1''"]
  by (simp add: schema_metadata_def)

text \<open>A request type that the validator cannot check (it is not a struct) is answered
  with status 503 and the body \<open>null\<close> on every request, although neither the client nor a
  service is at fault, and the error is neither logged nor reported.\<close>

theorem unvalidatable_request_is_503:
  assumes "\<not> md_SkipValidation md" "run_handlers hs (EOther m) = None"
  shows "wrapHandler hs md (Inr req) (\<lambda>_. Validate False (VFailed (EOther m))) handler sprint = (JSONError 503 PNil, False)"
  using assms by (simp add: wrapHandler_def getErrorCodeAndResponse_def asPgError_def Validate_def)

lemma unvalidatable_request_is_503_witness:
  "wrapHandler [] schema_metadata (Inr [(''a'', ''b'')]) (\<lambda>_. Validate False (VFailed (EOther ''validator: (nil *map)'')))
     (\<lambda>q. (Some q, None)) (\<lambda>_. '''') = (JSONError 503 PNil, False)"
  by (rule unvalidatable_request_is_503) (simp_all add: schema_metadata_def)

text \<open>An error that a handler returns is answered once: either the wrapper writes its
  JSON reply, or it passes on an error that the error handler then gives to echo's default handler,
  reporting it unless it carries a status, and never writes itself.\<close>

theorem handler_error_answered_once:
  assumes "handler req = (r, Some err)" "md_SkipValidation md"
  shows "(\<exists>code resp. wrapHandler hs md (Inr req) valid handler sprint = (JSONError code resp, True) \<and>
      getErrorCodeAndResponse hs err = (code, resp, True)) \<or>
    wrapHandler hs md (Inr req) valid handler sprint = (Fails err, True) \<and>
      handleError hs status_coder False (Some err) = DefaultHandler (if status_coder err then None else Some err)"
  using assms by (cases r) (auto simp: wrapHandler_def handleError_def split: prod.split)

lemma handler_error_answered_once_witness:
  "wrapHandler [] (schema_metadata\<lparr>md_SkipValidation := True\<rparr>) (Inr (1 :: nat)) (\<lambda>_. None)
     (\<lambda>_. (None :: nat option, Some (EOther ''boom''))) (\<lambda>_. '''') = (Fails (EOther ''boom''), True) \<and>
   handleError [] (\<lambda>_. False) False (Some (EOther ''boom'')) = DefaultHandler (Some (EOther ''boom''))"
  using handler_error_answered_once [of "\<lambda>_. (None :: nat option, Some (EOther ''boom''))" "1 :: nat" None "EOther ''boom''"
      "schema_metadata\<lparr>md_SkipValidation := True\<rparr>" "[]" "\<lambda>_. None" "\<lambda>_. ''''" "\<lambda>_. False"]
  by (simp add: getErrorCodeAndResponse_def asPgError_def)

section \<open>Path parameters\<close>

text \<open>A path as its author sees it: literal text and parameters.\<close>

datatype piece = Lit string | Par string

fun render :: "piece list \<Rightarrow> string" where
  "render [] = ''''"
| "render (Lit s # ps) = s @ render ps"
| "render (Par n # ps) = CHR '':'' # n @ render ps"

fun braced :: "piece list \<Rightarrow> string" where
  "braced [] = ''''"
| "braced (Lit s # ps) = s @ braced ps"
| "braced (Par n # ps) = ''{'' @ n @ ''}'' @ braced ps"

definition starts_free :: "string \<Rightarrow> bool" where
  "starts_free s \<longleftrightarrow> s = [] \<or> \<not> is_param_char (hd s)"

text \<open>Literal text has no colon, a parameter has a name, and the text after it does not continue it.\<close>

fun wf_path :: "piece list \<Rightarrow> bool" where
  "wf_path [] = True"
| "wf_path (Lit s # ps) = (CHR '':'' \<notin> set s \<and> wf_path ps)"
| "wf_path (Par n # ps) = (n \<noteq> [] \<and> list_all is_param_char n \<and> starts_free (render ps) \<and> wf_path ps)"

fun params :: "piece list \<Rightarrow> string list" where
  "params [] = []"
| "params (Lit s # ps) = params ps"
| "params (Par n # ps) = n # params ps"

definition put :: "string \<Rightarrow> piece \<Rightarrow> piece" where
  "put n p = (if p = Par n then Lit (''{'' @ n @ ''}'') else p)"

lemma put_simps [simp]:
  "put n (Lit s) = Lit s" "put n (Par m) = (if m = n then Lit (''{'' @ n @ ''}'') else Par m)"
  by (auto simp: put_def)

lemma colon_not_param [simp]: "\<not> is_param_char (CHR '':'')" "\<not> is_param_char (CHR ''{'')"
  by (simp_all add: is_param_char_def)

lemma takeWhile_param: "list_all is_param_char n \<Longrightarrow> starts_free s \<Longrightarrow> takeWhile is_param_char (n @ s) = n"
  by (induction n) (auto simp: starts_free_def takeWhile_eq_Nil_iff)

lemma find_skip: "CHR '':'' \<notin> set s \<Longrightarrow> find_prefixed_runs (CHR '':'') cl (s @ t) = find_prefixed_runs (CHR '':'') cl t"
  by (induction s) auto

lemma no_colon: "list_all is_param_char n \<Longrightarrow> CHR '':'' \<notin> set n"
  by (induction n) auto

lemma find_params: "wf_path ps \<Longrightarrow> find_prefixed_runs (CHR '':'') is_param_char (render ps) = map (Cons (CHR '':'')) (params ps)"
proof (induction ps rule: render.induct)
  case (3 n ps)
  have "takeWhile is_param_char (n @ render ps) = n" using 3 by (intro takeWhile_param) simp_all
  then show ?case using 3 by (simp add: find_skip no_colon)
qed (simp_all add: find_skip)

lemma replace_skip: "CHR '':'' \<notin> set s \<Longrightarrow> replace_all (CHR '':'' # n) new (s @ t) = s @ replace_all (CHR '':'' # n) new t"
  by (induction s) auto

lemma prefix_of_param:
  assumes "list_all is_param_char n" "list_all is_param_char m" "starts_free s" "m @ s = n @ r"
  shows "\<exists>k. m = n @ k \<and> r = k @ s"
  using assms(1,2,4)
proof (induction n arbitrary: m)
  case (Cons x n)
  show ?case
  proof (cases m)
    case Nil
    then have "s = x # n @ r" using Cons.prems by simp
    then show ?thesis using assms(3) Cons.prems(1) by (simp add: starts_free_def)
  next
    case (Cons y m')
    then show ?thesis using Cons.IH [of m'] Cons.prems by auto
  qed
qed simp

lemma starts_free_put: "starts_free (render ps) \<Longrightarrow> starts_free (render (map (put n) ps))"
proof (induction ps rule: render.induct)
  case (2 s ps)
  then show ?case by (cases s) (simp_all add: starts_free_def)
qed (simp_all add: starts_free_def)

lemma replace_step:
  assumes "wf_path ps" "n \<noteq> []" "list_all is_param_char n" "\<forall>m \<in> set (params ps). m \<noteq> n \<longrightarrow> strip_prefix n m = None"
  shows "replace_all (CHR '':'' # n) (''{'' @ n @ ''}'') (render ps) = render (map (put n) ps)"
  using assms(1,4)
proof (induction ps rule: render.induct)
  case (2 s ps)
  then show ?case by (simp add: replace_skip)
next
  case (3 m ps)
  have m: "list_all is_param_char m" "starts_free (render ps)" using 3 by simp_all
  have IH: "replace_all (CHR '':'' # n) (''{'' @ n @ ''}'') (render ps) = render (map (put n) ps)" using 3 by simp
  show ?case
  proof (cases "m = n")
    case True
    then show ?thesis using IH by simp
  next
    case False
    have "strip_prefix n (m @ render ps) = None"
    proof (rule ccontr)
      assume "strip_prefix n (m @ render ps) \<noteq> None"
      then obtain r where "m @ render ps = n @ r" by (auto simp: strip_prefix_Some)
      then obtain k where "m = n @ k" using prefix_of_param [OF assms(3) m] by blast
      then show False using 3(3) False by simp
    qed
    then show ?thesis using IH False by (simp add: replace_skip no_colon m(1))
  qed
qed simp

lemma wf_put: "wf_path ps \<Longrightarrow> CHR '':'' \<notin> set n \<Longrightarrow> wf_path (map (put n) ps)"
proof (induction ps rule: render.induct)
  case (3 m ps)
  then show ?case by (auto simp: starts_free_put)
qed simp_all

lemma params_put: "params (map (put n) ps) = filter (\<lambda>m. m \<noteq> n) (params ps)"
  by (induction ps rule: render.induct) simp_all

lemma braced_put: "braced (map (put n) ps) = braced ps"
  by (induction ps rule: render.induct) simp_all

lemma braced_lits: "params ps = [] \<Longrightarrow> render ps = braced ps"
  by (induction ps rule: render.induct) simp_all

lemma strip_colon: "CHR '':'' \<notin> set n \<Longrightarrow> replace_all '':'' '''' (CHR '':'' # n) = n"
  using replace_all_none [of "CHR '':''" n "[]" "''''"] by simp

section \<open>Properties of paths and the schema\<close>

text \<open>Property C26. The schema's path puts every parameter of the route in braces, when no parameter's
  name is the beginning of another one's.\<close>

theorem replaceParams_correct:
  assumes "wf_path ps" "\<forall>n \<in> set (params ps). \<forall>m \<in> set (params ps). m \<noteq> n \<longrightarrow> strip_prefix n m = None"
  shows "replaceParams (render ps) = braced ps"
proof -
  have "foldl (\<lambda>p match. replace_all match (''{'' @ replace_all '':'' '''' match @ ''}'') p) (render ps) (map (Cons (CHR '':'')) ns) = braced ps"
    if "wf_path ps" "\<forall>n \<in> set ns. n \<noteq> [] \<and> list_all is_param_char n \<and> (\<forall>m \<in> set (params ps). m \<noteq> n \<longrightarrow> strip_prefix n m = None)"
      "set (params ps) \<subseteq> set ns" for ps ns
    using that
  proof (induction ns arbitrary: ps)
    case Nil
    then show ?case by (simp add: braced_lits)
  next
    case (Cons n ns)
    have n: "n \<noteq> []" "list_all is_param_char n" "\<forall>m \<in> set (params ps). m \<noteq> n \<longrightarrow> strip_prefix n m = None"
      using Cons.prems by simp_all
    have "foldl (\<lambda>p match. replace_all match (''{'' @ replace_all '':'' '''' match @ ''}'') p) (render (map (put n) ps))
        (map (Cons (CHR '':'')) ns) = braced (map (put n) ps)"
      by (rule Cons.IH) (use Cons.prems in \<open>auto simp: wf_put no_colon params_put\<close>)
    then show ?case
      by (simp only: list.map foldl_Cons strip_colon [OF no_colon [OF n(2)]] replace_step [OF Cons.prems(1) n] braced_put)
  qed
  moreover have "n \<noteq> [] \<and> list_all is_param_char n" if "wf_path ps" "n \<in> set (params ps)" for n
    using that by (induction ps rule: render.induct) auto
  ultimately show ?thesis using assms by (simp add: replaceParams_def find_params)
qed

lemma replaceParams_correct_witness:
  "replaceParams ''/user/:id/post/:slug'' = ''/user/{id}/post/{slug}''"
  using replaceParams_correct [of "[Lit ''/user/'', Par ''id'', Lit ''/post/'', Par ''slug'']"]
  by (simp add: is_param_char_def starts_free_def)

text \<open>When one parameter's name begins with another's, the schema's path is wrong: the
  longer one is cut in two and its name is lost.\<close>

theorem replaceParams_prefix:
  "replaceParams ''/user/:id/post/:id2'' = ''/user/{id}/post/{id}2''"
  by code_simp

text \<open>The registrations of a list of handlers, in order.\<close>

fun register_all :: "(operation \<Rightarrow> go_error option) \<Rightarrow> metadata list \<Rightarrow> http_server \<Rightarrow> http_server outcome" where
  "register_all reflector [] h = Ret h"
| "register_all reflector (md # mds) h =
     (case Register reflector md h of Panic m \<Rightarrow> Panic m | Ret h' \<Rightarrow> register_all reflector mds h')"

text \<open>When no registration panics, the server routes every handler in order, and the
  schema has one operation for each that asks for one, with its method and the schema form of its
  path; a registration panics for an unknown method or an operation that the reflector refuses.\<close>

theorem register_all_spec:
  assumes "register_all reflector mds h = Ret h'"
  shows "routes h' = routes h @ map (\<lambda>md. (md_Method md, md_Path md)) mds \<and>
    map (\<lambda>o'. (op_Method o', op_Path o')) (spec h') = map (\<lambda>o'. (op_Method o', op_Path o')) (spec h) @
      map (\<lambda>md. (md_Method md, replaceParams (md_Path md))) (filter md_GenerateSpec mds) \<and>
    (\<forall>md \<in> set mds. md_Method md \<in> set valid_methods)"
  using assms
proof (induction mds arbitrary: h)
  case (Cons md mds)
  then obtain h1 where h1: "Register reflector md h = Ret h1" "register_all reflector mds h1 = Ret h'"
    by (auto split: outcome.splits)
  have "routes h1 = routes h @ [(md_Method md, md_Path md)] \<and> md_Method md \<in> set valid_methods \<and>
      map (\<lambda>o'. (op_Method o', op_Path o')) (spec h1) = map (\<lambda>o'. (op_Method o', op_Path o')) (spec h) @
        (if md_GenerateSpec md then [(md_Method md, replaceParams (md_Path md))] else [])"
    using h1(1) by (auto simp: Register_def buildSchema_def Let_def split: if_splits sum.splits option.splits)
  then show ?case using Cons.IH [OF h1(2)] by simp
qed simp

definition plain_opts :: http_opts where
  "plain_opts = \<lparr>ho_Port = 80, ho_Openapi = False, ho_ServiceName = '''', ho_ServiceVersion = '''', ho_PublicURL = '''',
     ho_AuthConfig = [], ho_SpecMutations = []\<rparr>"

lemma register_all_spec_witness:
  "\<exists>h'. register_all (\<lambda>_. None) [schema_metadata\<lparr>md_Path := ''/a'', md_GenerateSpec := True\<rparr>]
      (fst (New_HTTP plain_opts)) = Ret h' \<and> routes h' = [(''GET'', ''/a'')]"
proof -
  obtain h' where "register_all (\<lambda>_. None) [schema_metadata\<lparr>md_Path := ''/a'', md_GenerateSpec := True\<rparr>]
      (fst (New_HTTP plain_opts)) = Ret h'"
    by (simp add: Register_def buildSchema_def schema_metadata_def valid_methods_def New_HTTP_def plain_opts_def Let_def)
  from register_all_spec [OF this] this show ?thesis by (simp add: New_HTTP_def plain_opts_def schema_metadata_def Let_def)
qed

text \<open>The URL in the documentation page cannot leave its attribute: whatever the public
  URL is, the escaped text has no quote and no angle bracket.\<close>

theorem schema_url_confined:
  "CHR 0x22 \<notin> set (schemaURL url) \<and> CHR 0x27 \<notin> set (schemaURL url) \<and> CHR ''<'' \<notin> set (schemaURL url) \<and> CHR ''>'' \<notin> set (schemaURL url)"
proof -
  have "CHR 0x22 \<notin> set (html_escape s) \<and> CHR 0x27 \<notin> set (html_escape s) \<and> CHR ''<'' \<notin> set (html_escape s) \<and> CHR ''>'' \<notin> set (html_escape s)" for s
    by (induction s) auto
  then show ?thesis by (simp add: schemaURL_def)
qed

text \<open>The document announces every authentication that the options name, enabled or not, and the caller's
  mutations cannot take away the schemas of the library's own types, which are added last.\<close>

theorem new_document:
  "(doc_Types (snd (New_HTTP opts)) ''duration.StringDuration'' = doc_Types (addSpecTypes d) ''duration.StringDuration'') \<and>
   (doc_Types (snd (New_HTTP opts)) ''uuid.UUID'' = doc_Types (addSpecTypes d) ''uuid.UUID'') \<and>
   (ho_SpecMutations opts = [] \<longrightarrow> dom (doc_Security (snd (New_HTTP opts))) = ac_Name ` set (ho_AuthConfig opts)) \<and>
   (auth_enabled (fst (New_HTTP opts)) \<longleftrightarrow> ho_AuthConfig opts \<noteq> [])"
proof -
  have sec: "dom (doc_Security (foldl (\<lambda>r b. r\<lparr>doc_Security := (doc_Security r)(ac_Name b \<mapsto> (ac_Format b, ac_Description b))\<rparr>) r bs)) =
      dom (doc_Security r) \<union> ac_Name ` set bs" for r :: openapi_doc and bs
    by (induction bs arbitrary: r) auto
  show ?thesis by (simp add: New_HTTP_def addSpecTypes_def sec Let_def)
qed

lemma new_document_witness:
  "auth_enabled (fst (New_HTTP \<lparr>ho_Port = 80, ho_Openapi = False, ho_ServiceName = ''s'', ho_ServiceVersion = ''1'', ho_PublicURL = ''u'',
     ho_AuthConfig = [\<lparr>ac_Enabled = False, ac_Name = ''jwt'', ac_Format = ''JWT'', ac_Description = ''''\<rparr>], ho_SpecMutations = []\<rparr>))"
  by (simp add: new_document)

end
