(* ===== verification/Http_Lifecycle.thy ===== *)
theory Http_Lifecycle
  imports Http_Server
begin

text \<open>
  \<open>Start\<close> and \<open>Stop\<close> of \<open>http/http.go\<close> as goroutines on the fields \<open>cancel\<close> and \<open>done\<close> of the server.
  One action is one access to a field, one call of a cancel function or one operation on a channel.
  \<open>Start\<close> is called again only after it has returned; \<open>Stop\<close> may be called at any time and from several
  goroutines. The \<open>done\<close> channel of the start number \<open>i\<close> is named by \<open>i\<close> and closed when that start
  returns.
\<close>

section \<open>The machine\<close>

text \<open>A start has entered, has failed to write the schema, has stored its cancel function, has stored its
  channel and serves, or has returned.\<close>

datatype start_phase = StartEntered | StartFailed | StartCancelSet | StartServing | StartReturned

text \<open>A stop has entered, has seen a cancel function, has called that of a start, waits on the channel it
  read (\<open>None\<close> is the nil channel), or has returned: because it saw no cancel function, because the
  channel was closed (with the start it cancelled and the channel's), or with the error of its context.\<close>

datatype stop_end = NothingToStop | SawDone nat nat | ContextError go_error

datatype stop_phase = StopEntered | StopChecked | StopCancelled nat | StopWaits nat "nat option" | StopReturned stop_end

record lifecycle =
  h_cancel :: "nat option"
  h_done :: "nat option"
  starts :: "start_phase list"
  cancelled :: "nat list"
  ctx_ended :: "nat list"
  stops :: "stop_phase list"

text \<open>\<open>cancelled\<close> are the starts whose cancel function a stop has called, \<open>ctx_ended\<close> those whose own context
  has ended: either cancels the context under which the start serves.\<close>

datatype life_action =
    CallStart | MarshalFails nat | SetCancel nat | SetDone nat | ServeEnds nat | ServeFails nat | StartCtxDone nat
  | CallStop | CheckCancel nat | CallCancel nat | ReadDone nat | RecvDone nat | CtxDone nat go_error

definition idle_server :: lifecycle where
  "idle_server = \<lparr>h_cancel = None, h_done = None, starts = [], cancelled = [], ctx_ended = [], stops = []\<rparr>"

text \<open>The call that serves ends because its context is cancelled, or by itself with an error.\<close>

fun life_act :: "life_action \<Rightarrow> lifecycle \<Rightarrow> lifecycle option" where
  "life_act CallStart h =
     (if list_all (\<lambda>p. p = StartReturned \<or> p = StartFailed) (starts h) then Some (h\<lparr>starts := starts h @ [StartEntered]\<rparr>) else None)"
| "life_act (MarshalFails i) h =
     (if i < length (starts h) \<and> starts h ! i = StartEntered
      then Some (h\<lparr>starts := (starts h)[i := StartFailed]\<rparr>) else None)"
| "life_act (SetCancel i) h =
     (if i < length (starts h) \<and> starts h ! i = StartEntered
      then Some (h\<lparr>h_cancel := Some i, starts := (starts h)[i := StartCancelSet]\<rparr>) else None)"
| "life_act (SetDone i) h =
     (if i < length (starts h) \<and> starts h ! i = StartCancelSet
      then Some (h\<lparr>h_done := Some i, starts := (starts h)[i := StartServing]\<rparr>) else None)"
| "life_act (ServeEnds i) h =
     (if i < length (starts h) \<and> starts h ! i = StartServing \<and> (i \<in> set (cancelled h) \<or> i \<in> set (ctx_ended h))
      then Some (h\<lparr>starts := (starts h)[i := StartReturned]\<rparr>) else None)"
| "life_act (ServeFails i) h =
     (if i < length (starts h) \<and> starts h ! i = StartServing
      then Some (h\<lparr>starts := (starts h)[i := StartReturned]\<rparr>) else None)"
| "life_act (StartCtxDone i) h = (if i < length (starts h) then Some (h\<lparr>ctx_ended := i # ctx_ended h\<rparr>) else None)"
| "life_act CallStop h = Some (h\<lparr>stops := stops h @ [StopEntered]\<rparr>)"
| "life_act (CheckCancel n) h =
     (if n < length (stops h) \<and> stops h ! n = StopEntered
      then Some (h\<lparr>stops := (stops h)[n := if h_cancel h = None then StopReturned NothingToStop else StopChecked]\<rparr>)
      else None)"
| "life_act (CallCancel n) h =
     (if n < length (stops h) \<and> stops h ! n = StopChecked
      then (case h_cancel h of
              None \<Rightarrow> None
            | Some i \<Rightarrow> Some (h\<lparr>cancelled := i # cancelled h, stops := (stops h)[n := StopCancelled i]\<rparr>))
      else None)"
| "life_act (ReadDone n) h =
     (if n < length (stops h)
      then (case stops h ! n of
              StopCancelled i \<Rightarrow> Some (h\<lparr>stops := (stops h)[n := StopWaits i (h_done h)]\<rparr>)
            | _ \<Rightarrow> None)
      else None)"
| "life_act (RecvDone n) h =
     (if n < length (stops h)
      then (case stops h ! n of
              StopWaits i (Some d) \<Rightarrow>
                if starts h ! d = StartReturned then Some (h\<lparr>stops := (stops h)[n := StopReturned (SawDone i d)]\<rparr>) else None
            | _ \<Rightarrow> None)
      else None)"
| "life_act (CtxDone n err) h =
     (if n < length (stops h)
      then (case stops h ! n of
              StopWaits i ch \<Rightarrow> Some (h\<lparr>stops := (stops h)[n := StopReturned (ContextError err)]\<rparr>)
            | _ \<Rightarrow> None)
      else None)"

inductive life_reach where
  life_init: "life_reach idle_server"
| life_step: "life_reach h \<Longrightarrow> life_act a h = Some h' \<Longrightarrow> life_reach h'"

fun life_acts :: "life_action list \<Rightarrow> lifecycle \<Rightarrow> lifecycle option" where
  "life_acts [] h = Some h"
| "life_acts (a # as) h = Option.bind (life_act a h) (life_acts as)"

lemma life_acts_reach: "life_acts as h = Some h' \<Longrightarrow> life_reach h \<Longrightarrow> life_reach h'"
  by (induction as arbitrary: h) (auto split: bind_splits intro: life_step)

text \<open>The error that a stop returns.\<close>

fun stop_error :: "stop_end \<Rightarrow> go_error option" where
  "stop_error (ContextError err) = Some err"
| "stop_error _ = None"

section \<open>The invariant\<close>

text \<open>The fields name starts that got that far, and a stop that called a cancel function did cancel that
  start. What is known of starts and stops stays true while the machine runs.\<close>

fun past_cancel :: "start_phase \<Rightarrow> bool" where
  "past_cancel StartEntered = False"
| "past_cancel StartFailed = False"
| "past_cancel _ = True"

fun past_done :: "start_phase \<Rightarrow> bool" where
  "past_done StartServing = True"
| "past_done StartReturned = True"
| "past_done _ = False"

definition start_is :: "(start_phase \<Rightarrow> bool) \<Rightarrow> lifecycle \<Rightarrow> nat \<Rightarrow> bool" where
  "start_is P h i \<longleftrightarrow> i < length (starts h) \<and> P (starts h ! i)"

fun stop_ok :: "lifecycle \<Rightarrow> stop_phase \<Rightarrow> bool" where
  "stop_ok h StopChecked = (h_cancel h \<noteq> None)"
| "stop_ok h (StopCancelled i) = (i \<in> set (cancelled h))"
| "stop_ok h (StopWaits i ch) = (i \<in> set (cancelled h) \<and> (\<forall>d. ch = Some d \<longrightarrow> start_is past_done h d))"
| "stop_ok h (StopReturned (SawDone i d)) = (i \<in> set (cancelled h) \<and> start_is (\<lambda>p. p = StartReturned) h d)"
| "stop_ok h _ = True"

definition life_inv :: "lifecycle \<Rightarrow> bool" where
  "life_inv h \<longleftrightarrow> (\<forall>i. h_cancel h = Some i \<longrightarrow> start_is past_cancel h i) \<and> (\<forall>d. h_done h = Some d \<longrightarrow> start_is past_done h d) \<and>
     list_all (start_is past_cancel h) (cancelled h) \<and> list_all (stop_ok h) (stops h)"

definition further :: "lifecycle \<Rightarrow> lifecycle \<Rightarrow> bool" where
  "further h h' \<longleftrightarrow> (\<forall>i. \<forall>P \<in> {past_cancel, past_done, \<lambda>p. p = StartReturned}. start_is P h i \<longrightarrow> start_is P h' i) \<and>
     set (cancelled h) \<subseteq> set (cancelled h') \<and> (h_cancel h \<noteq> None \<longrightarrow> h_cancel h' \<noteq> None)"

lemma stop_ok_further: "further h h' \<Longrightarrow> stop_ok h p \<Longrightarrow> stop_ok h' p"
  by (cases "(h, p)" rule: stop_ok.cases) (auto simp: further_def)

lemma life_act_further: "life_act a h = Some h' \<Longrightarrow> further h h'"
  by (cases a) (auto simp: further_def start_is_def nth_append nth_list_update split: if_splits option.splits stop_phase.splits)

lemma list_all_upd: "list_all P xs \<Longrightarrow> P x \<Longrightarrow> list_all P (xs[n := x])"
  by (auto simp: list_all_iff dest: set_update_subset_insert [THEN subsetD])

lemma life_stop:
  assumes "life_inv h" "list_all (stop_ok h') (stops h')" "starts h' = starts h" "h_cancel h' = h_cancel h" "h_done h' = h_done h"
    "set (cancelled h') \<subseteq> set (cancelled h) \<union> set_option (h_cancel h)"
  shows "life_inv h'"
  using assms by (auto simp: life_inv_def list_all_iff start_is_def)

lemma life_inv_step:
  assumes "life_inv h" "life_act a h = Some h'"
  shows "life_inv h'"
proof -
  have old: "list_all (stop_ok h') (stops h)"
    using assms(1) stop_ok_further [OF life_act_further [OF assms(2)]] by (auto simp: life_inv_def list_all_iff)
  have upd: "life_inv h'"
    if "stops h' = (stops h)[n := p]" "stop_ok h' p" "starts h' = starts h" "h_cancel h' = h_cancel h" "h_done h' = h_done h"
      "set (cancelled h') \<subseteq> set (cancelled h) \<union> set_option (h_cancel h)" for n p
    using life_stop [OF assms(1) _ that(3-6)] list_all_upd [OF old that(2)] that(1) by simp
  have inv: "stop_ok h (stops h ! n)" if "n < length (stops h)" for n
    using assms(1) that by (simp add: life_inv_def list_all_length)
  have go: "life_inv h'" if "stops h' = stops h" "cancelled h' = cancelled h"
    "\<And>i. h_cancel h' = Some i \<Longrightarrow> start_is past_cancel h' i" "\<And>d. h_done h' = Some d \<Longrightarrow> start_is past_done h' d"
    using assms(1) old that life_act_further [OF assms(2)] by (auto simp: life_inv_def list_all_iff further_def)
  show ?thesis
  proof (cases a)
    case CallStart
    then show ?thesis using assms by (intro go) (auto simp: life_inv_def start_is_def nth_append split: if_splits)
  next
    case (MarshalFails i)
    then show ?thesis using assms by (intro go) (auto simp: life_inv_def start_is_def nth_list_update split: if_splits)
  next
    case (SetCancel i)
    then show ?thesis using assms by (intro go) (auto simp: life_inv_def start_is_def nth_list_update split: if_splits)
  next
    case (SetDone i)
    then show ?thesis using assms by (intro go) (auto simp: life_inv_def start_is_def nth_list_update split: if_splits)
  next
    case (ServeEnds i)
    then show ?thesis using assms by (intro go) (auto simp: life_inv_def start_is_def nth_list_update split: if_splits)
  next
    case (ServeFails i)
    then show ?thesis using assms by (intro go) (auto simp: life_inv_def start_is_def nth_list_update split: if_splits)
  next
    case (StartCtxDone i)
    then show ?thesis using assms by (intro go) (auto simp: life_inv_def start_is_def split: if_splits)
  next
    case CallStop
    then show ?thesis using assms(2) old by (intro life_stop [OF assms(1)]) auto
  next
    case (CheckCancel n)
    then show ?thesis using assms(2) by (intro upd [of n "stops h' ! n"]) (auto split: if_splits)
  next
    case (CallCancel n)
    then show ?thesis using assms(2) by (intro upd [of n "stops h' ! n"]) (auto split: if_splits option.splits)
  next
    case (ReadDone n)
    then show ?thesis using assms inv [of n]
      by (intro upd [of n "stops h' ! n"]) (auto simp: life_inv_def start_is_def split: if_splits stop_phase.splits)
  next
    case (RecvDone n)
    then show ?thesis using assms(2) inv [of n]
      by (intro upd [of n "stops h' ! n"]) (auto simp: start_is_def split: if_splits stop_phase.splits option.splits)
  next
    case (CtxDone n err)
    then show ?thesis using assms(2) by (intro upd [of n "stops h' ! n"]) (auto split: if_splits stop_phase.splits)
  qed
qed

lemma life_reach_inv: "life_reach h \<Longrightarrow> life_inv h"
proof (induction rule: life_reach.induct)
  case life_init
  then show ?case by (simp add: life_inv_def idle_server_def)
qed (blast intro: life_inv_step)

section \<open>The sequential reading\<close>

text \<open>On a server that serves, undisturbed, the steps of one stop are \<open>Stop\<close> of \<open>Http_Server\<close>: it cancels
  the start, and returns nil or its context's error.\<close>

definition stop_alone :: "nat \<Rightarrow> nat \<Rightarrow> bool \<Rightarrow> go_error \<Rightarrow> life_action list" where
  "stop_alone n i done_first err =
     [CheckCancel n, CallCancel n, ReadDone n] @ (if done_first then [ServeEnds i, RecvDone n] else [CtxDone n err])"

lemma stop_alone_result:
  assumes "starts h = ps @ [StartServing]" "h_cancel h = Some (length ps)" "h_done h = Some (length ps)"
    "stops h = qs @ [StopEntered]" "http_server.running srv"
  shows "\<exists>h' e. life_acts (stop_alone (length qs) (length ps) done_first err) h = Some h' \<and> stops h' = qs @ [StopReturned e] \<and>
    stop_error e = fst (Stop done_first err srv) \<and> cancelled h' = length ps # cancelled h"
  using assms by (simp add: stop_alone_def Stop_def)

section \<open>Properties\<close>

text \<open>Property C25. A stop that returns because the server is done has called the cancel function of a start and
  seen a start return; when the server was started once, that is the same start, so that the server
  no longer serves. Every stop that waits has cancelled a start.\<close>

theorem stop_saw_done:
  assumes "life_reach h" "n < length (stops h)"
  shows "(\<forall>i d. stops h ! n = StopReturned (SawDone i d) \<longrightarrow> i \<in> set (cancelled h) \<and> d < length (starts h) \<and>
      starts h ! d = StartReturned \<and> (length (starts h) = 1 \<longrightarrow> i = d \<and> starts h = [StartReturned])) \<and>
    (\<forall>i ch. stops h ! n = StopWaits i ch \<longrightarrow> i \<in> set (cancelled h) \<and> i < length (starts h))"
proof -
  have ok: "stop_ok h (stops h ! n)" and c: "list_all (\<lambda>i. i < length (starts h)) (cancelled h)"
    using life_reach_inv [OF assms(1)] assms(2) by (auto simp: life_inv_def list_all_length list_all_iff start_is_def)
  then show ?thesis by (auto simp: start_is_def list_all_iff length_Suc_conv)
qed

lemma stop_saw_done_witness:
  "\<exists>h. life_acts [CallStart, SetCancel 0, SetDone 0, CallStop, CheckCancel 0, CallCancel 0, ReadDone 0, ServeEnds 0, RecvDone 0]
      idle_server = Some h \<and> stops h = [StopReturned (SawDone 0 0)] \<and> starts h = [StartReturned] \<and> cancelled h = [0]"
proof -
  let ?as = "[CallStart, SetCancel 0, SetDone 0, CallStop, CheckCancel 0, CallCancel 0, ReadDone 0, ServeEnds 0, RecvDone 0]"
  obtain h where h: "life_acts ?as idle_server = Some h" "stops h = [StopReturned (SawDone 0 0)]" "length (starts h) = 1" "cancelled h = [0]"
    by (simp add: idle_server_def)
  have "starts h = [StartReturned]"
    using stop_saw_done [OF life_acts_reach [OF h(1) life_init], of 0] h(2,3) by simp
  then show ?thesis using h by blast
qed

text \<open>While no start has stored its cancel function, none serves or has served and nothing is cancelled.\<close>

lemma cancel_unset: "life_reach h \<Longrightarrow> h_cancel h = None \<Longrightarrow> \<not> start_is past_cancel h i"
proof (induction arbitrary: i rule: life_reach.induct)
  case (life_step h a h')
  then have "\<not> past_cancel (starts h ! j)" if "j < length (starts h)" "h_cancel h = None" for j
    using that by (auto simp: start_is_def)
  note no = this
  show ?case
    using life_step.hyps(2) life_step.prems no
    by (cases a) (force simp: start_is_def nth_append nth_list_update split: if_splits option.splits stop_phase.splits)+
qed (simp add: idle_server_def start_is_def)

text \<open>What no stop is at work on is not cancelled; its starts return when their own context ends or by themselves.\<close>

lemma no_stop_run:
  assumes "life_acts as h = Some h'" "CallStop \<notin> set as" "\<forall>p \<in> set (stops h). \<exists>e. p = StopReturned e" "cancelled h = []"
  shows "stops h' = stops h \<and> cancelled h' = [] \<and>
    (start_is (\<lambda>p. p = StartReturned) h' i \<longrightarrow>
       i \<in> set (ctx_ended h') \<or> ServeFails i \<in> set as \<or> start_is (\<lambda>p. p = StartReturned) h i)"
  using assms
proof (induction as arbitrary: h)
  case (Cons a as)
  then obtain g where g: "life_act a h = Some g" "life_acts as g = Some h'" by (auto split: bind_splits)
  have ret: "\<exists>e. stops h ! n = StopReturned e" if "n < length (stops h)" for n using Cons.prems(3) that by (metis nth_mem)
  have s: "cancelled g = [] \<and> stops g = stops h"
    using g(1) Cons.prems(2,4) ret by (cases a) (fastforce split: if_splits)+
  have "start_is (\<lambda>p. p = StartReturned) g i \<Longrightarrow> i \<in> set (ctx_ended g) \<or> a = ServeFails i \<or> start_is (\<lambda>p. p = StartReturned) h i"
    using g(1) Cons.prems(4)
    by (cases a) (auto simp: start_is_def nth_append nth_list_update split: if_splits option.splits stop_phase.splits)
  moreover have "set (ctx_ended g) \<subseteq> set (ctx_ended h')"
    using g(2)
  proof (induction as arbitrary: g)
    case (Cons b bs)
    then obtain k where k: "life_act b g = Some k" "life_acts bs k = Some h'" by (auto split: bind_splits)
    have "set (ctx_ended g) \<subseteq> set (ctx_ended k)"
      using k(1) by (cases b) (auto split: if_splits option.splits stop_phase.splits)
    then show ?case using Cons.IH [OF k(2)] by blast
  qed simp
  ultimately show ?case using Cons.IH [OF g(2)] Cons.prems(2,3) s by (auto simp: subset_iff)
qed simp

text \<open>Property C35. A stop that looks for the cancel function before any start has stored one is lost: it
  returns nil, as if the server were stopped, and has no effect on a start that is under way. If no other
  stop is at work and none is called later, then however the run goes on no start is ever cancelled by a
  stop, and one that serves goes on until its own context ends or serving fails by itself.\<close>

theorem early_stop_lost:
  assumes "life_reach h" "n < length (stops h)" "stops h ! n = StopEntered" "h_cancel h = None"
    and "\<forall>m < length (stops h). m \<noteq> n \<longrightarrow> (\<exists>e. stops h ! m = StopReturned e)"
    and "life_acts (CheckCancel n # as) h = Some h'" "CallStop \<notin> set as"
  shows "stops h' ! n = StopReturned NothingToStop \<and> stop_error NothingToStop = None \<and> cancelled h' = [] \<and>
    (\<forall>i < length (starts h'). starts h' ! i = StartReturned \<longrightarrow> i \<in> set (ctx_ended h') \<or> ServeFails i \<in> set as)"
proof -
  let ?g = "h\<lparr>stops := (stops h)[n := StopReturned NothingToStop]\<rparr>"
  have g: "life_acts as ?g = Some h'" using assms(2-4,6) by simp
  have none: "\<not> start_is past_cancel h i" for i by (rule cancel_unset [OF assms(1,4)])
  then have "cancelled h = []" using life_reach_inv [OF assms(1)] by (cases "cancelled h") (auto simp: life_inv_def)
  then have c: "cancelled ?g = []" by simp
  have "\<forall>p \<in> set (stops ?g). \<exists>e. p = StopReturned e"
    using assms(2,5) by (auto simp: in_set_conv_nth nth_list_update)
  note run = no_stop_run [OF g assms(7) this c]
  have "\<not> start_is (\<lambda>p. p = StartReturned) ?g i" for i using none [of i] by (auto simp: start_is_def)
  then show ?thesis using run assms(2) by (auto simp: start_is_def)
qed

lemma early_stop_lost_witness:
  "\<exists>h h'. life_acts [CallStart, CallStop] idle_server = Some h \<and>
     life_acts [CheckCancel 0, SetCancel 0, SetDone 0, StartCtxDone 0, ServeEnds 0] h = Some h' \<and>
     stops h' = [StopReturned NothingToStop] \<and> starts h' = [StartReturned] \<and> cancelled h' = [] \<and> ctx_ended h' = [0]"
proof -
  obtain h where h: "life_acts [CallStart, CallStop] idle_server = Some h" "stops h = [StopEntered]" "h_cancel h = None"
    by (simp add: idle_server_def)
  obtain h' where h': "life_acts [CheckCancel 0, SetCancel 0, SetDone 0, StartCtxDone 0, ServeEnds 0] h = Some h'"
    "stops h' = [StopReturned NothingToStop]" "starts h' = [StartReturned]" "ctx_ended h' = [0]"
    using h(1) by (auto simp: idle_server_def)
  have "cancelled h' = []"
    using early_stop_lost [OF life_acts_reach [OF h(1) life_init] _ _ h(3) _ h'(1)] h(2) by simp
  then show ?thesis using h(1) h' by blast
qed

text \<open>A stop between the two assignments of \<open>Start\<close> waits on the nil channel: it stops the server, but only
  the end of its own context lets it return.\<close>

lemma nil_channel_step:
  assumes "life_act a h = Some h'" "n < length (stops h)" "stops h ! n = StopWaits i None"
  shows "n < length (stops h') \<and> (stops h' ! n = StopWaits i None \<or> (\<exists>err. stops h' ! n = StopReturned (ContextError err)))"
  using assms by (cases a) (auto simp: nth_append nth_list_update split: if_splits option.splits stop_phase.splits)

theorem stop_on_nil_channel:
  assumes "stops h ! n = StopWaits i None" "n < length (stops h)" "life_acts as h = Some h'"
  shows "stops h' ! n = StopWaits i None \<or> (\<exists>err. stops h' ! n = StopReturned (ContextError err))"
  using assms
proof (induction as arbitrary: h)
  case (Cons a as)
  then obtain g where g: "life_act a h = Some g" "life_acts as g = Some h'" by (auto split: bind_splits)
  note s = nil_channel_step [OF g(1) Cons.prems(2,1)]
  have stay: "stops f' ! n = StopReturned e \<and> n < length (stops f')"
    if "life_acts bs f = Some f'" "stops f ! n = StopReturned e" "n < length (stops f)" for bs f f' e
    using that
  proof (induction bs arbitrary: f)
    case (Cons b bs)
    then obtain k where k: "life_act b f = Some k" "life_acts bs k = Some f'" by (auto split: bind_splits)
    have "stops k ! n = StopReturned e \<and> n < length (stops k)"
      using k(1) Cons.prems by (cases b) (auto simp: nth_append nth_list_update split: if_splits option.splits stop_phase.splits)
    then show ?case using Cons.IH [OF k(2)] by simp
  qed simp
  show ?case using s Cons.IH [OF _ _ g(2)] stay [OF g(2)] by blast
qed simp

lemma stop_on_nil_channel_witness:
  "\<exists>h. life_reach h \<and> starts h = [StartReturned] \<and> (\<forall>as h'. life_acts as h = Some h' \<longrightarrow>
     stops h' ! 0 = StopWaits 0 None \<or> (\<exists>err. stops h' ! 0 = StopReturned (ContextError err)))"
proof -
  let ?as = "[CallStart, SetCancel 0, CallStop, CheckCancel 0, CallCancel 0, ReadDone 0, SetDone 0, ServeEnds 0]"
  obtain h where h: "life_acts ?as idle_server = Some h" "starts h = [StartReturned]" "stops h = [StopWaits 0 None]"
    by (simp add: idle_server_def)
  then show ?thesis using life_acts_reach [OF h(1) life_init] stop_on_nil_channel [of h 0 0] by fastforce
qed

end
