(* ===== verification/Caches.thy ===== *)
theory Caches
  imports Prelude
begin

text \<open>
  \<open>cache/\<close>: the expiring cache (\<open>expiring.go\<close>), the cache of one fixed validity (\<open>fixed.go\<close>) and
  the two LRU caches (\<open>lru.go\<close>, \<open>lru_expiring.go\<close>). Times and validities are nanoseconds; the
  variable \<open>now\<close> of \<open>time.go\<close> is the argument \<open>t\<close>. The hashicorp LRU is a record of its
  operations. The first locale is the contract of a cache with expiry and is proved of each of
  them; the last section splits the operations at their locks and runs them interleaved.
\<close>

section \<open>The expiring cache\<close>

record 'v expiringItem =
  item :: 'v
  expires :: int

text \<open>\<open>item.expires.Before(now())\<close>.\<close>

definition expired :: "int \<Rightarrow> 'v expiringItem \<Rightarrow> bool" where
  "expired t i \<longleftrightarrow> expires i < t"

record ('k, 'v) ExpiringCache =
  items :: "'k \<Rightarrow> 'v expiringItem option"

definition NewExpiringCache :: "('k, 'v) ExpiringCache" where
  "NewExpiringCache = \<lparr>items = Map.empty\<rparr>"

definition ExpiringCache_expire :: "'k \<Rightarrow> ('k, 'v) ExpiringCache \<Rightarrow> ('k, 'v) ExpiringCache" where
  "ExpiringCache_expire k c = c\<lparr>items := (items c)(k := None)\<rparr>"

text \<open>\<open>Get\<close> returns the value, the flag and the cache it leaves; \<open>zeroV\<close> is the zero value.\<close>

definition ExpiringCache_Get ::
    "'v \<Rightarrow> int \<Rightarrow> 'k \<Rightarrow> ('k, 'v) ExpiringCache \<Rightarrow> ('v \<times> bool) \<times> ('k, 'v) ExpiringCache" where
  "ExpiringCache_Get zeroV t k c =
     (case items c k of
        None \<Rightarrow> ((zeroV, False), c)
      | Some i \<Rightarrow> if expired t i then ((zeroV, False), ExpiringCache_expire k c) else ((item i, True), c))"

definition ExpiringCache_Put ::
    "int \<Rightarrow> 'k \<Rightarrow> 'v \<Rightarrow> int \<Rightarrow> ('k, 'v) ExpiringCache \<Rightarrow> ('k, 'v) ExpiringCache" where
  "ExpiringCache_Put t k v validity c = c\<lparr>items := (items c)(k \<mapsto> \<lparr>item = v, expires = t + validity\<rparr>)\<rparr>"

definition ExpiringCache_Delete :: "'k \<Rightarrow> ('k, 'v) ExpiringCache \<Rightarrow> ('k, 'v) ExpiringCache" where
  "ExpiringCache_Delete k c = c\<lparr>items := (items c)(k := None)\<rparr>"

definition ExpiringCache_Len :: "('k, 'v) ExpiringCache \<Rightarrow> nat" where
  "ExpiringCache_Len c = card (dom (items c))"

section \<open>The cache of one validity\<close>

record ('k, 'v) FixedExpiryCache =
  fixed_cache :: "('k, 'v) ExpiringCache"
  validity :: int

definition NewFixedExpiryCache :: "int \<Rightarrow> ('k, 'v) FixedExpiryCache" where
  "NewFixedExpiryCache d = \<lparr>fixed_cache = NewExpiringCache, validity = d\<rparr>"

definition FixedExpiryCache_Get ::
    "'v \<Rightarrow> int \<Rightarrow> 'k \<Rightarrow> ('k, 'v) FixedExpiryCache \<Rightarrow> ('v \<times> bool) \<times> ('k, 'v) FixedExpiryCache" where
  "FixedExpiryCache_Get zeroV t k f =
     (case ExpiringCache_Get zeroV t k (fixed_cache f) of (r, c) \<Rightarrow> (r, f\<lparr>fixed_cache := c\<rparr>))"

definition FixedExpiryCache_Put ::
    "int \<Rightarrow> 'k \<Rightarrow> 'v \<Rightarrow> ('k, 'v) FixedExpiryCache \<Rightarrow> ('k, 'v) FixedExpiryCache" where
  "FixedExpiryCache_Put t k v f = f\<lparr>fixed_cache := ExpiringCache_Put t k v (validity f) (fixed_cache f)\<rparr>"

definition FixedExpiryCache_Len :: "('k, 'v) FixedExpiryCache \<Rightarrow> nat" where
  "FixedExpiryCache_Len f = ExpiringCache_Len (fixed_cache f)"

definition FixedExpiryCache_Delete :: "'k \<Rightarrow> ('k, 'v) FixedExpiryCache \<Rightarrow> ('k, 'v) FixedExpiryCache" where
  "FixedExpiryCache_Delete k f = f\<lparr>fixed_cache := ExpiringCache_Delete k (fixed_cache f)\<rparr>"

section \<open>The LRU caches\<close>

text \<open>The operations of \<open>golang-lru\<close> that the code calls, on a state of its own.\<close>

record ('l, 'k, 'e) lru_lib =
  lru_New :: "int \<Rightarrow> go_error + 'l"
  lru_Get :: "'k \<Rightarrow> 'l \<Rightarrow> 'e option \<times> 'l"
  lru_Add :: "'k \<Rightarrow> 'e \<Rightarrow> 'l \<Rightarrow> 'l"
  lru_Remove :: "'k \<Rightarrow> 'l \<Rightarrow> 'l"
  lru_Len :: "'l \<Rightarrow> nat"

definition NewLruCache :: "('l, 'k, 'e) lru_lib \<Rightarrow> int \<Rightarrow> go_error + 'l" where
  "NewLruCache lib sz =
     (case lru_New lib sz of Inl err \<Rightarrow> Inl (wrapf ''init lru cache'' err) | Inr c \<Rightarrow> Inr c)"

definition LruCache_Get :: "('l, 'k, 'e) lru_lib \<Rightarrow> 'e \<Rightarrow> 'k \<Rightarrow> 'l \<Rightarrow> ('e \<times> bool) \<times> 'l" where
  "LruCache_Get lib zeroV k c =
     (case lru_Get lib k c of (Some v, c') \<Rightarrow> ((v, True), c') | (None, c') \<Rightarrow> ((zeroV, False), c'))"

definition LruCache_Put :: "('l, 'k, 'e) lru_lib \<Rightarrow> 'k \<Rightarrow> 'e \<Rightarrow> 'l \<Rightarrow> 'l" where
  "LruCache_Put lib k v c = lru_Add lib k v c"

definition LruCache_Delete :: "('l, 'k, 'e) lru_lib \<Rightarrow> 'k \<Rightarrow> 'l \<Rightarrow> 'l" where
  "LruCache_Delete lib k c = lru_Remove lib k c"

definition LruCache_Len :: "('l, 'k, 'e) lru_lib \<Rightarrow> 'l \<Rightarrow> nat" where
  "LruCache_Len lib c = lru_Len lib c"

definition NewLruCacheExpiring :: "('l, 'k, 'v expiringItem) lru_lib \<Rightarrow> int \<Rightarrow> go_error + 'l" where
  "NewLruCacheExpiring lib sz =
     (case NewLruCache lib sz of Inl err \<Rightarrow> Inl (wrapf ''init lru cache'' err) | Inr c \<Rightarrow> Inr c)"

definition LruCacheExpiring_Delete :: "('l, 'k, 'v expiringItem) lru_lib \<Rightarrow> 'k \<Rightarrow> 'l \<Rightarrow> 'l" where
  "LruCacheExpiring_Delete lib k c = LruCache_Delete lib k c"

text \<open>An expired entry is deleted, and its value returned with the flag \<open>false\<close>.\<close>

definition LruCacheExpiring_Get ::
    "('l, 'k, 'v expiringItem) lru_lib \<Rightarrow> 'v expiringItem \<Rightarrow> int \<Rightarrow> 'k \<Rightarrow> 'l \<Rightarrow> ('v \<times> bool) \<times> 'l" where
  "LruCacheExpiring_Get lib zeroV t k c =
     (case LruCache_Get lib zeroV k c of
        ((i, ok), c') \<Rightarrow>
          if \<not> ok then ((item i, ok), c')
          else if expired t i then ((item i, False), LruCacheExpiring_Delete lib k c')
          else ((item i, True), c'))"

definition LruCacheExpiring_Put ::
    "('l, 'k, 'v expiringItem) lru_lib \<Rightarrow> int \<Rightarrow> 'k \<Rightarrow> 'v \<Rightarrow> int \<Rightarrow> 'l \<Rightarrow> 'l" where
  "LruCacheExpiring_Put lib t k v d c =
     LruCache_Put lib k \<lparr>item = v, expires = t + d\<rparr> c"

definition LruCacheExpiring_Len :: "('l, 'k, 'v expiringItem) lru_lib \<Rightarrow> 'l \<Rightarrow> nat" where
  "LruCacheExpiring_Len lib c = LruCache_Len lib c"

section \<open>The contract of a cache with expiry\<close>

definition hit :: "'v \<times> bool \<Rightarrow> 'v option" where
  "hit r = (if snd r then Some (fst r) else None)"

definition live :: "int \<Rightarrow> 'v expiringItem option \<Rightarrow> 'v option" where
  "live t e = (case e of Some i \<Rightarrow> if expired t i then None else Some (item i) | None \<Rightarrow> None)"

text \<open>A history of calls, and the entries a client expects of it: the last put of each key.\<close>

datatype ('k, 'v) cache_op = OpGet int 'k | OpPut int 'k 'v int | OpDelete 'k

fun op_time :: "('k, 'v) cache_op \<Rightarrow> int option" where
  "op_time (OpGet t k) = Some t"
| "op_time (OpPut t k v d) = Some t"
| "op_time (OpDelete k) = None"

fun expect :: "('k, 'v) cache_op \<Rightarrow> ('k \<Rightarrow> 'v expiringItem option) \<Rightarrow> 'k \<Rightarrow> 'v expiringItem option" where
  "expect (OpGet t k) m = m"
| "expect (OpPut t k v d) m = m(k \<mapsto> \<lparr>item = v, expires = t + d\<rparr>)"
| "expect (OpDelete k) m = m(k := None)"

definition last_put :: "('k, 'v) cache_op list \<Rightarrow> 'k \<Rightarrow> 'v expiringItem option" where
  "last_put ops = fold expect ops Map.empty"

fun exec_op ::
    "(int \<Rightarrow> 'k \<Rightarrow> 's \<Rightarrow> ('v \<times> bool) \<times> 's) \<Rightarrow> (int \<Rightarrow> 'k \<Rightarrow> 'v \<Rightarrow> int \<Rightarrow> 's \<Rightarrow> 's) \<Rightarrow> ('k \<Rightarrow> 's \<Rightarrow> 's) \<Rightarrow>
     ('k, 'v) cache_op \<Rightarrow> 's \<Rightarrow> 's" where
  "exec_op get put delete (OpGet t k) s = snd (get t k s)"
| "exec_op get put delete (OpPut t k v d) s = put t k v d s"
| "exec_op get put delete (OpDelete k) s = delete k s"

locale ttl_cache =
  fixes get :: "int \<Rightarrow> 'k \<Rightarrow> 's \<Rightarrow> ('v \<times> bool) \<times> 's"
    and put :: "int \<Rightarrow> 'k \<Rightarrow> 'v \<Rightarrow> int \<Rightarrow> 's \<Rightarrow> 's"
    and delete :: "'k \<Rightarrow> 's \<Rightarrow> 's"
    and ok :: "'s \<Rightarrow> bool"
    and view :: "'s \<Rightarrow> 'k \<Rightarrow> 'v expiringItem option"
  assumes get_hit: "ok s \<Longrightarrow> hit (fst (get t k s)) = live t (view s k)"
    and get_view: "ok s \<Longrightarrow> view (snd (get t k s)) = (if live t (view s k) = None then (view s)(k := None) else view s)"
    and put_at: "ok s \<Longrightarrow> view (put t k v d s) k = Some \<lparr>item = v, expires = t + d\<rparr>"
    and put_sub: "ok s \<Longrightarrow> view (put t k v d s) \<subseteq>\<^sub>m (view s)(k \<mapsto> \<lparr>item = v, expires = t + d\<rparr>)"
    and delete_view: "ok s \<Longrightarrow> view (delete k s) = (view s)(k := None)"
    and get_ok: "ok s \<Longrightarrow> ok (snd (get t k s))"
    and put_ok: "ok s \<Longrightarrow> ok (put t k v d s)"
    and delete_ok: "ok s \<Longrightarrow> ok (delete k s)"
begin

abbreviation run :: "('k, 'v) cache_op list \<Rightarrow> 's \<Rightarrow> 's" where
  "run \<equiv> fold (exec_op get put delete)"

lemma exec_ok: "ok s \<Longrightarrow> ok (exec_op get put delete x s)"
  by (cases x) (simp_all add: get_ok put_ok delete_ok)

lemma run_ok: "ok s \<Longrightarrow> ok (run ops s)"
  by (induction ops arbitrary: s) (simp_all add: exec_ok)

lemma exec_sub:
  assumes "ok s" "view s \<subseteq>\<^sub>m m"
  shows "view (exec_op get put delete x s) \<subseteq>\<^sub>m expect x m"
proof (cases x)
  case (OpPut t k v d)
  have "(view s)(k \<mapsto> \<lparr>item = v, expires = t + d\<rparr>) \<subseteq>\<^sub>m m(k \<mapsto> \<lparr>item = v, expires = t + d\<rparr>)"
    using assms(2) by (rule map_le_upd)
  with put_sub [OF assms(1)] show ?thesis unfolding OpPut exec_op.simps expect.simps by (rule map_le_trans)
next
  case (OpGet t k)
  then show ?thesis using assms by (auto simp: get_view map_le_def)
next
  case (OpDelete k)
  then show ?thesis using assms by (auto simp: delete_view map_le_def)
qed

lemma run_sub: "ok s \<Longrightarrow> view s \<subseteq>\<^sub>m m \<Longrightarrow> view (run ops s) \<subseteq>\<^sub>m fold expect ops m"
  by (induction ops arbitrary: s m) (simp_all add: exec_ok exec_sub)

text \<open>A hit is never stale: it is the value of the last put of the key, and not expired.\<close>

lemma hit_sound:
  assumes "ok s" "view s = Map.empty" "hit (fst (get t k (run ops s))) = Some v"
  shows "\<exists>e. last_put ops k = Some \<lparr>item = v, expires = e\<rparr> \<and> t \<le> e"
proof -
  have "live t (view (run ops s) k) = Some v" using assms get_hit [OF run_ok] by simp
  then obtain i where i: "view (run ops s) k = Some i" "\<not> expired t i" "item i = v"
    by (auto simp: live_def split: option.splits if_splits)
  have "view (run ops s) \<subseteq>\<^sub>m last_put ops" using run_sub assms(1,2) by (simp add: last_put_def)
  with i(1) have "last_put ops k = Some i" by (metis domI map_le_def)
  with i(2,3) show ?thesis by (intro exI [of _ "expires i"]) (auto simp: expired_def)
qed

text \<open>A put is seen at once.\<close>

lemma put_then_get: "ok s \<Longrightarrow> t' \<le> t + d \<Longrightarrow> hit (fst (get t' k (put t k v d s))) = Some v"
  by (simp add: get_hit put_ok put_at live_def expired_def)

end

text \<open>A cache that never evicts a live entry.\<close>

locale ttl_cache_unbounded = ttl_cache +
  assumes put_view: "ok s \<Longrightarrow> view (put t k v d s) = (view s)(k \<mapsto> \<lparr>item = v, expires = t + d\<rparr>)"
begin

text \<open>What the cache holds differs from what the client expects only in entries that expired.\<close>

definition agrees where
  "agrees T s m \<longleftrightarrow> (\<forall>k. view s k = m k \<or> view s k = None \<and> live T (m k) = None)"

lemma live_later: "live T e = None \<Longrightarrow> T \<le> T' \<Longrightarrow> live T' e = None"
  by (auto simp: live_def expired_def split: option.splits if_splits)

lemma exec_agrees:
  assumes "ok s" "agrees T s m" "\<And>t. op_time x = Some t \<Longrightarrow> t \<le> T"
  shows "agrees T (exec_op get put delete x s) (expect x m)"
proof (cases x)
  case (OpGet t k)
  have "view s k = m k \<or> view s k = None \<and> live T (m k) = None" using assms(2) by (simp add: agrees_def)
  moreover have "t \<le> T" using assms(3) OpGet by simp
  ultimately have "live t (view s k) = None \<Longrightarrow> live T (m k) = None" by (metis live_later)
  then show ?thesis using assms(1,2) by (simp add: OpGet agrees_def get_view)
next
  case (OpPut t k v d)
  then show ?thesis using assms by (auto simp: agrees_def put_view)
next
  case (OpDelete k)
  then show ?thesis using assms by (auto simp: agrees_def delete_view)
qed

lemma run_agrees:
  "ok s \<Longrightarrow> agrees T s m \<Longrightarrow> (\<And>x t. x \<in> set ops \<Longrightarrow> op_time x = Some t \<Longrightarrow> t \<le> T) \<Longrightarrow>
   agrees T (run ops s) (fold expect ops m)"
proof (induction ops arbitrary: s m)
  case (Cons x ops)
  have "agrees T (exec_op get put delete x s) (expect x m)" by (rule exec_agrees) (use Cons.prems in auto)
  then have "agrees T (run ops (exec_op get put delete x s)) (fold expect ops (expect x m))"
    by (rule Cons.IH [OF exec_ok [OF Cons.prems(1)]]) (use Cons.prems(3) in auto)
  then show ?case by simp
qed simp

lemma hit_exact:
  assumes "ok s" "view s = Map.empty" "\<And>x t. x \<in> set ops \<Longrightarrow> op_time x = Some t \<Longrightarrow> t \<le> T"
  shows "hit (fst (get T k (run ops s))) = live T (last_put ops k)"
proof -
  have "agrees T s Map.empty" using assms(2) by (simp add: agrees_def)
  then have "agrees T (run ops s) (last_put ops)" unfolding last_put_def by (rule run_agrees [OF assms(1)]) (use assms(3) in auto)
  then have "view (run ops s) k = last_put ops k \<or> view (run ops s) k = None \<and> live T (last_put ops k) = None"
    by (simp add: agrees_def)
  then show ?thesis using get_hit [OF run_ok [OF assms(1)], of T k] by (auto simp: live_def)
qed

end

section \<open>The caches meet the contract\<close>

lemmas cache_defs = ExpiringCache_Get_def ExpiringCache_Put_def ExpiringCache_Delete_def ExpiringCache_expire_def
  hit_def live_def

interpretation expiring: ttl_cache_unbounded
  "ExpiringCache_Get zeroV" "\<lambda>t k v d. ExpiringCache_Put t k v d" ExpiringCache_Delete "\<lambda>_. True" items
  for zeroV :: 'v
  by unfold_locales (auto simp: cache_defs split: option.splits)

text \<open>The documented laws of the LRU: a lookup finds what the view holds and moves no entry out of
  it, an addition may evict other keys, a removal removes one.\<close>

locale lru_laws =
  fixes lib :: "('l, 'k, 'e) lru_lib"
    and lok :: "'l \<Rightarrow> bool"
    and lview :: "'l \<Rightarrow> 'k \<Rightarrow> 'e option"
  assumes lru_get: "lok c \<Longrightarrow> fst (lru_Get lib k c) = lview c k"
    and lru_get_view: "lok c \<Longrightarrow> lview (snd (lru_Get lib k c)) = lview c"
    and lru_add_at: "lok c \<Longrightarrow> lview (lru_Add lib k e c) k = Some e"
    and lru_add_sub: "lok c \<Longrightarrow> lview (lru_Add lib k e c) \<subseteq>\<^sub>m (lview c)(k \<mapsto> e)"
    and lru_remove: "lok c \<Longrightarrow> lview (lru_Remove lib k c) = (lview c)(k := None)"
    and lru_get_ok: "lok c \<Longrightarrow> lok (snd (lru_Get lib k c))"
    and lru_add_ok: "lok c \<Longrightarrow> lok (lru_Add lib k e c)"
    and lru_remove_ok: "lok c \<Longrightarrow> lok (lru_Remove lib k c)"

locale lru_expiring = lru_laws lib lok lview
  for lib :: "('l, 'k, 'v expiringItem) lru_lib" and lok lview +
  fixes zeroV :: "'v expiringItem"
begin

lemma get_cases:
  assumes "lok c"
  shows "LruCacheExpiring_Get lib zeroV t k c =
    (case lview c k of
       None \<Rightarrow> ((item zeroV, False), snd (lru_Get lib k c))
     | Some i \<Rightarrow> if expired t i then ((item i, False), lru_Remove lib k (snd (lru_Get lib k c)))
                 else ((item i, True), snd (lru_Get lib k c)))"
  using lru_get [OF assms, of k]
  by (auto simp: LruCacheExpiring_Get_def LruCache_Get_def LruCacheExpiring_Delete_def LruCache_Delete_def
      split: prod.splits option.splits)

lemma lru_ttl_cache:
  "ttl_cache (LruCacheExpiring_Get lib zeroV) (LruCacheExpiring_Put lib) (LruCacheExpiring_Delete lib) lok lview"
  by unfold_locales
    (auto simp: get_cases LruCacheExpiring_Put_def LruCache_Put_def LruCacheExpiring_Delete_def LruCache_Delete_def
      hit_def live_def lru_get_view lru_remove lru_get_ok lru_add_at lru_add_sub lru_add_ok lru_remove_ok
      split: option.splits)

end

sublocale lru_expiring \<subseteq> lru_ttl: ttl_cache
  "LruCacheExpiring_Get lib zeroV" "LruCacheExpiring_Put lib" "LruCacheExpiring_Delete lib" lok lview
  by (rule lru_ttl_cache)

text \<open>The bounded LRU as a list, most recent first: the instance the laws are discharged on.\<close>

definition list_lru :: "(nat \<times> ('k \<times> 'e) list, 'k, 'e) lru_lib" where
  "list_lru =
     \<lparr>lru_New = (\<lambda>sz. if sz \<le> 0 then Inl (EOther ''must provide a positive size'') else Inr (nat sz, [])),
      lru_Get = (\<lambda>k (n, xs). case map_of xs k of
                   None \<Rightarrow> (None, (n, xs))
                 | Some e \<Rightarrow> (Some e, (n, (k, e) # filter (\<lambda>p. fst p \<noteq> k) xs))),
      lru_Add = (\<lambda>k e (n, xs). (n, take n ((k, e) # filter (\<lambda>p. fst p \<noteq> k) xs))),
      lru_Remove = (\<lambda>k (n, xs). (n, filter (\<lambda>p. fst p \<noteq> k) xs)),
      lru_Len = (\<lambda>(n, xs). length xs)\<rparr>"

definition list_ok :: "nat \<times> ('k \<times> 'e) list \<Rightarrow> bool" where
  "list_ok c \<longleftrightarrow> 0 < fst c \<and> length (snd c) \<le> fst c \<and> distinct (map fst (snd c))"

definition list_view :: "nat \<times> ('k \<times> 'e) list \<Rightarrow> 'k \<Rightarrow> 'e option" where
  "list_view c = map_of (snd c)"

lemma map_of_filter_key: "map_of (filter (\<lambda>p. fst p \<noteq> k) xs) = (map_of xs)(k := None)"
  by (induction xs) auto

lemma map_of_take_sub: "distinct (map fst xs) \<Longrightarrow> map_of (take n xs) \<subseteq>\<^sub>m map_of xs"
proof -
  assume d: "distinct (map fst xs)"
  then have "distinct (map fst (take n xs))" by (simp add: take_map [symmetric])
  then show ?thesis using d by (auto simp: map_le_def dom_def dest: in_set_takeD)
qed

lemma distinct_filter_keys: "distinct (map fst xs) \<Longrightarrow> distinct (map fst (filter P xs))"
  by (induction xs) auto

lemma filter_key_length: "map_of xs k = Some e \<Longrightarrow> length (filter (\<lambda>p. fst p \<noteq> k) xs) < length xs"
  by (auto dest!: map_of_SomeD intro: length_filter_less)

interpretation list_lru: lru_laws "list_lru :: (nat \<times> ('k \<times> 'e) list, 'k, 'e) lru_lib" list_ok list_view
proof
  fix c :: "nat \<times> ('k \<times> 'e) list" and k e
  assume ok: "list_ok c"
  obtain n xs where c: "c = (n, xs)" by (cases c)
  show "fst (lru_Get list_lru k c) = list_view c k"
    "list_view (snd (lru_Get list_lru k c)) = list_view c"
    by (auto simp: list_lru_def list_view_def c map_of_filter_key fun_eq_iff split: option.split)
  show "list_view (lru_Add list_lru k e c) k = Some e"
    using ok by (cases n) (auto simp: list_lru_def list_view_def list_ok_def c)
  have d: "distinct (map fst ((k, e) # filter (\<lambda>p. fst p \<noteq> k) xs))"
    using ok by (auto simp: list_ok_def c distinct_filter_keys)
  have "map_of (take n ((k, e) # filter (\<lambda>p. fst p \<noteq> k) xs)) \<subseteq>\<^sub>m map_of ((k, e) # filter (\<lambda>p. fst p \<noteq> k) xs)"
    by (rule map_of_take_sub [OF d])
  then show "list_view (lru_Add list_lru k e c) \<subseteq>\<^sub>m (list_view c)(k \<mapsto> e)"
    by (simp add: list_lru_def list_view_def c map_of_filter_key)
  show "list_view (lru_Remove list_lru k c) = (list_view c)(k := None)"
    by (simp add: list_lru_def list_view_def c map_of_filter_key)
  have len: "Suc (length (filter (\<lambda>p. fst p \<noteq> k) xs)) \<le> n" if "map_of xs k = Some x" for x
    using filter_key_length [OF that] ok by (simp add: list_ok_def c)
  show "list_ok (snd (lru_Get list_lru k c))"
    using ok by (auto simp: list_lru_def list_ok_def c distinct_filter_keys len simp del: map_of_eq_Some_iff split: option.split)
  show "list_ok (lru_Add list_lru k e c)"
    using ok d by (auto simp: list_lru_def list_ok_def c take_map [symmetric] simp del: list.map)
  show "list_ok (lru_Remove list_lru k c)"
    using ok by (auto simp: list_lru_def list_ok_def c distinct_filter_keys intro: le_trans [OF length_filter_le])
qed

interpretation list_ttl: lru_expiring list_lru list_ok list_view zeroV for zeroV
  by unfold_locales

section \<open>Interleavings\<close>

text \<open>
  The operations of \<open>expiring.go\<close> take the mutex once, except \<open>Get\<close>: it reads under the read
  lock, and only the deferred \<open>expire\<close> takes the write lock again, after the reply is fixed. So a
  goroutine is idle or about to expire a key, and the atomic actions are the locked regions. Each
  action carries its goroutine; the clock only moves forward.
\<close>

datatype 'k pc = Idle | Expiring 'k

datatype ('k, 'v) action =
    GetRead nat 'k | ExpireDelete nat | DoPut nat 'k 'v int | DoDelete nat 'k | Tick int

record ('k, 'v) shared =
  cache :: "('k, 'v) ExpiringCache"
  pcs :: "nat \<Rightarrow> 'k pc"
  clock :: int

definition shared_init :: "int \<Rightarrow> ('k, 'v) shared" where
  "shared_init t = \<lparr>cache = NewExpiringCache, pcs = (\<lambda>_. Idle), clock = t\<rparr>"

text \<open>One action: the reply of a read (\<open>None\<close> for the others) and the next state, or \<open>None\<close> when
  the goroutine is not at that point.\<close>

fun act :: "'v \<Rightarrow> ('k, 'v) action \<Rightarrow> ('k, 'v) shared \<Rightarrow> (('v \<times> bool) option \<times> ('k, 'v) shared) option" where
  "act zeroV (GetRead g k) s =
     (if pcs s g \<noteq> Idle then None
      else case items (cache s) k of
        None \<Rightarrow> Some (Some (zeroV, False), s)
      | Some i \<Rightarrow>
          if expired (clock s) i then Some (Some (zeroV, False), s\<lparr>pcs := (pcs s)(g := Expiring k)\<rparr>)
          else Some (Some (item i, True), s))"
| "act zeroV (ExpireDelete g) s =
     (case pcs s g of
        Idle \<Rightarrow> None
      | Expiring k \<Rightarrow> Some (None, s\<lparr>cache := ExpiringCache_expire k (cache s), pcs := (pcs s)(g := Idle)\<rparr>))"
| "act zeroV (DoPut g k v d) s =
     (if pcs s g \<noteq> Idle then None else Some (None, s\<lparr>cache := ExpiringCache_Put (clock s) k v d (cache s)\<rparr>))"
| "act zeroV (DoDelete g k) s =
     (if pcs s g \<noteq> Idle then None else Some (None, s\<lparr>cache := ExpiringCache_Delete k (cache s)\<rparr>))"
| "act zeroV (Tick d) s = (if 0 \<le> d then Some (None, s\<lparr>clock := clock s + d\<rparr>) else None)"

text \<open>A schedule, with the puts and deletes it performed as the client's expectation.\<close>

inductive exec :: "'v \<Rightarrow> ('k, 'v) action list \<Rightarrow> ('k, 'v) shared \<Rightarrow> ('k \<Rightarrow> 'v expiringItem option) \<Rightarrow> bool" for zeroV where
  exec_Nil: "exec zeroV [] (shared_init t) Map.empty"
| exec_step: "exec zeroV as s m \<Longrightarrow> act zeroV a s = Some (r, s') \<Longrightarrow>
    m' = (case a of DoPut g k v d \<Rightarrow> m(k \<mapsto> \<lparr>item = v, expires = clock s + d\<rparr>) | DoDelete g k \<Rightarrow> m(k := None) | _ \<Rightarrow> m) \<Longrightarrow>
    exec zeroV (as @ [a]) s' m'"

inductive_cases exec_snocE: "exec zeroV (as @ [a]) s m"

lemma exec_sub_expect: "exec zeroV as s m \<Longrightarrow> items (cache s) \<subseteq>\<^sub>m m"
proof (induction rule: exec.induct)
  case (exec_step as s m a r s' m')
  then show ?case
    by (cases a) (auto simp: map_le_def cache_defs dom_def split: if_splits option.splits pc.splits)
qed (simp add: shared_init_def NewExpiringCache_def)

section \<open>Properties\<close>

text \<open>Property C6. The expiring cache returns exactly what a client expects: after any history of
  calls made at times up to \<open>T\<close>, a lookup at \<open>T\<close> hits if and only if the last put of the key was
  not deleted and has not expired, and returns that value; lookups in between, which delete
  expired entries, change nothing.\<close>

theorem expiring_cache_exact:
  assumes "\<And>x t. x \<in> set ops \<Longrightarrow> op_time x = Some t \<Longrightarrow> t \<le> T"
  shows "hit (fst (ExpiringCache_Get zeroV T k
      (fold (exec_op (ExpiringCache_Get zeroV) ExpiringCache_Put ExpiringCache_Delete) ops NewExpiringCache))) =
    live T (last_put ops k)"
  by (rule expiring.hit_exact) (use assms in \<open>auto simp: NewExpiringCache_def\<close>)

lemma expiring_cache_exact_witness:
  "hit (fst (ExpiringCache_Get 0 20 ''a'' (fold (exec_op (ExpiringCache_Get 0) ExpiringCache_Put ExpiringCache_Delete)
      [OpPut 10 ''a'' (7 :: nat) 5, OpGet 16 ''a'', OpPut 17 ''a'' 8 3] NewExpiringCache))) = Some 8"
  by (subst expiring_cache_exact) (auto simp: last_put_def live_def expired_def)

text \<open>Property C33. The expiring LRU never returns a stale value: whatever the library evicts, a hit
  returns the value of the last put of the key, which was not deleted and has not expired.\<close>

theorem lru_expiring_sound:
  assumes "lru_laws lib lok lview" "lok c" "lview c = Map.empty"
    "hit (fst (LruCacheExpiring_Get lib zeroV t k
       (fold (exec_op (LruCacheExpiring_Get lib zeroV) (LruCacheExpiring_Put lib) (LruCacheExpiring_Delete lib)) ops c))) = Some v"
  shows "\<exists>e. last_put ops k = Some \<lparr>item = v, expires = e\<rparr> \<and> t \<le> e"
  by (rule ttl_cache.hit_sound [OF lru_expiring.lru_ttl_cache [OF lru_expiring.intro [OF assms(1)]] assms(2-4)])

lemma lru_expiring_sound_witness:
  "\<exists>e. last_put [OpPut 1 ''a'' (7 :: nat) 5, OpPut 2 ''b'' 8 5, OpGet 3 ''a'', OpPut 4 ''c'' 9 5] ''a'' =
     Some \<lparr>item = 7, expires = e\<rparr> \<and> 5 \<le> e"
  by (rule lru_expiring_sound [OF list_lru.lru_laws_axioms, of "(2, [])" "\<lparr>item = 0, expires = 0\<rparr>"])
    (simp_all add: list_ok_def list_view_def list_lru_def LruCacheExpiring_Get_def LruCache_Get_def
      LruCacheExpiring_Put_def LruCache_Put_def expired_def hit_def)

text \<open>Property C27. Under every interleaving of the locked regions a hit is still the last value put
  and not expired.\<close>

theorem interleaved_hit_sound:
  assumes "exec zeroV as s m" "act zeroV (GetRead g k) s = Some (Some (v, True), s')"
  shows "\<exists>e. m k = Some \<lparr>item = v, expires = e\<rparr> \<and> clock s \<le> e"
proof -
  obtain i where i: "items (cache s) k = Some i" "\<not> expired (clock s) i" "item i = v"
    using assms(2) by (auto split: if_splits option.splits)
  then have "m k = Some i" using exec_sub_expect [OF assms(1)] by (metis domI map_le_def)
  then show ?thesis using i(2,3) by (intro exI [of _ "expires i"]) (auto simp: expired_def)
qed

text \<open>The schedule of a lost put: a lookup sees the entry expired, another goroutine puts a fresh
  one, and the deferred \<open>expire\<close> of the first then deletes it.\<close>

definition lost_put_schedule :: "(string, nat) action list" where
  "lost_put_schedule = [DoPut 0 ''k'' 1 5, Tick 10, GetRead 1 ''k'', DoPut 0 ''k'' 2 100, ExpireDelete 1]"

text \<open>The interleaved cache can lose a put: after this schedule the last put of the
  key is neither deleted nor expired, and a lookup misses.\<close>

theorem interleaved_put_lost:
  "\<exists>s m. exec 0 lost_put_schedule s m \<and> live (clock s) (m ''k'') = Some 2 \<and>
     act 0 (GetRead 2 ''k'') s = Some (Some (0, False), s)"
proof -
  let ?e1 = "\<lparr>item = 1 :: nat, expires = 5\<rparr>" and ?e2 = "\<lparr>item = 2 :: nat, expires = 110\<rparr>"
  define s where "s xs p t = \<lparr>cache = \<lparr>items = xs\<rparr>, pcs = (\<lambda>_. Idle)(1 := p), clock = t\<rparr>" for xs :: "string \<Rightarrow> nat expiringItem option" and p :: "string pc" and t
  have 0: "exec 0 [] (s Map.empty Idle 0) Map.empty"
    using exec_Nil [of 0 0] by (simp add: s_def shared_init_def NewExpiringCache_def fun_upd_idem)
  have 1: "exec 0 [DoPut 0 ''k'' 1 5] (s [''k'' \<mapsto> ?e1] Idle 0) [''k'' \<mapsto> ?e1]"
    using exec_step [OF 0, of "DoPut 0 ''k'' 1 5"] by (simp add: s_def ExpiringCache_Put_def)
  have 2: "exec 0 [DoPut 0 ''k'' 1 5, Tick 10] (s [''k'' \<mapsto> ?e1] Idle 10) [''k'' \<mapsto> ?e1]"
    using exec_step [OF 1, of "Tick 10"] by (simp add: s_def)
  have 3: "exec 0 [DoPut 0 ''k'' 1 5, Tick 10, GetRead 1 ''k''] (s [''k'' \<mapsto> ?e1] (Expiring ''k'') 10) [''k'' \<mapsto> ?e1]"
    using exec_step [OF 2, of "GetRead 1 ''k''"] by (simp add: s_def expired_def)
  have 4: "exec 0 [DoPut 0 ''k'' 1 5, Tick 10, GetRead 1 ''k'', DoPut 0 ''k'' 2 100]
      (s [''k'' \<mapsto> ?e2] (Expiring ''k'') 10) [''k'' \<mapsto> ?e2]"
    using exec_step [OF 3, of "DoPut 0 ''k'' 2 100"] by (simp add: s_def ExpiringCache_Put_def)
  have "exec 0 lost_put_schedule (s Map.empty Idle 10) [''k'' \<mapsto> ?e2]"
    using exec_step [OF 4, of "ExpireDelete 1"] by (simp add: s_def ExpiringCache_expire_def lost_put_schedule_def)
  moreover have "act 0 (GetRead 2 ''k'') (s Map.empty Idle 10) = Some (Some (0, False), s Map.empty Idle 10)"
    by (simp add: s_def)
  ultimately show ?thesis by (intro exI [of _ "s Map.empty Idle 10"] exI) (auto simp: live_def expired_def s_def)
qed

lemma interleaved_hit_sound_witness:
  "\<exists>e. [''k'' \<mapsto> \<lparr>item = 1 :: nat, expires = 5\<rparr>] ''k'' = Some \<lparr>item = 1, expires = e\<rparr> \<and> (0 :: int) \<le> e"
proof -
  have "exec 0 [DoPut 0 ''k'' 1 5] \<lparr>cache = \<lparr>items = [''k'' \<mapsto> \<lparr>item = 1 :: nat, expires = 5\<rparr>]\<rparr>, pcs = (\<lambda>_. Idle), clock = 0\<rparr>
      [''k'' \<mapsto> \<lparr>item = 1, expires = 5\<rparr>]"
    using exec_step [OF exec_Nil [of 0 0], of "DoPut 0 ''k'' 1 5" None
      "\<lparr>cache = \<lparr>items = [''k'' \<mapsto> \<lparr>item = 1 :: nat, expires = 5\<rparr>]\<rparr>, pcs = (\<lambda>_. Idle), clock = 0\<rparr>"]
    by (simp add: shared_init_def NewExpiringCache_def ExpiringCache_Put_def del: One_nat_def)
  from interleaved_hit_sound [OF this, of 1 "''k''" 1] show ?thesis by (simp add: expired_def)
qed

text \<open>The history of a cache of one validity, as the expiring cache underneath sees it.\<close>

fun with_validity :: "int \<Rightarrow> ('k, 'v) cache_op \<Rightarrow> ('k, 'v) cache_op" where
  "with_validity d (OpPut t k v d') = OpPut t k v d"
| "with_validity d x = x"

abbreviation fixed_exec where
  "fixed_exec zeroV \<equiv> exec_op (FixedExpiryCache_Get zeroV) (\<lambda>t k v d. FixedExpiryCache_Put t k v) FixedExpiryCache_Delete"

lemma fixed_exec_refines:
  "fixed_cache (fixed_exec zeroV x f) =
     exec_op (ExpiringCache_Get zeroV) ExpiringCache_Put ExpiringCache_Delete (with_validity (validity f) x) (fixed_cache f) \<and>
   validity (fixed_exec zeroV x f) = validity f"
  by (cases x) (auto simp: FixedExpiryCache_Get_def FixedExpiryCache_Put_def FixedExpiryCache_Delete_def split: prod.split)

lemma fixed_run_refines:
  "fixed_cache (fold (fixed_exec zeroV) ops f) =
     fold (exec_op (ExpiringCache_Get zeroV) ExpiringCache_Put ExpiringCache_Delete)
       (map (with_validity (validity f)) ops) (fixed_cache f)"
  by (induction ops arbitrary: f) (simp_all add: fixed_exec_refines)

lemma op_time_with_validity [simp]: "op_time (with_validity d x) = op_time x"
  by (cases x) simp_all

text \<open>The cache of one validity is the expiring cache whose puts all carry that
  validity: after any history of calls up to \<open>T\<close> it hits exactly when the last put of the key is
  live at \<open>T\<close>.\<close>

theorem fixed_cache_exact:
  assumes "\<And>x t. x \<in> set ops \<Longrightarrow> op_time x = Some t \<Longrightarrow> t \<le> T"
  shows "hit (fst (FixedExpiryCache_Get zeroV T k (fold (fixed_exec zeroV) ops (NewFixedExpiryCache d)))) =
    live T (last_put (map (with_validity d) ops) k)"
proof -
  have eq: "hit (fst (FixedExpiryCache_Get zeroV T k f)) = hit (fst (ExpiringCache_Get zeroV T k (fixed_cache f)))" for f
    by (simp add: FixedExpiryCache_Get_def split: prod.split)
  have new: "validity (NewFixedExpiryCache d) = d" "fixed_cache (NewFixedExpiryCache d) = NewExpiringCache"
    by (simp_all add: NewFixedExpiryCache_def)
  show ?thesis unfolding eq fixed_run_refines new
    by (rule expiring.hit_exact) (use assms in \<open>auto simp: NewExpiringCache_def\<close>)
qed

lemma fixed_cache_exact_witness:
  "hit (fst (FixedExpiryCache_Get 0 13 ''a'' (fold (fixed_exec 0)
      [OpPut 10 ''a'' (7 :: nat) 99, OpGet 12 ''a''] (NewFixedExpiryCache 2)))) = None"
  by (subst fixed_cache_exact) (auto simp: last_put_def live_def expired_def)

end
