(* ===== verification/Event_Bus.thy ===== *)
theory Event_Bus
  imports Prelude "HOL-Library.Multiset"
begin

text \<open>
  \<open>events/events.go\<close> and \<open>events/wrapper.go\<close>: the event handler. The registry of listeners is a
  map by type name; a dispatch hands one job per listener to the channel \<open>events\<close> of capacity
  100, from which the workers of \<open>Run\<close> and the drainer of \<open>Flush\<close> take them. The goroutines are
  the components of the state, and one action is one operation on a channel, a wait group or the
  registry. A listener is a function of the event that returns its error or panics; a value's
  type assertion is the parameter \<open>is_a\<close>.
\<close>

section \<open>Names of types\<close>

text \<open>What \<open>reflect\<close> tells of a type: its package and name, or the kind of an unnamed type.\<close>

datatype gotype = Named string string | PointerTo gotype | OtherKind string

fun type_Name :: "gotype \<Rightarrow> string" where
  "type_Name (Named p n) = n"
| "type_Name _ = ''''"

fun type_PkgPath :: "gotype \<Rightarrow> string" where
  "type_PkgPath (Named p n) = p"
| "type_PkgPath _ = ''''"

definition event_name :: "gotype \<Rightarrow> go_error + string" where
  "event_name T =
     (if type_Name T \<noteq> '''' then Inr (type_PkgPath T @ ''/'' @ type_Name T)
      else case T of
        PointerTo E \<Rightarrow> Inr (''*'' @ type_PkgPath E @ ''.'' @ type_Name E)
      | _ \<Rightarrow> Inl (ESentinel ErrUnknownType))"

section \<open>The state\<close>

type_synonym 'e listener = "'e \<Rightarrow> go_error option outcome"

definition wrapListener :: "('e \<Rightarrow> gotype \<Rightarrow> bool) \<Rightarrow> gotype \<Rightarrow> 'e listener \<Rightarrow> 'e listener" where
  "wrapListener is_a T l a = (if is_a a T then l a else Ret (Some (ESentinel ErrInvalidEventType)))"

definition wrapListeners :: "('e \<Rightarrow> gotype \<Rightarrow> bool) \<Rightarrow> gotype \<Rightarrow> 'e listener list \<Rightarrow> 'e listener list" where
  "wrapListeners is_a T lis = foldl (\<lambda>out l. out @ [wrapListener is_a T l]) [] lis"

record 'e job =
  j_listener :: "'e listener"
  j_event :: 'e
  j_chan :: "nat option"

text \<open>A result channel of \<open>DispatchChannel\<close>: its capacity, what was sent, the wait group
  \<open>results\<close>, whether the goroutine that closes it was started, and whether it is closed.\<close>

record result_chan =
  cap :: nat
  sent :: "go_error option list"
  results :: int
  closer :: bool
  chan_closed :: bool

text \<open>A dispatching goroutine: the job it counted and is sending, and the ones after it.\<close>

record 'e sender =
  held :: "'e job option"
  todo :: "'e job list"
  reply :: "nat option"

text \<open>Where the goroutine that called \<open>Flush\<close> is: in \<open>e.wg.Wait()\<close>, past it and in
  \<open>e.running.Wait()\<close>, or past both. The two waits are separate steps: what the first one saw may
  have changed when the second one returns.\<close>

datatype flush_pc = NoFlush | WaitsForJobs | WaitsForWorkers | FlushReturned

text \<open>Who runs a job: a goroutine of \<open>Run\<close> or the drainer of \<open>Flush\<close>. \<open>workers\<close> and
  \<open>drainers\<close> count those that are not running one; \<open>accepted\<close> and \<open>finished\<close> record the jobs of
  the dispatches made and the jobs run.\<close>

datatype taker = Worker | Drainer

record 'e EventHandler =
  handlers :: "string \<Rightarrow> 'e listener list option"
  events_ch :: "'e job list"
  wg :: int
  closed :: bool
  cancelled :: bool
  workers :: nat
  drainers :: nat
  senders :: "'e sender list"
  in_flight :: "(taker \<times> 'e job) list"
  chans :: "nat \<Rightarrow> result_chan option"
  accepted :: "'e job list"
  finished :: "'e job list"
  flush_pc :: flush_pc

definition New_EventHandler :: "'e EventHandler" where
  "New_EventHandler =
     \<lparr>handlers = Map.empty, events_ch = [], wg = 0, closed = False, cancelled = False, workers = 0,
      drainers = 0, senders = [], in_flight = [], chans = Map.empty, accepted = [], finished = [], flush_pc = NoFlush\<rparr>"

section \<open>The registry\<close>

definition Listen ::
    "('e \<Rightarrow> gotype \<Rightarrow> bool) \<Rightarrow> gotype \<Rightarrow> 'e listener list \<Rightarrow> 'e EventHandler \<Rightarrow> go_error + 'e EventHandler" where
  "Listen is_a T lis e =
     (case event_name T of
        Inl err \<Rightarrow> Inl (wrapf ''namespace event'' err)
      | Inr name \<Rightarrow>
          let old = (case handlers e name of Some hs \<Rightarrow> hs | None \<Rightarrow> [])
          in Inr (e\<lparr>handlers := (handlers e)(name \<mapsto> old @ wrapListeners is_a T lis)\<rparr>))"

definition getHandlers :: "gotype \<Rightarrow> 'e EventHandler \<Rightarrow> go_error + 'e listener list" where
  "getHandlers T e =
     (case event_name T of
        Inl err \<Rightarrow> Inl (wrapf ''namespace event'' err)
      | Inr name \<Rightarrow>
          (case handlers e name of
             None \<Rightarrow> Inl (EWrap (sentinel_text ErrUnregisteredEvent @ '': '' @ name) (ESentinel ErrUnregisteredEvent))
           | Some hs \<Rightarrow> Inr hs))"

section \<open>Dispatching\<close>

text \<open>\<open>dispatch\<close> up to its loop: the sender starts with one job per listener.\<close>

definition dispatch_start :: "'e listener list \<Rightarrow> 'e \<Rightarrow> nat option \<Rightarrow> 'e EventHandler \<Rightarrow> 'e EventHandler" where
  "dispatch_start hs event ch e =
     (let jobs = map (\<lambda>h. \<lparr>j_listener = h, j_event = event, j_chan = ch\<rparr>) hs
      in e\<lparr>senders := senders e @ [\<lparr>held = None, todo = jobs, reply = ch\<rparr>], accepted := accepted e @ jobs\<rparr>)"

definition Dispatch :: "gotype \<Rightarrow> 'e \<Rightarrow> 'e EventHandler \<Rightarrow> go_error + 'e EventHandler" where
  "Dispatch T event e =
     (case getHandlers T e of
        Inl err \<Rightarrow> Inl (wrapf ''namespace event'' err)
      | Inr hs \<Rightarrow> Inr (dispatch_start hs event None e))"

text \<open>\<open>DispatchChannel\<close> makes a channel with one place per listener; \<open>c\<close> is its fresh address.\<close>

definition DispatchChannel :: "nat \<Rightarrow> gotype \<Rightarrow> 'e \<Rightarrow> 'e EventHandler \<Rightarrow> go_error + 'e EventHandler" where
  "DispatchChannel c T event e =
     (case getHandlers T e of
        Inl err \<Rightarrow> Inl (wrapf ''namespace event'' err)
      | Inr hs \<Rightarrow>
          Inr (dispatch_start hs event (Some c)
            (e\<lparr>chans := (chans e)(c \<mapsto> \<lparr>cap = length hs, sent = [], results = 0, closer = False, chan_closed = False\<rparr>)\<rparr>)))"

definition upd_chan :: "nat option \<Rightarrow> (result_chan \<Rightarrow> result_chan) \<Rightarrow> 'e EventHandler \<Rightarrow> 'e EventHandler" where
  "upd_chan co f e =
     (case co of None \<Rightarrow> e
      | Some c \<Rightarrow> e\<lparr>chans := (chans e)(c := map_option f (chans e c))\<rparr>)"

text \<open>The loop of \<open>dispatch\<close>: \<open>e.wg.Add(1)\<close> and \<open>results.Add(1)\<close>, then the send, which blocks
  while the channel is full; after the last one the goroutine that closes the results starts.\<close>

definition arm :: "nat \<Rightarrow> 'e EventHandler \<Rightarrow> 'e EventHandler option" where
  "arm i e =
     (if i < length (senders e) \<and> held (senders e ! i) = None then
        (case todo (senders e ! i) of
           [] \<Rightarrow> None
         | j # js \<Rightarrow> Some (upd_chan (j_chan j) (\<lambda>r. r\<lparr>results := results r + 1\<rparr>)
             (e\<lparr>wg := wg e + 1, senders := (senders e)[i := (senders e ! i)\<lparr>held := Some j, todo := js\<rparr>]\<rparr>)))
      else None)"

definition send_job :: "nat \<Rightarrow> 'e EventHandler \<Rightarrow> 'e EventHandler option" where
  "send_job i e =
     (if i < length (senders e) then
        (case held (senders e ! i) of
           None \<Rightarrow> None
         | Some j \<Rightarrow> if length (events_ch e) < 100
             then Some (e\<lparr>events_ch := events_ch e @ [j], senders := (senders e)[i := (senders e ! i)\<lparr>held := None\<rparr>]\<rparr>)
             else None)
      else None)"

definition dispatch_return :: "nat \<Rightarrow> 'e EventHandler \<Rightarrow> 'e EventHandler option" where
  "dispatch_return i e =
     (if i < length (senders e) \<and> held (senders e ! i) = None \<and> todo (senders e ! i) = []
      then Some (upd_chan (reply (senders e ! i)) (\<lambda>r. r\<lparr>closer := True\<rparr>)
             (e\<lparr>senders := (senders e)[i := (senders e ! i)\<lparr>reply := None\<rparr>]\<rparr>))
      else None)"

definition close_results :: "nat \<Rightarrow> 'e EventHandler \<Rightarrow> 'e EventHandler option" where
  "close_results c e =
     (case chans e c of
        Some r \<Rightarrow> if closer r \<and> \<not> chan_closed r \<and> results r = 0
                  then Some (e\<lparr>chans := (chans e)(c \<mapsto> r\<lparr>chan_closed := True\<rparr>)\<rparr>) else None
      | None \<Rightarrow> None)"

section \<open>Running the jobs\<close>

text \<open>The body of a job. A panic is recovered before anything is sent; the send on the result
  channel blocks when it is full (\<open>None\<close>), and panics, recovered, when it is closed.\<close>

definition send_result :: "nat option \<Rightarrow> go_error option \<Rightarrow> 'e EventHandler \<Rightarrow> 'e EventHandler option" where
  "send_result co err e =
     (case co of
        None \<Rightarrow> Some e
      | Some c \<Rightarrow>
          (case chans e c of
             None \<Rightarrow> None
           | Some r \<Rightarrow> if chan_closed r then Some e
                       else if length (sent r) < cap r
                       then Some (e\<lparr>chans := (chans e)(c \<mapsto> r\<lparr>sent := sent r @ [err]\<rparr>)\<rparr>)
                       else None))"

definition job_done :: "'e job \<Rightarrow> 'e EventHandler \<Rightarrow> 'e EventHandler" where
  "job_done j e =
     upd_chan (j_chan j) (\<lambda>r. r\<lparr>results := results r - 1\<rparr>) (e\<lparr>wg := wg e - 1, finished := finished e @ [j]\<rparr>)"

definition go_idle :: "taker \<Rightarrow> 'e EventHandler \<Rightarrow> 'e EventHandler" where
  "go_idle k e = (case k of Worker \<Rightarrow> e\<lparr>workers := workers e + 1\<rparr> | Drainer \<Rightarrow> e\<lparr>drainers := drainers e + 1\<rparr>)"

definition finish_job :: "nat \<Rightarrow> 'e EventHandler \<Rightarrow> 'e EventHandler option" where
  "finish_job i e =
     (if i < length (in_flight e) then
        (case in_flight e ! i of (k, j) \<Rightarrow>
           let e' = go_idle k (e\<lparr>in_flight := remove_nth i (in_flight e)\<rparr>)
           in case j_listener j (j_event j) of
                Panic m \<Rightarrow> Some (job_done j e')
              | Ret err \<Rightarrow> map_option (job_done j) (send_result (j_chan j) err e'))
      else None)"

definition take_job :: "taker \<Rightarrow> 'e EventHandler \<Rightarrow> 'e EventHandler option" where
  "take_job k e =
     (case events_ch e of
        [] \<Rightarrow> None
      | j # js \<Rightarrow> Some (e\<lparr>events_ch := js, in_flight := in_flight e @ [(k, j)]\<rparr>))"

text \<open>\<open>Run\<close> starts \<open>n\<close> workers (\<open>runtime.NumCPU()\<close>). A worker takes a job or, once the handler is
  closed or the context cancelled, may return; \<open>select\<close> chooses between what is ready.\<close>

definition Run :: "nat \<Rightarrow> 'e EventHandler \<Rightarrow> 'e EventHandler" where
  "Run n e = e\<lparr>workers := workers e + n\<rparr>"

definition worker_take :: "'e EventHandler \<Rightarrow> 'e EventHandler option" where
  "worker_take e = (if 0 < workers e then take_job Worker (e\<lparr>workers := workers e - 1\<rparr>) else None)"

definition worker_exit :: "'e EventHandler \<Rightarrow> 'e EventHandler option" where
  "worker_exit e =
     (if 0 < workers e \<and> (closed e \<or> cancelled e) then Some (e\<lparr>workers := workers e - 1\<rparr>) else None)"

text \<open>\<open>Flush\<close> closes \<open>e.closed\<close>, which panics when it is closed already, starts the drainer, and
  waits: for the jobs, then for the workers.\<close>

definition Flush :: "'e EventHandler \<Rightarrow> 'e EventHandler outcome" where
  "Flush e =
     (if closed e then Panic ''close of closed channel''
      else Ret (e\<lparr>closed := True, drainers := drainers e + 1, flush_pc := WaitsForJobs\<rparr>))"

definition jobs_waited :: "'e EventHandler \<Rightarrow> 'e EventHandler option" where
  "jobs_waited e = (if flush_pc e = WaitsForJobs \<and> wg e = 0 then Some (e\<lparr>flush_pc := WaitsForWorkers\<rparr>) else None)"

definition workers_waited :: "'e EventHandler \<Rightarrow> 'e EventHandler option" where
  "workers_waited e =
     (if flush_pc e = WaitsForWorkers \<and> workers e = 0 \<and> list_all (\<lambda>p. fst p \<noteq> Worker) (in_flight e)
      then Some (e\<lparr>flush_pc := FlushReturned\<rparr>) else None)"

definition flush_returns :: "'e EventHandler \<Rightarrow> bool" where
  "flush_returns e \<longleftrightarrow> flush_pc e = FlushReturned"

definition drainer_take :: "'e EventHandler \<Rightarrow> 'e EventHandler option" where
  "drainer_take e = (if 0 < drainers e then take_job Drainer (e\<lparr>drainers := drainers e - 1\<rparr>) else None)"

definition drainer_exit :: "'e EventHandler \<Rightarrow> 'e EventHandler option" where
  "drainer_exit e = (if 0 < drainers e \<and> events_ch e = [] then Some (e\<lparr>drainers := drainers e - 1\<rparr>) else None)"

definition Reset :: "'e EventHandler \<Rightarrow> 'e EventHandler" where
  "Reset e = e\<lparr>closed := False, flush_pc := NoFlush\<rparr>"

section \<open>The global handler\<close>

definition SetGlobal :: "'e EventHandler \<Rightarrow> 'e EventHandler option" where
  "SetGlobal h = Some h"

text \<open>The package-level functions apply an operation to the global handler.\<close>

definition with_global :: "('e EventHandler \<Rightarrow> go_error + 'e EventHandler) \<Rightarrow> 'e EventHandler option \<Rightarrow>
    (go_error + 'e EventHandler) outcome" where
  "with_global f global =
     (case global of None \<Rightarrow> Panic ''cannot process event on nil global'' | Some e \<Rightarrow> Ret (f e))"

definition global_Listen where "global_Listen is_a T lis = with_global (Listen is_a T lis)"
definition global_Dispatch where "global_Dispatch T event = with_global (Dispatch T event)"
definition global_DispatchChannel where "global_DispatchChannel c T event = with_global (DispatchChannel c T event)"

section \<open>Executions\<close>

datatype 'e bus_action =
    AListen gotype "'e listener list" | ADispatch gotype 'e | ADispatchChannel nat gotype 'e
  | AArm nat | ASend nat | AReturn nat | AClose nat
  | ARun nat | ATake | AExit | ACancel | AFlush | ADrain | ADrainExit | AFinish nat
  | AWaitJobs | AWaitWorkers | AReset

text \<open>\<open>DispatchChannel\<close> makes its channel, so its address is new; \<open>Reset\<close> is only called after
  \<open>Flush\<close> returned, as its comment demands.\<close>

fun bus_act :: "('e \<Rightarrow> gotype \<Rightarrow> bool) \<Rightarrow> 'e bus_action \<Rightarrow> 'e EventHandler \<Rightarrow> 'e EventHandler option" where
  "bus_act is_a (AListen T lis) e = (case Listen is_a T lis e of Inl err \<Rightarrow> Some e | Inr e' \<Rightarrow> Some e')"
| "bus_act is_a (ADispatch T event) e = (case Dispatch T event e of Inl err \<Rightarrow> Some e | Inr e' \<Rightarrow> Some e')"
| "bus_act is_a (ADispatchChannel c T event) e =
     (if chans e c \<noteq> None then None
      else case DispatchChannel c T event e of Inl err \<Rightarrow> Some e | Inr e' \<Rightarrow> Some e')"
| "bus_act is_a (AArm i) e = arm i e"
| "bus_act is_a (ASend i) e = send_job i e"
| "bus_act is_a (AReturn i) e = dispatch_return i e"
| "bus_act is_a (AClose c) e = close_results c e"
| "bus_act is_a (ARun n) e = Some (Run n e)"
| "bus_act is_a ATake e = worker_take e"
| "bus_act is_a AExit e = worker_exit e"
| "bus_act is_a ACancel e = Some (e\<lparr>cancelled := True\<rparr>)"
| "bus_act is_a AFlush e = (case Flush e of Ret e' \<Rightarrow> Some e' | Panic m \<Rightarrow> None)"
| "bus_act is_a ADrain e = drainer_take e"
| "bus_act is_a ADrainExit e = drainer_exit e"
| "bus_act is_a (AFinish i) e = finish_job i e"
| "bus_act is_a AWaitJobs e = jobs_waited e"
| "bus_act is_a AWaitWorkers e = workers_waited e"
| "bus_act is_a AReset e = (if flush_returns e then Some (Reset e) else None)"

inductive bus_reach :: "('e \<Rightarrow> gotype \<Rightarrow> bool) \<Rightarrow> 'e EventHandler \<Rightarrow> bool" for is_a where
  bus_init: "bus_reach is_a New_EventHandler"
| bus_step: "bus_reach is_a e \<Longrightarrow> bus_act is_a a e = Some e' \<Longrightarrow> bus_reach is_a e'"

section \<open>What the actions do to the jobs\<close>

definition held_list :: "'e sender \<Rightarrow> 'e job list" where
  "held_list s = (case held s of None \<Rightarrow> [] | Some j \<Rightarrow> [j])"

definition held_jobs :: "'e EventHandler \<Rightarrow> 'e job multiset" where
  "held_jobs e = mset (concat (map held_list (senders e)))"

definition todo_jobs :: "'e EventHandler \<Rightarrow> 'e job multiset" where
  "todo_jobs e = mset (concat (map todo (senders e)))"

text \<open>The jobs the wait group counts: on the channel, being run, or held by a blocked sender.\<close>

definition counted :: "'e EventHandler \<Rightarrow> 'e job multiset" where
  "counted e = mset (events_ch e) + mset (map snd (in_flight e)) + held_jobs e"

definition reply_count :: "nat \<Rightarrow> 'e EventHandler \<Rightarrow> nat" where
  "reply_count c e = length (filter (\<lambda>s. reply s = Some c) (senders e))"

definition senders_ok :: "'e EventHandler \<Rightarrow> bool" where
  "senders_ok e \<longleftrightarrow> (\<forall>s \<in> set (senders e). \<forall>j \<in> set (held_list s @ todo s). j_chan j = reply s)"

lemma upd_chan_sel [simp]:
  "handlers (upd_chan co f e) = handlers e" "events_ch (upd_chan co f e) = events_ch e"
  "wg (upd_chan co f e) = wg e" "closed (upd_chan co f e) = closed e" "cancelled (upd_chan co f e) = cancelled e"
  "workers (upd_chan co f e) = workers e" "drainers (upd_chan co f e) = drainers e"
  "senders (upd_chan co f e) = senders e" "in_flight (upd_chan co f e) = in_flight e"
  "accepted (upd_chan co f e) = accepted e" "finished (upd_chan co f e) = finished e"
  "flush_pc (upd_chan co f e) = flush_pc e"
  "chans (upd_chan co f e) c = (if co = Some c then map_option f (chans e c) else chans e c)"
  by (auto simp: upd_chan_def split: option.splits)

lemma mset_concat_update:
  "i < length xs \<Longrightarrow> mset (concat (map f (xs[i := y]))) + mset (f (xs ! i)) = mset (concat (map f xs)) + mset (f y)"
proof (induction xs arbitrary: i)
  case (Cons x xs)
  then show ?case by (cases i) (auto simp: ac_simps)
qed simp

lemma length_filter_update:
  "i < length xs \<Longrightarrow>
   length (filter P (xs[i := y])) + (if P (xs ! i) then 1 else 0) = length (filter P xs) + (if P y then 1 else 0)"
proof (induction xs arbitrary: i)
  case (Cons x xs)
  then show ?case by (cases i) auto
qed simp

lemma held_jobs_update:
  "i < length (senders e) \<Longrightarrow> e' = e\<lparr>senders := (senders e)[i := y]\<rparr> \<Longrightarrow>
   held_jobs e' + mset (held_list (senders e ! i)) = held_jobs e + mset (held_list y)"
  by (simp add: held_jobs_def mset_concat_update)

lemma todo_jobs_update:
  "i < length (senders e) \<Longrightarrow> e' = e\<lparr>senders := (senders e)[i := y]\<rparr> \<Longrightarrow>
   todo_jobs e' + mset (todo (senders e ! i)) = todo_jobs e + mset (todo y)"
  by (simp add: todo_jobs_def mset_concat_update)

text \<open>The fields the invariant reads, as one tuple.\<close>

lemmas jobs_defs = held_jobs_def todo_jobs_def counted_def reply_count_def

lemma arm_effect:
  assumes "arm i e = Some e'"
  obtains j where "todo_jobs e = add_mset j (todo_jobs e')" "counted e' = add_mset j (counted e)"
    "wg e' = wg e + 1" "events_ch e' = events_ch e" "accepted e' = accepted e" "finished e' = finished e"
    "\<And>c. reply_count c e' = reply_count c e"
    "\<And>c. chans e' c = (if j_chan j = Some c then map_option (\<lambda>r. r\<lparr>results := results r + 1\<rparr>) (chans e c) else chans e c)"
    "senders_ok e \<Longrightarrow> senders_ok e'"
proof -
  from assms obtain j js where i: "i < length (senders e)" "held (senders e ! i) = None" "todo (senders e ! i) = j # js"
    and e': "e' = upd_chan (j_chan j) (\<lambda>r. r\<lparr>results := results r + 1\<rparr>)
        (e\<lparr>wg := wg e + 1, senders := (senders e)[i := (senders e ! i)\<lparr>held := Some j, todo := js\<rparr>]\<rparr>)"
    by (auto simp: arm_def split: if_splits list.splits)
  let ?y = "(senders e ! i)\<lparr>held := Some j, todo := js\<rparr>"
  have h: "mset (concat (map held_list ((senders e)[i := ?y]))) = add_mset j (mset (concat (map held_list (senders e))))"
    using mset_concat_update [OF i(1), of held_list ?y] i by (simp add: held_list_def)
  have t: "mset (concat (map todo (senders e))) = add_mset j (mset (concat (map todo ((senders e)[i := ?y]))))"
    using mset_concat_update [OF i(1), of todo ?y] i by simp
  have r: "length (filter (\<lambda>s. reply s = Some c) ((senders e)[i := ?y])) = length (filter (\<lambda>s. reply s = Some c) (senders e))" for c
    using length_filter_update [OF i(1), of "\<lambda>s. reply s = Some c" ?y] by (simp split: if_splits)
  have ok: "senders_ok e'" if "senders_ok e"
  proof -
    have "\<forall>j \<in> set (held_list ?y @ todo ?y). j_chan j = reply ?y"
      using that i nth_mem [OF i(1)] by (fastforce simp: senders_ok_def held_list_def)
    then show ?thesis using that by (auto simp: senders_ok_def e' dest!: subsetD [OF set_update_subset_insert])
  qed
  show ?thesis
    by (rule that [of j]) (simp_all add: jobs_defs h t r e' ok add_mset_commute, auto simp: ok [unfolded e'])
qed

lemma send_effect:
  assumes "send_job i e = Some e'"
  shows "todo_jobs e' = todo_jobs e" "counted e' = counted e" "wg e' = wg e"
    "length (events_ch e') \<le> 100" "accepted e' = accepted e" "finished e' = finished e"
    "reply_count c e' = reply_count c e" "chans e' = chans e" "senders_ok e \<Longrightarrow> senders_ok e'"
proof -
  from assms obtain j where i: "i < length (senders e)" "held (senders e ! i) = Some j" "length (events_ch e) < 100"
    and e': "e' = e\<lparr>events_ch := events_ch e @ [j], senders := (senders e)[i := (senders e ! i)\<lparr>held := None\<rparr>]\<rparr>"
    by (auto simp: send_job_def split: if_splits option.splits)
  let ?y = "(senders e ! i)\<lparr>held := None\<rparr>"
  have h: "mset (concat (map held_list (senders e))) = add_mset j (mset (concat (map held_list ((senders e)[i := ?y]))))"
    using mset_concat_update [OF i(1), of held_list ?y] i by (simp add: held_list_def)
  have t: "mset (concat (map todo ((senders e)[i := ?y]))) = mset (concat (map todo (senders e)))"
    using mset_concat_update [OF i(1), of todo ?y] i by simp
  have r: "length (filter (\<lambda>s. reply s = Some c) ((senders e)[i := ?y])) = length (filter (\<lambda>s. reply s = Some c) (senders e))" for c
    using length_filter_update [OF i(1), of "\<lambda>s. reply s = Some c" ?y] by (simp split: if_splits)
  show "todo_jobs e' = todo_jobs e" "counted e' = counted e" "wg e' = wg e"
    "length (events_ch e') \<le> 100" "accepted e' = accepted e" "finished e' = finished e"
    "reply_count c e' = reply_count c e" "chans e' = chans e"
    using i(3) h by (simp_all add: jobs_defs t r e')
  show "senders_ok e'" if "senders_ok e"
  proof -
    have "\<forall>j \<in> set (held_list ?y @ todo ?y). j_chan j = reply ?y"
      using that i nth_mem [OF i(1)] by (fastforce simp: senders_ok_def held_list_def)
    then show ?thesis using that by (auto simp: senders_ok_def e' dest!: subsetD [OF set_update_subset_insert])
  qed
qed

lemma return_effect:
  assumes "dispatch_return i e = Some e'"
  obtains co where "todo_jobs e' = todo_jobs e" "counted e' = counted e" "wg e' = wg e" "events_ch e' = events_ch e"
    "accepted e' = accepted e" "finished e' = finished e"
    "\<And>c. reply_count c e = reply_count c e' + (if co = Some c then 1 else 0)"
    "\<And>c. chans e' c = (if co = Some c then map_option (\<lambda>r. r\<lparr>closer := True\<rparr>) (chans e c) else chans e c)"
    "senders_ok e \<Longrightarrow> senders_ok e'"
proof -
  from assms have i: "i < length (senders e)" "held (senders e ! i) = None" "todo (senders e ! i) = []"
    and e': "e' = upd_chan (reply (senders e ! i)) (\<lambda>r. r\<lparr>closer := True\<rparr>)
             (e\<lparr>senders := (senders e)[i := (senders e ! i)\<lparr>reply := None\<rparr>]\<rparr>)"
    by (auto simp: dispatch_return_def split: if_splits)
  let ?y = "(senders e ! i)\<lparr>reply := None\<rparr>"
  have h: "mset (concat (map held_list ((senders e)[i := ?y]))) = mset (concat (map held_list (senders e)))"
    using mset_concat_update [OF i(1), of held_list ?y] i by (simp add: held_list_def)
  have t: "mset (concat (map todo ((senders e)[i := ?y]))) = mset (concat (map todo (senders e)))"
    using mset_concat_update [OF i(1), of todo ?y] i by simp
  have r: "length (filter (\<lambda>s. reply s = Some c) (senders e)) =
      length (filter (\<lambda>s. reply s = Some c) ((senders e)[i := ?y])) + (if reply (senders e ! i) = Some c then 1 else 0)" for c
    using length_filter_update [OF i(1), of "\<lambda>s. reply s = Some c" ?y] by simp
  have ok: "senders_ok e'" if "senders_ok e"
  proof -
    have "\<forall>j \<in> set (held_list ?y @ todo ?y). j_chan j = reply ?y" using i by (simp add: held_list_def)
    then show ?thesis using that by (auto simp: senders_ok_def e' dest!: subsetD [OF set_update_subset_insert])
  qed
  show ?thesis
    by (rule that [of "reply (senders e ! i)"]) (simp_all add: jobs_defs h t r e', auto simp: ok [unfolded e'])
qed

lemma take_effect:
  assumes "take_job k e = Some e'"
  shows "todo_jobs e' = todo_jobs e" "counted e' = counted e" "wg e' = wg e"
    "length (events_ch e') \<le> length (events_ch e)" "accepted e' = accepted e" "finished e' = finished e"
    "reply_count c e' = reply_count c e" "chans e' = chans e" "senders_ok e' = senders_ok e"
  using assms by (auto simp: take_job_def jobs_defs senders_ok_def split: list.splits)

text \<open>What a job sends when it returns.\<close>

definition job_result :: "'e job \<Rightarrow> go_error option list" where
  "job_result j = (case j_listener j (j_event j) of Ret err \<Rightarrow> [err] | Panic m \<Rightarrow> [])"

definition chan_results :: "nat \<Rightarrow> 'e job list \<Rightarrow> go_error option list" where
  "chan_results c js = concat (map job_result (filter (\<lambda>j. j_chan j = Some c) js))"

definition chan_count :: "nat \<Rightarrow> 'e job multiset \<Rightarrow> nat" where
  "chan_count c M = size (filter_mset (\<lambda>j. j_chan j = Some c) M)"

lemma chan_count_simps [simp]:
  "chan_count c {#} = 0" "chan_count c (M + N) = chan_count c M + chan_count c N"
  "chan_count c (add_mset j M) = (if j_chan j = Some c then Suc (chan_count c M) else chan_count c M)"
  by (simp_all add: chan_count_def)

lemma chan_count_0: "chan_count c M = 0 \<longleftrightarrow> (\<forall>j \<in># M. j_chan j \<noteq> Some c)"
  by (induction M) auto

lemma chan_count_all: "\<forall>j \<in> set js. j_chan j = Some c \<Longrightarrow> chan_count c (mset js) = length js"
  by (induction js) auto

lemma chan_results_length: "length (chan_results c js) \<le> chan_count c (mset js)"
  by (induction js) (auto simp: chan_results_def job_result_def split: outcome.splits)

lemma chan_results_snoc:
  "chan_results c (js @ [j]) = chan_results c js @ (if j_chan j = Some c then job_result j else [])"
  by (simp add: chan_results_def)

lemma go_idle_sel [simp]:
  "events_ch (go_idle k e) = events_ch e" "in_flight (go_idle k e) = in_flight e" "wg (go_idle k e) = wg e"
  "senders (go_idle k e) = senders e" "chans (go_idle k e) = chans e" "accepted (go_idle k e) = accepted e"
  "finished (go_idle k e) = finished e"
  by (simp_all add: go_idle_def split: taker.splits)

text \<open>A job ends: the send on its channel happens when there is room and the channel is open.\<close>

lemma finish_effect:
  assumes "finish_job i e = Some e'"
  obtains j where "todo_jobs e' = todo_jobs e" "counted e = add_mset j (counted e')" "wg e' = wg e - 1"
    "events_ch e' = events_ch e" "accepted e' = accepted e" "finished e' = finished e @ [j]"
    "\<And>c. reply_count c e' = reply_count c e" "senders_ok e' = senders_ok e"
    "\<And>c r. chans e c = Some r \<Longrightarrow> \<not> chan_closed r \<Longrightarrow> chans e' c = Some (if j_chan j = Some c
        then r\<lparr>sent := sent r @ job_result j, results := results r - 1\<rparr> else r)"
    "\<And>c. j_chan j \<noteq> Some c \<Longrightarrow> chans e' c = chans e c"
    "\<And>c. chans e c = None \<Longrightarrow> chans e' c = None"
proof -
  from assms obtain k j where i: "i < length (in_flight e)" "in_flight e ! i = (k, j)"
    by (cases "in_flight e ! i") (auto simp: finish_job_def split: if_splits)
  let ?e = "go_idle k (e\<lparr>in_flight := remove_nth i (in_flight e)\<rparr>)"
  have m: "mset (map snd (in_flight e)) = add_mset j (mset (map snd (remove_nth i (in_flight e))))"
    using mset_remove_nth [of i "map snd (in_flight e)"] i by (simp add: map_remove_nth)
  obtain e1 where e1: "e' = job_done j e1" "events_ch e1 = events_ch e" "wg e1 = wg e" "senders e1 = senders e"
      "in_flight e1 = remove_nth i (in_flight e)" "accepted e1 = accepted e" "finished e1 = finished e"
      "\<And>c r. chans e c = Some r \<Longrightarrow> \<not> chan_closed r \<Longrightarrow>
         chans e1 c = Some (if j_chan j = Some c then r\<lparr>sent := sent r @ job_result j\<rparr> else r)"
      "\<And>c. j_chan j \<noteq> Some c \<Longrightarrow> chans e1 c = chans e c" "\<And>c. chans e c = None \<Longrightarrow> chans e1 c = None"
  proof (cases "j_listener j (j_event j)")
    case (Panic m)
    then have "e' = job_done j ?e" using assms i by (simp add: finish_job_def)
    then show ?thesis by (rule that) (simp_all add: job_result_def Panic)
  next
    case (Ret err)
    then obtain e1 where e1: "send_result (j_chan j) err ?e = Some e1" "e' = job_done j e1"
      using assms i by (auto simp: finish_job_def Let_def)
    show ?thesis
      by (rule that [OF e1(2)])
        (use e1(1) Ret in \<open>auto simp: send_result_def job_result_def split: option.splits if_splits\<close>)
  qed
  show ?thesis
    by (rule that [of j]) (auto simp: e1 job_done_def jobs_defs senders_ok_def m [simplified])
qed

lemma start_effect:
  assumes "e' = dispatch_start hs event co e"
  obtains jobs where "todo_jobs e' = todo_jobs e + mset jobs" "counted e' = counted e" "wg e' = wg e"
    "events_ch e' = events_ch e" "accepted e' = accepted e @ jobs" "finished e' = finished e"
    "\<And>c. reply_count c e' = reply_count c e + (if co = Some c then 1 else 0)" "chans e' = chans e"
    "senders_ok e' = senders_ok e" "\<forall>j \<in> set jobs. j_chan j = co" "length jobs = length hs"
  by (rule that [of "map (\<lambda>h. \<lparr>j_listener = h, j_event = event, j_chan = co\<rparr>) hs"])
    (auto simp: assms dispatch_start_def jobs_defs senders_ok_def held_list_def Let_def)

section \<open>The invariant\<close>

text \<open>The counting part: \<open>wg\<close> counts the jobs on the channel, in flight or held; every accepted
  job is in exactly one place.\<close>

definition count_inv :: "'e EventHandler \<Rightarrow> bool" where
  "count_inv e \<longleftrightarrow>
     wg e = int (size (counted e)) \<and> length (events_ch e) \<le> 100 \<and>
     mset (accepted e) = mset (finished e) + counted e + todo_jobs e \<and> senders_ok e"

text \<open>The part of one result channel.\<close>

definition chan_inv :: "'e EventHandler \<Rightarrow> nat \<Rightarrow> bool" where
  "chan_inv e c \<longleftrightarrow>
     (case chans e c of
        None \<Rightarrow> reply_count c e = 0 \<and> chan_count c (mset (accepted e)) = 0
      | Some r \<Rightarrow>
          results r = int (chan_count c (counted e)) \<and> sent r = chan_results c (finished e) \<and>
          cap r = chan_count c (mset (accepted e)) \<and>
          reply_count c e = (if closer r then 0 else 1) \<and>
          (chan_closed r \<longrightarrow> closer r \<and> chan_count c (counted e) = 0))"

lemma count_init: "count_inv New_EventHandler"
  by (simp add: count_inv_def New_EventHandler_def jobs_defs senders_ok_def)

lemma chan_init: "chan_inv New_EventHandler c"
  by (simp add: chan_inv_def New_EventHandler_def jobs_defs)

text \<open>A sender still has jobs of a channel only while the channel's dispatch has not returned.\<close>

lemma chan_count_concat: "chan_count c (mset (concat (map f ss))) = (\<Sum>s\<leftarrow>ss. chan_count c (mset (f s)))"
  by (induction ss) auto

lemma todo_zero:
  assumes "senders_ok e" "reply_count c e = 0"
  shows "chan_count c (todo_jobs e) = 0" "chan_count c (held_jobs e) = 0"
proof -
  have no: "reply s \<noteq> Some c" if "s \<in> set (senders e)" for s
    using assms(2) that by (auto simp: reply_count_def filter_empty_conv)
  then have "chan_count c (mset (todo s)) = 0" "chan_count c (mset (held_list s)) = 0" if "s \<in> set (senders e)" for s
    using assms(1) that by (auto simp: senders_ok_def chan_count_0)
  then show "chan_count c (todo_jobs e) = 0" "chan_count c (held_jobs e) = 0"
    unfolding todo_jobs_def held_jobs_def chan_count_concat by (simp_all add: sum_list_eq_0_iff)
qed

lemma same_jobs_inv:
  assumes "todo_jobs e' = todo_jobs e" "counted e' = counted e" "wg e' = wg e" "length (events_ch e') \<le> 100"
    "accepted e' = accepted e" "finished e' = finished e" "senders_ok e \<Longrightarrow> senders_ok e'"
  shows "count_inv e \<Longrightarrow> count_inv e'"
    and "chans e' c = chans e c \<Longrightarrow> reply_count c e' = reply_count c e \<Longrightarrow> chan_inv e c \<Longrightarrow> chan_inv e' c"
  using assms by (auto simp: count_inv_def chan_inv_def split: option.splits)

lemma arm_inv:
  assumes "arm i e = Some e'" "count_inv e" "\<forall>c. chan_inv e c"
  shows "count_inv e' \<and> chan_inv e' c"
proof -
  obtain j where j:
    "todo_jobs e = add_mset j (todo_jobs e')" "counted e' = add_mset j (counted e)"
    "wg e' = wg e + 1" "events_ch e' = events_ch e" "accepted e' = accepted e" "finished e' = finished e"
    "\<And>c. reply_count c e' = reply_count c e"
    "\<And>c. chans e' c = (if j_chan j = Some c then map_option (\<lambda>r. r\<lparr>results := results r + 1\<rparr>) (chans e c) else chans e c)"
    "senders_ok e \<Longrightarrow> senders_ok e'"
    by (rule arm_effect [OF assms(1)]) (rule that)
  have "count_inv e'" using assms(2) j by (simp add: count_inv_def)
  moreover have "chan_inv e' c"
  proof (cases "j_chan j = Some c")
    case True
    have "senders_ok e" using assms(2) by (simp add: count_inv_def)
    then have r: "reply_count c e \<noteq> 0" using todo_zero(1) [of e c] j(1) True by auto
    show ?thesis using assms(3) [rule_format, of c] r True j by (auto simp: chan_inv_def split: option.splits if_splits)
  next
    case False
    then show ?thesis using assms(3) [rule_format, of c] j by (auto simp: chan_inv_def split: option.splits)
  qed
  ultimately show ?thesis ..
qed

lemma return_inv:
  assumes "dispatch_return i e = Some e'" "count_inv e" "\<forall>c. chan_inv e c"
  shows "count_inv e' \<and> chan_inv e' c"
proof -
  obtain co where r:
    "todo_jobs e' = todo_jobs e" "counted e' = counted e" "wg e' = wg e" "events_ch e' = events_ch e"
    "accepted e' = accepted e" "finished e' = finished e"
    "\<And>c. reply_count c e = reply_count c e' + (if co = Some c then 1 else 0)"
    "\<And>c. chans e' c = (if co = Some c then map_option (\<lambda>r. r\<lparr>closer := True\<rparr>) (chans e c) else chans e c)"
    "senders_ok e \<Longrightarrow> senders_ok e'"
    by (rule return_effect [OF assms(1)]) (rule that)
  have "count_inv e'" using assms(2) r by (simp add: count_inv_def)
  moreover have "chan_inv e' c"
    using assms(3) [rule_format, of c] r(7) [of c] r by (auto simp: chan_inv_def split: option.splits if_splits)
  ultimately show ?thesis ..
qed

lemma finish_inv:
  assumes "finish_job i e = Some e'" "count_inv e" "\<forall>c. chan_inv e c"
  shows "count_inv e' \<and> chan_inv e' c"
proof -
  obtain j where f:
    "todo_jobs e' = todo_jobs e" "counted e = add_mset j (counted e')" "wg e' = wg e - 1"
    "events_ch e' = events_ch e" "accepted e' = accepted e" "finished e' = finished e @ [j]"
    "\<And>c. reply_count c e' = reply_count c e" "senders_ok e' = senders_ok e"
    "\<And>c r. chans e c = Some r \<Longrightarrow> \<not> chan_closed r \<Longrightarrow> chans e' c = Some (if j_chan j = Some c
        then r\<lparr>sent := sent r @ job_result j, results := results r - 1\<rparr> else r)"
    "\<And>c. j_chan j \<noteq> Some c \<Longrightarrow> chans e' c = chans e c" "\<And>c. chans e c = None \<Longrightarrow> chans e' c = None"
    by (rule finish_effect [OF assms(1)]) (rule that)
  have "count_inv e'" using assms(2) f by (simp add: count_inv_def)
  moreover have "chan_inv e' c"
  proof (cases "j_chan j = Some c")
    case False
    then show ?thesis using assms(3) [rule_format, of c] f by (auto simp: chan_inv_def chan_results_snoc split: option.splits)
  next
    case True
    show ?thesis
    proof (cases "chans e c")
      case None
      then show ?thesis using assms(3) [rule_format, of c] f by (simp add: chan_inv_def)
    next
      case (Some r)
      have "\<not> chan_closed r" using assms(3) [rule_format, of c] Some True f(2) by (auto simp: chan_inv_def)
      then have "chans e' c = Some (r\<lparr>sent := sent r @ job_result j, results := results r - 1\<rparr>)"
        using f(9) [OF Some] True by simp
      then show ?thesis using assms(3) [rule_format, of c] Some True f by (auto simp: chan_inv_def chan_results_snoc)
    qed
  qed
  ultimately show ?thesis ..
qed

lemma close_inv:
  assumes "close_results d e = Some e'" "count_inv e" "\<forall>c. chan_inv e c"
  shows "count_inv e' \<and> chan_inv e' c"
proof -
  obtain r where r: "chans e d = Some r" "e' = e\<lparr>chans := (chans e)(d \<mapsto> r\<lparr>chan_closed := True\<rparr>)\<rparr>" "results r = 0" "closer r"
    using assms(1) by (auto simp: close_results_def split: option.splits if_splits)
  have same: "todo_jobs e' = todo_jobs e" "counted e' = counted e" "senders_ok e' = senders_ok e" "\<And>x. reply_count x e' = reply_count x e"
    "chans e' = (chans e)(d \<mapsto> r\<lparr>chan_closed := True\<rparr>)" "accepted e' = accepted e" "finished e' = finished e" "wg e' = wg e"
    "events_ch e' = events_ch e"
    by (simp_all add: r(2) jobs_defs senders_ok_def)
  have "count_inv e'" using assms(2) by (simp add: count_inv_def same)
  moreover have "chan_inv e' c"
    using assms(3) [rule_format, of c] r(1,3,4) by (cases "c = d"; cases "chans e c") (simp_all add: chan_inv_def same)
  ultimately show ?thesis ..
qed

lemma start_inv:
  assumes "e' = dispatch_start hs event co e" "count_inv e" "\<forall>c. chan_inv e c \<or>
     (co = Some c \<and> reply_count c e = 0 \<and> chan_count c (mset (accepted e)) = 0 \<and>
      chans e c = Some \<lparr>cap = length hs, sent = [], results = 0, closer = False, chan_closed = False\<rparr>)"
    "\<forall>c. co = Some c \<longrightarrow> \<not> chan_inv e c"
  shows "count_inv e' \<and> chan_inv e' c"
proof -
  obtain jobs where s:
    "todo_jobs e' = todo_jobs e + mset jobs" "counted e' = counted e" "wg e' = wg e"
    "events_ch e' = events_ch e" "accepted e' = accepted e @ jobs" "finished e' = finished e"
    "\<And>c. reply_count c e' = reply_count c e + (if co = Some c then 1 else 0)" "chans e' = chans e"
    "senders_ok e' = senders_ok e" "\<forall>j \<in> set jobs. j_chan j = co" "length jobs = length hs"
    by (rule start_effect [OF assms(1)]) (rule that)
  have "count_inv e'" using assms(2) s by (simp add: count_inv_def)
  moreover have "chan_inv e' c"
  proof (cases "co = Some c")
    case False
    then have "chan_count c (mset jobs) = 0" using s(10) by (simp add: chan_count_0)
    then show ?thesis using False assms(3) [rule_format, of c] s by (auto simp: chan_inv_def split: option.splits)
  next
    case True
    then have n: "reply_count c e = 0" "chan_count c (mset (accepted e)) = 0"
      "chans e c = Some \<lparr>cap = length hs, sent = [], results = 0, closer = False, chan_closed = False\<rparr>"
      using assms(3,4) by blast+
    have "chan_count c (mset jobs) = length jobs"
      using s(10) True by (simp add: chan_count_all)
    moreover have "chan_count c (counted e) = 0" "chan_count c (mset (finished e)) = 0"
      using assms(2) n(2) by (simp_all add: count_inv_def)
    moreover have "chan_results c (finished e) = []"
      using chan_results_length [of c "finished e"] \<open>chan_count c (mset (finished e)) = 0\<close> by simp
    ultimately show ?thesis using n s True by (simp add: chan_inv_def)
  qed
  ultimately show ?thesis ..
qed

lemma quiet_inv:
  assumes "senders e' = senders e" "events_ch e' = events_ch e" "in_flight e' = in_flight e" "wg e' = wg e"
    "accepted e' = accepted e" "finished e' = finished e" "chans e' = chans e"
  shows "count_inv e' = count_inv e" "chan_inv e' c = chan_inv e c"
  by (simp_all only: count_inv_def chan_inv_def jobs_defs senders_ok_def assms)

lemma take_inv:
  assumes "take_job k e = Some e'" "count_inv e" "chan_inv e c"
  shows "count_inv e' \<and> chan_inv e' c"
proof -
  have "length (events_ch e') \<le> 100" using take_effect(4) [OF assms(1)] assms(2) by (simp add: count_inv_def)
  note same = same_jobs_inv [OF take_effect(1-3) [OF assms(1)] this take_effect(5,6) [OF assms(1)]]
  show ?thesis using same take_effect(7-9) [OF assms(1)] assms(2,3) by simp
qed

lemma Listen_inv:
  assumes "Listen is_a T lis e = Inr e'"
  shows "count_inv e' = count_inv e" "chan_inv e' c = chan_inv e c"
proof -
  have "senders e' = senders e" "events_ch e' = events_ch e" "in_flight e' = in_flight e" "wg e' = wg e"
    "accepted e' = accepted e" "finished e' = finished e" "chans e' = chans e"
    using assms by (auto simp: Listen_def Let_def split: sum.splits)
  then show "count_inv e' = count_inv e" "chan_inv e' c = chan_inv e c" by (rule quiet_inv)+
qed

lemma Dispatch_inv:
  assumes "Dispatch T event e = Inr e'" "count_inv e" "\<forall>c. chan_inv e c"
  shows "count_inv e' \<and> chan_inv e' c"
proof -
  obtain hs where "e' = dispatch_start hs event None e" using assms(1) by (auto simp: Dispatch_def split: sum.splits)
  then show ?thesis by (rule start_inv) (use assms(2,3) in auto)
qed

lemma DispatchChannel_inv:
  assumes "DispatchChannel d T event e = Inr e'" "chans e d = None" "count_inv e" "\<forall>c. chan_inv e c"
  shows "count_inv e' \<and> chan_inv e' c"
proof -
  obtain hs where e': "e' = dispatch_start hs event (Some d) (e\<lparr>chans := (chans e)(d \<mapsto>
      \<lparr>cap = length hs, sent = [], results = 0, closer = False, chan_closed = False\<rparr>)\<rparr>)" (is "_ = dispatch_start _ _ _ ?e")
    using assms(1) by (auto simp: DispatchChannel_def split: sum.splits)
  have z: "reply_count d e = 0" "chan_count d (mset (accepted e)) = 0"
    using assms(4) [rule_format, of d] assms(2) by (auto simp: chan_inv_def)
  have o: "chan_inv ?e c" if "c \<noteq> d" for c
    using assms(4) [rule_format, of c] that by (auto simp: chan_inv_def jobs_defs split: option.splits)
  have d: "\<not> chan_inv ?e d" using z(1) by (simp add: chan_inv_def jobs_defs)
  show ?thesis
  proof (rule start_inv [OF e'])
    show "count_inv ?e" using assms(3) by (simp add: count_inv_def jobs_defs senders_ok_def)
    show "\<forall>c. chan_inv ?e c \<or> (Some d = Some c \<and> reply_count c ?e = 0 \<and> chan_count c (mset (accepted ?e)) = 0 \<and>
      chans ?e c = Some \<lparr>cap = length hs, sent = [], results = 0, closer = False, chan_closed = False\<rparr>)"
      using o z by (auto simp: jobs_defs)
    show "\<forall>c. Some d = Some c \<longrightarrow> \<not> chan_inv ?e c" using d by simp
  qed
qed

lemma bus_act_inv:
  assumes "bus_act is_a a e = Some e'" "count_inv e" "\<forall>c. chan_inv e c"
  shows "count_inv e' \<and> chan_inv e' c"
proof -
  have idle: "count_inv e' \<and> chan_inv e' c"
    if "senders e' = senders e" "events_ch e' = events_ch e" "in_flight e' = in_flight e" "wg e' = wg e"
      "accepted e' = accepted e" "finished e' = finished e" "chans e' = chans e"
    using quiet_inv [OF that] assms(2,3) by simp
  have ws: "count_inv (e\<lparr>workers := n\<rparr>)" "\<forall>c. chan_inv (e\<lparr>workers := n\<rparr>) c"
    "count_inv (e\<lparr>drainers := n\<rparr>)" "\<forall>c. chan_inv (e\<lparr>drainers := n\<rparr>) c" for n
    using quiet_inv [of "e\<lparr>workers := n\<rparr>" e] quiet_inv [of "e\<lparr>drainers := n\<rparr>" e] assms(2,3) by simp_all
  show ?thesis
  proof (cases a)
    case (AListen T lis)
    then show ?thesis using assms Listen_inv [of is_a T lis e] by (auto split: sum.splits)
  next
    case (ADispatch T ev)
    then show ?thesis using assms Dispatch_inv [of T ev e] by (auto split: sum.splits)
  next
    case (ADispatchChannel d T ev)
    then show ?thesis using assms DispatchChannel_inv [of d T ev e] by (auto split: sum.splits if_splits)
  next
    case (AArm i)
    then show ?thesis using assms arm_inv by simp
  next
    case (ASend i)
    then have s: "send_job i e = Some e'" using assms(1) by simp
    show ?thesis using same_jobs_inv [OF send_effect(1-6,9) [OF s]] send_effect(7,8) [OF s] assms(2,3) by simp
  next
    case (AReturn i)
    then show ?thesis using assms return_inv by simp
  next
    case (AClose d)
    then show ?thesis using assms close_inv by simp
  next
    case ATake
    then have "take_job Worker (e\<lparr>workers := workers e - 1\<rparr>) = Some e'"
      using assms(1) by (simp add: worker_take_def split: if_splits)
    then show ?thesis by (rule take_inv) (use ws in auto)
  next
    case ADrain
    then have "take_job Drainer (e\<lparr>drainers := drainers e - 1\<rparr>) = Some e'"
      using assms(1) by (simp add: drainer_take_def split: if_splits)
    then show ?thesis by (rule take_inv) (use ws in auto)
  next
    case (AFinish i)
    then show ?thesis using assms finish_inv by simp
  qed (rule idle; insert assms(1); auto simp: Run_def worker_exit_def Flush_def drainer_exit_def jobs_waited_def workers_waited_def Reset_def
      split: if_splits)+
qed

lemma bus_reach_inv: "bus_reach is_a e \<Longrightarrow> count_inv e \<and> (\<forall>c. chan_inv e c)"
proof (induction rule: bus_reach.induct)
  case bus_init
  then show ?case by (simp add: count_init chan_init)
next
  case (bus_step e a e')
  then show ?case using bus_act_inv by blast
qed

fun bus_run :: "('e \<Rightarrow> gotype \<Rightarrow> bool) \<Rightarrow> 'e bus_action list \<Rightarrow> 'e EventHandler \<Rightarrow> 'e EventHandler option" where
  "bus_run is_a [] e = Some e"
| "bus_run is_a (a # as) e = (case bus_act is_a a e of None \<Rightarrow> None | Some e' \<Rightarrow> bus_run is_a as e')"

lemma bus_run_reach: "bus_reach is_a e \<Longrightarrow> bus_run is_a as e = Some e' \<Longrightarrow> bus_reach is_a e'"
  by (induction as arbitrary: e) (auto split: option.splits intro: bus_step)

section \<open>Properties\<close>

text \<open>Property C1. In every reachable state of the handler the wait group counts exactly the jobs
  on the channel, in flight or held by a sender, the channel holds at most 100, and every job of
  every dispatch is in exactly one place: not yet sent, counted, or run once.\<close>

theorem bus_counts:
  assumes "bus_reach is_a e"
  shows "wg e = int (size (counted e)) \<and> length (events_ch e) \<le> 100 \<and>
    mset (accepted e) = mset (finished e) + counted e + todo_jobs e"
  using bus_reach_inv [OF assms] by (simp add: count_inv_def)

definition ok_listener :: "nat listener" where "ok_listener v = Ret None"
definition failing_listener :: "nat listener" where "failing_listener v = Ret (Some (EOther ''bad''))"
definition panicking_listener :: "nat listener" where "panicking_listener v = Panic ''boom''"

abbreviation user_type :: gotype where "user_type \<equiv> Named ''pkg'' ''User''"

abbreviation any_type :: "nat \<Rightarrow> gotype \<Rightarrow> bool" where "any_type v T \<equiv> True"

lemmas bus_eval = New_EventHandler_def Listen_def event_name_def wrapListeners_def Dispatch_def DispatchChannel_def
  getHandlers_def dispatch_start_def arm_def send_job_def dispatch_return_def close_results_def upd_chan_def
  Run_def worker_take_def worker_exit_def take_job_def finish_job_def job_done_def send_result_def go_idle_def
  remove_nth_def Flush_def drainer_take_def drainer_exit_def jobs_waited_def workers_waited_def flush_returns_def
  Reset_def wrapListener_def
  ok_listener_def failing_listener_def panicking_listener_def Let_def

lemma bus_counts_witness:
  "\<exists>e. bus_run any_type [AListen user_type [ok_listener], ADispatch user_type 1, AArm 0] New_EventHandler = Some e \<and>
     wg e = 1 \<and> size (counted e) = 1"
proof -
  obtain e where e: "bus_run any_type [AListen user_type [ok_listener], ADispatch user_type 1, AArm 0] New_EventHandler = Some e"
    "wg e = 1" by (simp add: bus_eval)
  then show ?thesis using bus_counts [OF bus_run_reach [OF bus_init e(1)]] by auto
qed

text \<open>No action takes back a job that was armed or run.\<close>

lemma bus_act_grows:
  assumes "bus_act is_a a e = Some e'"
  shows "mset (finished e) + counted e \<subseteq># mset (finished e') + counted e' \<and> mset (finished e) \<subseteq># mset (finished e')"
proof -
  have same: "counted (e\<lparr>workers := n\<rparr>) = counted e" "counted (e\<lparr>drainers := n\<rparr>) = counted e" for n
    by (simp_all add: jobs_defs)
  have quiet: ?thesis if "finished e' = finished e" "counted e' = counted e" using that by simp
  have start: "finished (dispatch_start hs event co e0) = finished e0 \<and> counted (dispatch_start hs event co e0) = counted e0"
    for hs event co and e0 :: "'a EventHandler"
    by (simp add: dispatch_start_def Let_def jobs_defs held_list_def)
  show ?thesis
  proof (cases a)
    case (AArm i)
    then have "arm i e = Some e'" using assms by simp
    then show ?thesis by (rule arm_effect) simp
  next
    case (AFinish i)
    then have "finish_job i e = Some e'" using assms by simp
    then show ?thesis by (rule finish_effect) simp
  next
    case (AReturn i)
    then have "dispatch_return i e = Some e'" using assms by simp
    then show ?thesis by (rule return_effect) (rule quiet)
  next
    case (ASend i)
    then show ?thesis using assms send_effect [of i e e'] quiet by simp
  next
    case ATake
    then show ?thesis using assms take_effect [of Worker _ e'] same quiet
      by (auto simp: worker_take_def split: if_splits)
  next
    case ADrain
    then show ?thesis using assms take_effect [of Drainer _ e'] same quiet
      by (auto simp: drainer_take_def split: if_splits)
  next
    case (ADispatch T ev)
    then show ?thesis using assms start by (intro quiet) (auto simp: Dispatch_def split: sum.splits)
  next
    case (ADispatchChannel c T ev)
    then show ?thesis using assms start
      by (intro quiet) (auto simp: DispatchChannel_def jobs_defs split: sum.splits if_splits)
  qed (rule quiet; insert assms; auto simp: Listen_def close_results_def Run_def worker_exit_def Flush_def drainer_exit_def
      jobs_waited_def workers_waited_def Reset_def jobs_defs Let_def split: if_splits sum.splits option.splits)+
qed

text \<open>Whoever has left the first wait of \<open>Flush\<close> left it when nothing was counted.\<close>

definition covered :: "'e job multiset \<Rightarrow> 'e EventHandler \<Rightarrow> bool" where
  "covered J e \<longleftrightarrow>
     J \<subseteq># mset (finished e) + counted e \<and> (flush_pc e = WaitsForJobs \<or> J \<subseteq># mset (finished e))"

lemma flush_pc_act:
  assumes "bus_act is_a a e = Some e'" "a \<noteq> AWaitJobs" "flush_pc e = WaitsForJobs"
  shows "flush_pc e' = WaitsForJobs"
  using assms
  by (cases a)
    (auto simp: Listen_def Dispatch_def DispatchChannel_def dispatch_start_def arm_def send_job_def
      dispatch_return_def close_results_def worker_take_def worker_exit_def Flush_def drainer_take_def take_job_def
      drainer_exit_def finish_job_def job_done_def send_result_def go_idle_def workers_waited_def Run_def flush_returns_def Let_def
      split: sum.splits if_splits list.splits option.splits outcome.splits taker.splits prod.splits)

lemma covered_act:
  assumes "bus_reach is_a e" "bus_act is_a a e = Some e'" "covered J e"
  shows "covered J e'"
proof -
  note grows = bus_act_grows [OF assms(2)]
  have "J \<subseteq># mset (finished e') + counted e'"
    using assms(3) grows subset_mset.order_trans unfolding covered_def by blast
  moreover have "J \<subseteq># mset (finished e')" if "flush_pc e' \<noteq> WaitsForJobs"
  proof (cases "flush_pc e = WaitsForJobs")
    case True
    then have "a = AWaitJobs" using flush_pc_act [OF assms(2)] that by blast
    then have "wg e = 0" "finished e' = finished e" using assms(2) by (auto simp: jobs_waited_def split: if_splits)
    then have "counted e = {#}" using bus_reach_inv [OF assms(1)] by (simp add: count_inv_def)
    then show ?thesis using assms(3) \<open>finished e' = finished e\<close> by (simp add: covered_def)
  next
    case False
    then show ?thesis using assms(3) grows subset_mset.order_trans unfolding covered_def by blast
  qed
  ultimately show ?thesis by (auto simp: covered_def)
qed

lemma covered_run:
  "bus_reach is_a e \<Longrightarrow> bus_run is_a as e = Some e' \<Longrightarrow> covered J e \<Longrightarrow> covered J e'"
  by (induction as arbitrary: e) (auto split: option.splits intro: bus_step covered_act)

fun dispatches :: "'e bus_action \<Rightarrow> bool" where
  "dispatches (ADispatch T ev) = True" | "dispatches (ADispatchChannel c T ev) = True" | "dispatches _ = False"

lemma accepted_act:
  assumes "bus_act is_a a e = Some e'" "\<not> dispatches a"
  shows "accepted e' = accepted e"
  using assms
  by (cases a)
    (auto simp: Listen_def arm_def send_job_def dispatch_return_def close_results_def worker_take_def worker_exit_def
      Flush_def drainer_take_def take_job_def drainer_exit_def finish_job_def job_done_def send_result_def go_idle_def
      jobs_waited_def workers_waited_def Run_def Reset_def Let_def
      split: sum.splits if_splits list.splits option.splits outcome.splits taker.splits prod.splits)

lemma accepted_run:
  "bus_run is_a as e = Some e' \<Longrightarrow> list_all (\<lambda>a. \<not> dispatches a) as \<Longrightarrow> accepted e' = accepted e"
  by (induction as arbitrary: e) (auto split: option.splits dest: accepted_act)

text \<open>Property C10. When \<open>Flush\<close>, having waited for the jobs and then for the workers, returns, every job
  that a dispatch had armed before the call, queued, being run or blocked in its send, was run, and no
  worker is left. If no dispatch was in progress at the call and none started since, every job of
  every dispatch ever made was run, exactly once. A dispatch that runs beside \<open>Flush\<close> has no such
  promise.\<close>

theorem flush_complete:
  assumes "bus_reach is_a e" "Flush e = Ret e1" "bus_run is_a as e1 = Some e2" "workers_waited e2 = Some e'"
  shows "flush_returns e' \<and> mset (finished e) + counted e \<subseteq># mset (finished e') \<and>
    workers e' = 0 \<and> (\<forall>p \<in> set (in_flight e'). fst p = Drainer) \<and>
    (todo_jobs e = {#} \<and> list_all (\<lambda>a. \<not> dispatches a) as \<longrightarrow> mset (finished e') = mset (accepted e'))"
proof -
  have e1: "e1 = e\<lparr>closed := True, drainers := drainers e + 1, flush_pc := WaitsForJobs\<rparr>"
    using assms(2) by (simp add: Flush_def split: if_splits)
  have r1: "bus_reach is_a e1" by (rule bus_step [OF assms(1), of AFlush]) (simp add: assms(2))
  note r2 = bus_run_reach [OF r1 assms(3)]
  let ?J = "mset (finished e) + counted e"
  have "covered ?J e1" by (simp add: covered_def e1 jobs_defs)
  then have cov: "covered ?J e2" by (rule covered_run [OF r1 assms(3)])
  have e': "e' = e2\<lparr>flush_pc := FlushReturned\<rparr>" "flush_pc e2 = WaitsForWorkers" "workers e2 = 0"
    "list_all (\<lambda>p. fst p \<noteq> Worker) (in_flight e2)"
    using assms(4) by (simp_all add: workers_waited_def split: if_splits)
  then have run: "?J \<subseteq># mset (finished e')" using cov by (simp add: covered_def)
  have "mset (finished e') = mset (accepted e')" if "todo_jobs e = {#}" "list_all (\<lambda>a. \<not> dispatches a) as"
  proof (rule subset_mset.antisym)
    show "mset (finished e') \<subseteq># mset (accepted e')"
      using bus_reach_inv [OF r2] by (simp add: e' count_inv_def)
    have "mset (accepted e') = ?J"
      using accepted_run [OF assms(3) that(2)] bus_reach_inv [OF assms(1)] that(1) by (simp add: e' e1 count_inv_def)
    then show "mset (accepted e') \<subseteq># mset (finished e')" using run by simp
  qed
  moreover have "fst p = Drainer" if "p \<in> set (in_flight e')" for p
    using that e' by (cases "fst p") (auto simp: list_all_iff)
  ultimately show ?thesis using run e' by (auto simp: flush_returns_def)
qed

definition before_flush :: "nat EventHandler" where
  "before_flush = the (bus_run any_type [AListen user_type [ok_listener], ADispatch user_type 1, AArm 0, ASend 0, AReturn 0,
     ARun 1, ATake] New_EventHandler)"

lemma before_flush_reach: "bus_reach any_type before_flush"
  by (rule bus_run_reach [OF bus_init, of _ "[AListen user_type [ok_listener], ADispatch user_type 1, AArm 0, ASend 0, AReturn 0,
     ARun 1, ATake]"]) (simp add: before_flush_def bus_eval)

lemma flush_complete_witness:
  "\<exists>e1 e2 e'. Flush before_flush = Ret e1 \<and> bus_run any_type [AFinish 0, AWaitJobs, AExit] e1 = Some e2 \<and>
     workers_waited e2 = Some e' \<and> length (accepted e') = 1 \<and> mset (finished e') = mset (accepted e')"
proof -
  obtain e1 e2 e' where e: "Flush before_flush = Ret e1" "bus_run any_type [AFinish 0, AWaitJobs, AExit] e1 = Some e2"
    "workers_waited e2 = Some e'" "length (accepted e') = 1"
    by (simp add: bus_eval before_flush_def)
  have "todo_jobs before_flush = {#}" by (simp add: bus_eval before_flush_def todo_jobs_def)
  then show ?thesis using flush_complete [OF before_flush_reach e(1-3)] e by auto
qed

text \<open>Why the promise stops there: a dispatch that arms its job after \<open>Flush\<close> passed its first wait
  leaves the job on the channel of a handler that has been flushed.\<close>

lemma flush_leaves_concurrent_job:
  "\<exists>e. bus_run any_type [AListen user_type [ok_listener], ARun 1, AFlush, ADispatch user_type 1, AWaitJobs, ADrainExit, AArm 0,
     ASend 0, AReturn 0, AExit, AWaitWorkers] New_EventHandler = Some e \<and>
     flush_returns e \<and> length (events_ch e) = 1 \<and> finished e = [] \<and> wg e = 1"
  by (simp add: bus_eval)

lemma job_can_finish:
  assumes "bus_reach is_a e" "i < length (in_flight e)"
  shows "\<exists>e'. finish_job i e = Some e' \<and> wg e' = wg e - 1"
proof -
  obtain k j where j: "in_flight e ! i = (k, j)" by (cases "in_flight e ! i")
  have inv: "count_inv e" "\<And>c. chan_inv e c" using bus_reach_inv [OF assms(1)] by auto
  have mem: "j \<in># counted e" using nth_mem [OF assms(2)] j by (force simp: counted_def)
  have "\<exists>e1. send_result (j_chan j) err (go_idle k (e\<lparr>in_flight := remove_nth i (in_flight e)\<rparr>)) = Some e1" for err
  proof (cases "j_chan j")
    case (Some c)
    then have pos: "chan_count c (counted e) > 0" using mem by (metis chan_count_0 gr0I)
    then have acc: "chan_count c (mset (finished e)) < chan_count c (mset (accepted e))"
      using inv(1) by (simp add: count_inv_def)
    then obtain r where r: "chans e c = Some r" using inv(2) [of c] by (cases "chans e c") (simp_all add: chan_inv_def)
    then have "\<not> chan_closed r" "length (sent r) < cap r"
      using inv(2) [of c] pos acc chan_results_length [of c "finished e"] by (auto simp: chan_inv_def)
    then show ?thesis using r Some by (simp add: send_result_def)
  qed (simp add: send_result_def)
  note room = this
  have "\<exists>e'. finish_job i e = Some e'"
  proof (cases "j_listener j (j_event j)")
    case (Ret err)
    then show ?thesis using assms(2) j room [of err] by (auto simp: finish_job_def Let_def)
  qed (use assms(2) j in \<open>simp add: finish_job_def Let_def\<close>)
  then obtain e' where e': "finish_job i e = Some e'" ..
  moreover have "wg e' = wg e - 1" by (rule finish_effect [OF e'])
  ultimately show ?thesis by blast
qed

text \<open>A worker never gets stuck in a job: in a reachable state every job in flight can
  finish, because its result channel is open and has room for its result.\<close>

theorem jobs_never_block:
  assumes "bus_reach is_a e" "i < length (in_flight e)"
  shows "\<exists>e'. finish_job i e = Some e' \<and> wg e' = wg e - 1"
  by (rule job_can_finish [OF assms])

lemma jobs_never_block_witness:
  "\<exists>e e'. bus_run any_type [AListen user_type [ok_listener], ADispatchChannel 3 user_type 1, AArm 0, ASend 0, ARun 1, ATake]
     New_EventHandler = Some e \<and> finish_job 0 e = Some e' \<and> wg e' = 0"
proof -
  obtain e where e: "bus_run any_type [AListen user_type [ok_listener], ADispatchChannel 3 user_type 1, AArm 0, ASend 0, ARun 1, ATake]
     New_EventHandler = Some e" "length (in_flight e) = 1" "wg e = 1"
    by (simp add: bus_eval)
  then show ?thesis using jobs_never_block [OF bus_run_reach [OF bus_init e(1)], of 0] by auto
qed

text \<open>Property C13. When a result channel is closed, it holds the result of every listener of its
  dispatch that returned, errors and \<open>nil\<close> alike, and nothing for a listener that panicked: the
  number of results is the number of listeners less those that panicked.\<close>

theorem result_channel_complete:
  fixes e :: "'e EventHandler"
  assumes "bus_reach is_a e" "chans e c = Some r" "chan_closed r"
  shows "mset (sent r) = mset (chan_results c (accepted e)) \<and>
    length (sent r) + length (filter (\<lambda>j. j_chan j = Some c \<and> job_result j = []) (accepted e)) = cap r"
proof -
  have inv: "count_inv e" "chan_inv e c" using bus_reach_inv [OF assms(1)] by auto
  have r: "reply_count c e = 0" "chan_count c (counted e) = 0" "sent r = chan_results c (finished e)"
    "cap r = chan_count c (mset (accepted e))"
    using inv(2) assms(2,3) by (auto simp: chan_inv_def)
  have "chan_count c (todo_jobs e) = 0" using inv(1) r(1) by (intro todo_zero) (simp_all add: count_inv_def)
  then have rest: "filter_mset (\<lambda>j. j_chan j = Some c) (counted e + todo_jobs e) = {#}"
    using r(2) by (simp add: chan_count_def)
  have "mset (accepted e) = mset (finished e) + (counted e + todo_jobs e)"
    using inv(1) by (simp add: count_inv_def ac_simps)
  then have same: "filter_mset (\<lambda>j. j_chan j = Some c) (mset (accepted e)) = filter_mset (\<lambda>j. j_chan j = Some c) (mset (finished e))"
    using rest by (metis add.right_neutral filter_union_mset)
  have "mset (chan_results c js) = (\<Sum>j \<in># filter_mset (\<lambda>j. j_chan j = Some c) (mset js). mset (job_result j))" for js :: "'e job list"
    by (induction js) (auto simp: chan_results_def)
  then have eq: "mset (chan_results c (finished e)) = mset (chan_results c (accepted e))" using same by simp
  have "length (chan_results c js) + length (filter (\<lambda>j. j_chan j = Some c \<and> job_result j = []) js) = chan_count c (mset js)" for js :: "'e job list"
    by (induction js) (auto simp: chan_results_def job_result_def split: outcome.splits)
  note len = this [of "accepted e"]
  have "length (sent r) = length (chan_results c (accepted e))" unfolding r(3) by (rule mset_eq_length [OF eq])
  then show ?thesis unfolding r(4) using len eq r(3) by simp
qed

definition panic_run :: "nat bus_action list" where
  "panic_run = [AListen user_type [failing_listener, panicking_listener], ADispatchChannel 0 user_type 1,
     AArm 0, ASend 0, AArm 0, ASend 0, AReturn 0, ARun 1, ATake, AFinish 0, ATake, AFinish 0, AClose 0]"

text \<open>The channel of this run closes with one result for its two listeners.\<close>

lemma result_channel_complete_witness:
  "\<exists>e r. bus_run any_type panic_run New_EventHandler = Some e \<and> chans e 0 = Some r \<and> cap r = 2 \<and>
     mset (sent r) = {#Some (EOther ''bad'')#}"
proof -
  obtain e r where e: "bus_run any_type panic_run New_EventHandler = Some e" "chans e 0 = Some r" "chan_closed r" "cap r = 2"
    "chan_results 0 (accepted e) = [Some (EOther ''bad'')]"
    by (simp add: bus_eval panic_run_def chan_results_def job_result_def)
  then show ?thesis using result_channel_complete [OF bus_run_reach [OF bus_init e(1)] e(2,3)] by auto
qed

text \<open>A flushed handler whose workers have returned and whose drainer saw an empty channel, when a
  job arrives after all.\<close>

definition stranded :: "'e EventHandler \<Rightarrow> bool" where
  "stranded e \<longleftrightarrow> flush_pc e = WaitsForJobs \<and> closed e \<and> workers e = 0 \<and> drainers e = 0 \<and> in_flight e = [] \<and> events_ch e \<noteq> []"

lemma stranded_step:
  assumes "bus_reach is_a e" "stranded e" "bus_act is_a a e = Some e'" "\<forall>n. a \<noteq> ARun n"
  shows "stranded e' \<and> finished e' = finished e \<and> (\<exists>js. events_ch e' = events_ch e @ js)"
proof -
  have "0 < wg e"
    using assms(2) bus_reach_inv [OF assms(1)] by (cases "events_ch e") (auto simp: stranded_def counted_def count_inv_def)
  then show ?thesis
    using assms(2-4)
    by (cases a)
      (auto simp: stranded_def Listen_def Dispatch_def DispatchChannel_def dispatch_start_def arm_def send_job_def
        dispatch_return_def close_results_def worker_take_def worker_exit_def Flush_def drainer_take_def
        drainer_exit_def jobs_waited_def workers_waited_def flush_returns_def finish_job_def Let_def
        split: sum.splits if_splits list.splits option.splits)
qed

text \<open>Property C34. A job that reaches the channel while \<open>Flush\<close> is still in its first wait, after the
  workers and the drainer are gone, hangs it: unless \<open>Run\<close> is called again, in every later state the
  job is still on the channel, nothing more was run and \<open>Flush\<close> is still in that wait.\<close>

theorem stranded_flush_hangs:
  assumes "bus_reach is_a e" "stranded e" "bus_run is_a as e = Some e'" "\<forall>a \<in> set as. \<forall>n. a \<noteq> ARun n"
  shows "flush_pc e' = WaitsForJobs \<and> finished e' = finished e \<and> (\<exists>js. events_ch e' = events_ch e @ js)"
proof -
  have "stranded e' \<and> finished e' = finished e \<and> (\<exists>js. events_ch e' = events_ch e @ js)" using assms
  proof (induction as arbitrary: e)
    case (Cons a as)
    then obtain e1 where e1: "bus_act is_a a e = Some e1" "bus_run is_a as e1 = Some e'"
      by (auto split: option.splits)
    have "stranded e1 \<and> finished e1 = finished e \<and> (\<exists>js. events_ch e1 = events_ch e @ js)"
      by (rule stranded_step [OF Cons.prems(1,2) e1(1)]) (use Cons.prems(4) in auto)
    then show ?case using Cons.IH [OF bus_step [OF Cons.prems(1) e1(1)] _ e1(2)] Cons.prems(4) by auto
  qed simp
  then show ?thesis by (simp add: stranded_def)
qed

lemma stranded_flush_hangs_witness:
  "\<exists>e e'. bus_run any_type [AListen user_type [ok_listener], AFlush, ADrainExit, ADispatch user_type 1, AArm 0, ASend 0]
     New_EventHandler = Some e \<and> bus_run any_type [AReturn 0, ADispatch user_type 2, AArm 1] e = Some e' \<and>
     flush_pc e' = WaitsForJobs \<and> finished e' = []"
proof -
  obtain e e' where e: "bus_run any_type [AListen user_type [ok_listener], AFlush, ADrainExit, ADispatch user_type 1, AArm 0, ASend 0]
     New_EventHandler = Some e" "stranded e" "finished e = []"
     "bus_run any_type [AReturn 0, ADispatch user_type 2, AArm 1] e = Some e'"
    by (simp add: bus_eval stranded_def)
  then show ?thesis using stranded_flush_hangs [OF bus_run_reach [OF bus_init e(1)] e(2,4)] by auto
qed

text \<open>\<open>Listen\<close> then \<open>Dispatch\<close>: listeners of one type run in the order of their
  registration, each wrapped in the type assertion; a type nobody listens to is refused with
  \<open>ErrUnregisteredEvent\<close>, an unnamed type with \<open>ErrUnknownType\<close>.\<close>

theorem dispatch_behaviour:
  "case event_name T of
     Inl err \<Rightarrow> (\<forall>e. Listen is_a T lis e = Inl (wrapf ''namespace event'' err)) \<and>
       (\<forall>e. \<exists>err'. Dispatch T event e = Inl err' \<and> errors_Is err' ErrUnknownType)
   | Inr name \<Rightarrow> (\<forall>e. if handlers e name = None
       then \<exists>err. Dispatch T event e = Inl err \<and> errors_Is err ErrUnregisteredEvent
       else Dispatch T event e = Inr (dispatch_start (the (handlers e name)) event None e)) \<and>
       (\<forall>e. \<exists>e'. Listen is_a T lis e = Inr e' \<and> handlers e' name =
          Some ((case handlers e name of None \<Rightarrow> [] | Some hs \<Rightarrow> hs) @ map (wrapListener is_a T) lis))"
proof -
  have "foldl (\<lambda>out l. out @ [wrapListener is_a T l]) out lis = out @ map (wrapListener is_a T) lis" for out
    by (induction lis arbitrary: out) auto
  then have wrap: "wrapListeners is_a T lis = map (wrapListener is_a T) lis" by (simp add: wrapListeners_def)
  have unknown: "err = ESentinel ErrUnknownType" if "event_name T = Inl err" for err
    using that by (auto simp: event_name_def split: if_splits gotype.splits)
  show ?thesis
    by (cases "event_name T")
      (auto simp: Listen_def Dispatch_def getHandlers_def wrap Let_def dest!: unknown split: option.splits)
qed

text \<open>The name tells named types and pointers to named types apart (a type's name has no
  slash or dot), but all pointers to unnamed types share the name \<open>*.\<close>, so that the listener of
  one such type gets the events of another.\<close>

theorem event_name_separates:
  assumes "CHR ''/'' \<notin> set n" "CHR ''/'' \<notin> set m" "CHR ''.'' \<notin> set n" "CHR ''.'' \<notin> set m"
    "n \<noteq> ''''" "m \<noteq> ''''" "hd (p @ ''x'') \<noteq> CHR ''*''" "hd (q @ ''x'') \<noteq> CHR ''*''"
  shows "(event_name (Named p n) = event_name (Named q m) \<longleftrightarrow> p = q \<and> n = m) \<and>
    (event_name (PointerTo (Named p n)) = event_name (PointerTo (Named q m)) \<longleftrightarrow> p = q \<and> n = m) \<and>
    event_name (Named p n) \<noteq> event_name (PointerTo (Named q m)) \<and>
    event_name (PointerTo (PointerTo T)) = event_name (PointerTo (OtherKind k))"
proof -
  have cut: "xs @ c # ys = xs' @ c # ys' \<longleftrightarrow> xs = xs' \<and> ys = ys'" if "c \<notin> set ys" "c \<notin> set ys'" for c :: char and xs ys xs' ys'
  proof
    assume "xs @ c # ys = xs' @ c # ys'"
    then have "rev ys @ c # rev xs = rev ys' @ c # rev xs'" by (metis rev.simps(2) rev_append append.assoc append_Cons append_Nil)
    then have "takeWhile (\<lambda>x. x \<noteq> c) (rev ys @ c # rev xs) = takeWhile (\<lambda>x. x \<noteq> c) (rev ys' @ c # rev xs')" by simp
    moreover have "takeWhile (\<lambda>x. x \<noteq> c) (rev zs) = rev zs" if "c \<notin> set zs" for zs
      using that by (auto simp: takeWhile_eq_all_conv)
    ultimately have "rev ys = rev ys'" using that by (simp add: takeWhile_tail)
    then show "xs = xs' \<and> ys = ys'" using \<open>xs @ c # ys = xs' @ c # ys'\<close> by simp
  qed simp
  have "p @ ''/'' @ n \<noteq> ''*'' @ q @ ''.'' @ m" using assms(7) by (cases p) auto
  then show ?thesis using assms by (simp add: event_name_def cut)
qed

lemma event_name_separates_witness:
  "event_name (Named ''app'' ''User'') \<noteq> event_name (Named ''app'' ''Order'') \<and>
   event_name (PointerTo (PointerTo (Named ''app'' ''User''))) = event_name (PointerTo (OtherKind ''slice''))"
  using event_name_separates [of "''User''" "''Order''" "''app''" "''app''" "Named ''app'' ''User''" "''slice''"] by simp

end
