(* ===== verification/Bus_Progress.thy ===== *)
theory Bus_Progress
  imports Event_Bus
begin

text \<open>
  Progress of the event handler of \<open>Event_Bus\<close>. Its internal actions are the steps of goroutines
  that are already running: the rest of a dispatch, the workers, \<open>Flush\<close> and its drainer, and the
  goroutines that close result channels. A measure of the work left bounds how many of them can
  happen, and a handler that is being flushed and comes to rest has been flushed.
\<close>

section \<open>The work left\<close>

fun internal :: "'e bus_action \<Rightarrow> bool" where
  "internal (AArm i) = True" | "internal (ASend i) = True" | "internal (AReturn i) = True"
| "internal (AClose c) = True" | "internal ATake = True" | "internal AExit = True"
| "internal ADrain = True" | "internal ADrainExit = True" | "internal (AFinish i) = True"
| "internal AWaitJobs = True" | "internal AWaitWorkers = True"
| "internal _ = False"

text \<open>An internal action that changes the state (the return of a dispatch without a result channel
  does not).\<close>

definition move :: "('e \<Rightarrow> gotype \<Rightarrow> bool) \<Rightarrow> 'e EventHandler \<Rightarrow> 'e EventHandler \<Rightarrow> bool" where
  "move is_a e e' \<longleftrightarrow> (\<exists>a. internal a \<and> bus_act is_a a e = Some e' \<and> e' \<noteq> e)"

text \<open>A job costs an arming, a send, a taking and a finish, after which its goroutine is idle again; a
  dispatch with a channel returns and lets it be closed; \<open>Flush\<close> has its two waits to pass.\<close>

definition waits_left :: "flush_pc \<Rightarrow> nat" where
  "waits_left p = (case p of WaitsForJobs \<Rightarrow> 2 | WaitsForWorkers \<Rightarrow> 1 | _ \<Rightarrow> 0)"

definition sender_work :: "'e sender \<Rightarrow> nat" where
  "sender_work s = 7 * length (todo s) + (if held s = None then 0 else 6) + (if reply s = None then 0 else 2)"

definition closing :: "'e EventHandler \<Rightarrow> nat set" where
  "closing e = {c. \<exists>r. chans e c = Some r \<and> closer r \<and> \<not> chan_closed r}"

definition work :: "'e EventHandler \<Rightarrow> nat" where
  "work e = (\<Sum>s\<leftarrow>senders e. sender_work s) + 5 * length (events_ch e) + 3 * length (in_flight e) +
     workers e + drainers e + card (closing e) + waits_left (flush_pc e)"

lemma sum_list_update:
  "i < length xs \<Longrightarrow> (\<Sum>x\<leftarrow>xs[i := y]. f x) + f (xs ! i) = (\<Sum>x\<leftarrow>xs. f x) + (f y :: nat)"
proof (induction xs arbitrary: i)
  case (Cons x xs)
  then show ?case by (cases i) auto
qed simp

lemma dom_upd_chan [simp]: "dom (chans (upd_chan co f e)) = dom (chans e)"
  by (auto simp: upd_chan_def split: option.splits)

lemma Listen_chans: "Listen is_a T lis e = Inr e' \<Longrightarrow> chans e' = chans e"
  by (auto simp: Listen_def Let_def split: sum.splits)

lemma Dispatch_chans: "Dispatch T event e = Inr e' \<Longrightarrow> chans e' = chans e"
  by (auto simp: Dispatch_def dispatch_start_def Let_def split: sum.splits)

lemma DispatchChannel_chans: "DispatchChannel c T event e = Inr e' \<Longrightarrow> dom (chans e') = insert c (dom (chans e))"
  by (auto simp: DispatchChannel_def dispatch_start_def Let_def split: sum.splits)

lemma send_result_dom: "send_result co err e = Some e' \<Longrightarrow> dom (chans e') = dom (chans e)"
  by (auto simp: send_result_def split: option.splits if_splits)

lemma finish_cases:
  assumes "finish_job i e = Some e'"
  obtains k j e1 where "i < length (in_flight e)" "in_flight e ! i = (k, j)" "e' = job_done j e1"
    "e1 = go_idle k (e\<lparr>in_flight := remove_nth i (in_flight e)\<rparr>) \<or>
     (\<exists>err. send_result (j_chan j) err (go_idle k (e\<lparr>in_flight := remove_nth i (in_flight e)\<rparr>)) = Some e1)"
proof -
  obtain k j where i: "i < length (in_flight e)" "in_flight e ! i = (k, j)"
    using assms by (cases "in_flight e ! i") (auto simp: finish_job_def split: if_splits)
  show ?thesis
    by (cases "j_listener j (j_event j)")
      (use assms i in \<open>auto simp: finish_job_def Let_def intro: that [OF i]\<close>)
qed

lemma dom_job_done [simp]: "dom (chans (job_done j e)) = dom (chans e)"
  by (simp add: job_done_def)

lemma finish_dom: "finish_job i e = Some e' \<Longrightarrow> dom (chans e') = dom (chans e)"
  by (erule finish_cases, elim disjE exE) (simp, drule send_result_dom, simp)

lemma finite_chans_step:
  assumes "bus_act is_a a e = Some e'" and "finite (dom (chans e))"
  shows "finite (dom (chans e'))"
proof (cases a)
  case (AFinish i)
  then show ?thesis using assms finish_dom [of i e e'] by simp
qed (use assms in \<open>auto simp: arm_def send_job_def dispatch_return_def close_results_def worker_take_def worker_exit_def
    drainer_take_def drainer_exit_def jobs_waited_def workers_waited_def take_job_def Run_def Flush_def Reset_def
    split: sum.splits if_splits option.splits list.splits outcome.splits
    dest!: Listen_chans Dispatch_chans DispatchChannel_chans\<close>)

lemma finite_chans: "bus_reach is_a e \<Longrightarrow> finite (dom (chans e))"
proof (induction rule: bus_reach.induct)
  case bus_init
  then show ?case by (simp add: New_EventHandler_def)
next
  case (bus_step e a e')
  then show ?case by (blast intro: finite_chans_step)
qed

lemma finite_closing: "bus_reach is_a e \<Longrightarrow> finite (closing e)"
  by (rule finite_subset [OF _ finite_chans]) (auto simp: closing_def)

section \<open>Every move reduces the work\<close>

lemma closing_upd_chan:
  "(\<And>r. closer (f r) = closer r \<and> chan_closed (f r) = chan_closed r) \<Longrightarrow> closing (upd_chan co f e) = closing e"
  by (auto simp: closing_def split: if_splits)

lemma closing_job_done: "closing (job_done j e) = closing e"
  by (simp add: job_done_def closing_upd_chan) (simp add: closing_def)

lemma closing_send_result: "send_result co err e = Some e' \<Longrightarrow> closing e' = closing e"
  by (auto simp: send_result_def closing_def split: option.splits if_splits)

lemma send_result_same:
  "send_result co err e = Some e' \<Longrightarrow> senders e' = senders e \<and> events_ch e' = events_ch e \<and> in_flight e' = in_flight e \<and>
     workers e' = workers e \<and> drainers e' = drainers e \<and> closed e' = closed e \<and> flush_pc e' = flush_pc e"
  by (auto simp: send_result_def split: option.splits if_splits)

lemma work_arm: "arm i e = Some e' \<Longrightarrow> work e' < work e"
proof -
  assume "arm i e = Some e'"
  then obtain j js where i: "i < length (senders e)" "held (senders e ! i) = None" "todo (senders e ! i) = j # js"
    and e': "e' = upd_chan (j_chan j) (\<lambda>r. r\<lparr>results := results r + 1\<rparr>)
        (e\<lparr>wg := wg e + 1, senders := (senders e)[i := (senders e ! i)\<lparr>held := Some j, todo := js\<rparr>]\<rparr>)"
    by (auto simp: arm_def split: if_splits list.splits)
  have "closing e' = closing e" by (simp add: e' closing_upd_chan) (simp add: closing_def)
  then show ?thesis
    using sum_list_update [OF i(1), of sender_work "(senders e ! i)\<lparr>held := Some j, todo := js\<rparr>"] i
    by (simp add: work_def e' sender_work_def)
qed

lemma work_send: "send_job i e = Some e' \<Longrightarrow> work e' < work e"
proof -
  assume "send_job i e = Some e'"
  then obtain j where i: "i < length (senders e)" "held (senders e ! i) = Some j"
    and e': "e' = e\<lparr>events_ch := events_ch e @ [j], senders := (senders e)[i := (senders e ! i)\<lparr>held := None\<rparr>]\<rparr>"
    by (auto simp: send_job_def split: if_splits option.splits)
  have "closing e' = closing e" by (simp add: e' closing_def)
  then show ?thesis
    using sum_list_update [OF i(1), of sender_work "(senders e ! i)\<lparr>held := None\<rparr>"] i
    by (simp add: work_def e' sender_work_def)
qed

lemma work_return:
  assumes "dispatch_return i e = Some e'" and "e' \<noteq> e" and "finite (closing e)"
  shows "work e' < work e"
proof -
  let ?y = "(senders e ! i)\<lparr>reply := None\<rparr>"
  from assms(1) have i: "i < length (senders e)" "held (senders e ! i) = None" "todo (senders e ! i) = []"
    and e': "e' = upd_chan (reply (senders e ! i)) (\<lambda>r. r\<lparr>closer := True\<rparr>) (e\<lparr>senders := (senders e)[i := ?y]\<rparr>)"
    by (auto simp: dispatch_return_def split: if_splits)
  have "reply (senders e ! i) \<noteq> None"
  proof
    assume "reply (senders e ! i) = None"
    moreover from this have y: "?y = senders e ! i" by simp
    have "(senders e)[i := ?y] = senders e" by (subst y) (rule list_update_id)
    ultimately show False using assms(2) e' by (simp add: upd_chan_def)
  qed
  then obtain c where c: "reply (senders e ! i) = Some c" by auto
  have "closing e' \<subseteq> insert c (closing e)" by (auto simp: e' c closing_def split: if_splits)
  then have "card (closing e') \<le> card (insert c (closing e))" using assms(3) by (intro card_mono) simp_all
  then have "card (closing e') \<le> Suc (card (closing e))" using assms(3) by (simp add: card_insert_if split: if_splits)
  then show ?thesis
    using sum_list_update [OF i(1), of sender_work ?y] i c by (simp add: work_def e' sender_work_def)
qed

lemma work_close:
  assumes "close_results c e = Some e'" and "finite (closing e)"
  shows "work e' < work e"
proof -
  obtain r where r: "chans e c = Some r" "closer r" "\<not> chan_closed r"
    and e': "e' = e\<lparr>chans := (chans e)(c \<mapsto> r\<lparr>chan_closed := True\<rparr>)\<rparr>"
    using assms(1) by (auto simp: close_results_def split: option.splits if_splits)
  have "closing e' = closing e - {c}" "c \<in> closing e" using r by (auto simp: e' closing_def)
  then have "card (closing e') < card (closing e)" using card_Diff1_less [OF assms(2)] by simp
  then show ?thesis by (simp add: work_def e')
qed

lemma work_take: "take_job k e = Some e' \<Longrightarrow> work e' + 2 = work e"
  by (auto simp: take_job_def work_def closing_def split: list.splits)

lemma work_finish:
  assumes "finish_job i e = Some e'"
  shows "work e' < work e"
proof -
  obtain k j e1 where i: "i < length (in_flight e)" "in_flight e ! i = (k, j)" and e': "e' = job_done j e1"
    and e1: "e1 = go_idle k (e\<lparr>in_flight := remove_nth i (in_flight e)\<rparr>) \<or>
       (\<exists>err. send_result (j_chan j) err (go_idle k (e\<lparr>in_flight := remove_nth i (in_flight e)\<rparr>)) = Some e1)"
    by (rule finish_cases [OF assms])
  let ?e = "go_idle k (e\<lparr>in_flight := remove_nth i (in_flight e)\<rparr>)"
  have "closing e1 = closing ?e" "senders e1 = senders ?e" "events_ch e1 = events_ch ?e" "in_flight e1 = in_flight ?e"
    "workers e1 = workers ?e" "drainers e1 = drainers ?e" "flush_pc e1 = flush_pc ?e"
    using e1 closing_send_result send_result_same by blast+
  moreover have "work e' = work e1" by (simp add: e' work_def closing_job_done) (simp add: job_done_def)
  moreover have "closing ?e = closing e" by (simp add: closing_def)
  moreover have "workers ?e + drainers ?e = workers e + drainers e + 1" "flush_pc ?e = flush_pc e"
    by (cases k; simp add: go_idle_def)+
  moreover have "length (remove_nth i (in_flight e)) + 1 = length (in_flight e)" using i(1) by (simp add: remove_nth_def)
  ultimately show ?thesis by (simp add: work_def)
qed

lemma move_work:
  assumes "bus_reach is_a e" and "move is_a e e'"
  shows "work e' < work e" "bus_reach is_a e'"
proof -
  obtain a where a: "internal a" "bus_act is_a a e = Some e'" "e' \<noteq> e" using assms(2) by (auto simp: move_def)
  show "bus_reach is_a e'" by (rule bus_step [OF assms(1) a(2)])
  note fin = finite_closing [OF assms(1)]
  have less: "work (e\<lparr>workers := workers e - 1\<rparr>) < work e" if "0 < workers e"
    using that by (simp add: work_def closing_def)
  have less': "work (e\<lparr>drainers := drainers e - 1\<rparr>) < work e" if "0 < drainers e"
    using that by (simp add: work_def closing_def)
  show "work e' < work e"
  proof (cases a)
    case ATake
    then have "0 < workers e" "take_job Worker (e\<lparr>workers := workers e - 1\<rparr>) = Some e'"
      using a(2) by (auto simp: worker_take_def split: if_splits)
    then show ?thesis using work_take [of Worker] less by fastforce
  next
    case ADrain
    then have "0 < drainers e" "take_job Drainer (e\<lparr>drainers := drainers e - 1\<rparr>) = Some e'"
      using a(2) by (auto simp: drainer_take_def split: if_splits)
    then show ?thesis using work_take [of Drainer] less' by fastforce
  next
    case AExit
    then show ?thesis using a(2) less by (auto simp: worker_exit_def split: if_splits)
  next
    case ADrainExit
    then show ?thesis using a(2) less' by (auto simp: drainer_exit_def split: if_splits)
  next
    case AWaitJobs
    then show ?thesis using a(2) by (auto simp: jobs_waited_def work_def closing_def waits_left_def split: if_splits)
  next
    case AWaitWorkers
    then show ?thesis using a(2) by (auto simp: workers_waited_def work_def closing_def waits_left_def split: if_splits)
  qed (use a fin in \<open>auto intro: work_arm work_send work_return work_close work_finish\<close>)
qed

section \<open>A flush comes to its end\<close>

text \<open>A handler that is being flushed while no dispatch is in progress: its drainer is at work as long
  as a job is queued.\<close>

definition idle_senders :: "'e EventHandler \<Rightarrow> bool" where
  "idle_senders e \<longleftrightarrow> (\<forall>s \<in> set (senders e). held s = None \<and> todo s = [])"

definition flushing :: "'e EventHandler \<Rightarrow> bool" where
  "flushing e \<longleftrightarrow>
     closed e \<and> flush_pc e \<noteq> NoFlush \<and> idle_senders e \<and> (events_ch e = [] \<or> 0 < drainers e \<or> (\<exists>p \<in> set (in_flight e). fst p = Drainer))"

lemma idle_no_arm:
  assumes "idle_senders e"
  shows "arm i e = None" "send_job i e = None"
  using assms by (auto simp: idle_senders_def arm_def send_job_def split: list.splits option.splits)

lemma idle_senders_update:
  "idle_senders e \<Longrightarrow> senders e' = (senders e)[i := y] \<Longrightarrow> held y = None \<Longrightarrow> todo y = [] \<Longrightarrow> idle_senders e'"
  by (auto simp: idle_senders_def dest!: subsetD [OF set_update_subset_insert])

lemma set_remove_nth_sub: "x \<in> set xs \<Longrightarrow> i < length xs \<Longrightarrow> x \<noteq> xs ! i \<Longrightarrow> x \<in> set (remove_nth i xs)"
  using mset_remove_nth [of i xs] by (metis insert_iff set_mset_add_mset_insert set_mset_mset)

lemma flushing_finish:
  assumes "finish_job i e = Some e'" and "flushing e"
  shows "flushing e'"
proof -
  obtain k j e1 where i: "i < length (in_flight e)" "in_flight e ! i = (k, j)" and e': "e' = job_done j e1"
    and e1: "e1 = go_idle k (e\<lparr>in_flight := remove_nth i (in_flight e)\<rparr>) \<or>
       (\<exists>err. send_result (j_chan j) err (go_idle k (e\<lparr>in_flight := remove_nth i (in_flight e)\<rparr>)) = Some e1)"
    by (rule finish_cases [OF assms(1)])
  let ?e = "go_idle k (e\<lparr>in_flight := remove_nth i (in_flight e)\<rparr>)"
  have "closed e1 = closed ?e" "flush_pc e1 = flush_pc ?e" "senders e1 = senders ?e" "events_ch e1 = events_ch ?e" "in_flight e1 = in_flight ?e" "drainers e1 = drainers ?e"
    using e1 send_result_same by blast+
  then have same: "closed e' = closed e" "flush_pc e' = flush_pc e" "senders e' = senders e" "events_ch e' = events_ch e"
    "in_flight e' = remove_nth i (in_flight e)" "drainers e' = drainers e + (if k = Drainer then 1 else 0)"
    by (cases k; simp add: e' job_done_def go_idle_def)+
  have "0 < drainers e' \<or> (\<exists>p \<in> set (in_flight e'). fst p = Drainer)"
    if "0 < drainers e \<or> (\<exists>p \<in> set (in_flight e). fst p = Drainer)"
  proof (cases "k = Drainer")
    case False
    then show ?thesis using that i same set_remove_nth_sub [of _ "in_flight e" i] by fastforce
  qed (simp add: same)
  then have "events_ch e' = [] \<or> 0 < drainers e' \<or> (\<exists>p \<in> set (in_flight e'). fst p = Drainer)"
    using assms(2) same(4) unfolding flushing_def by metis
  then show ?thesis using assms(2) same(1-3) unfolding flushing_def idle_senders_def by metis
qed

lemma flushing_move:
  assumes "move is_a e e'" and "flushing e"
  shows "flushing e'"
proof -
  obtain a where a: "internal a" "bus_act is_a a e = Some e'" using assms(1) by (auto simp: move_def)
  have idle: "idle_senders e" using assms(2) by (simp add: flushing_def)
  show ?thesis
  proof (cases a)
    case (AReturn i)
    let ?y = "(senders e ! i)\<lparr>reply := None\<rparr>"
    have e': "e' = upd_chan (reply (senders e ! i)) (\<lambda>r. r\<lparr>closer := True\<rparr>) (e\<lparr>senders := (senders e)[i := ?y]\<rparr>)"
      and y: "held ?y = None" "todo ?y = []"
      using a(2) AReturn by (auto simp: dispatch_return_def split: if_splits)
    have "idle_senders e'" by (rule idle_senders_update [OF idle _ y, of e' i]) (simp add: e')
    then show ?thesis using assms(2) by (simp add: flushing_def e')
  next
    case (AClose c)
    then show ?thesis using a(2) assms(2)
      by (auto simp: close_results_def flushing_def idle_senders_def split: option.splits if_splits)
  next
    case (AFinish i)
    then show ?thesis using a(2) assms(2) flushing_finish by simp
  qed (use a assms(2) idle idle_no_arm [OF idle] in \<open>auto simp: jobs_waited_def workers_waited_def worker_take_def worker_exit_def drainer_take_def drainer_exit_def
        take_job_def flushing_def idle_senders_def split: if_splits list.splits\<close>)
qed

text \<open>What is enabled while a flush is not over.\<close>

lemma flushing_rest:
  assumes "bus_reach is_a e" and "flushing e" and "\<not> (\<exists>e'. move is_a e e')"
  shows "flush_returns e \<and> counted e = {#} \<and> workers e = 0"
proof -
  have stuck: "bus_act is_a a e = Some e' \<Longrightarrow> internal a \<Longrightarrow> e' = e" for a e'
    using assms(3) by (auto simp: move_def)
  have 1: "in_flight e = []"
  proof (rule ccontr)
    assume "in_flight e \<noteq> []"
    then obtain e' where e': "finish_job 0 e = Some e'" "wg e' = wg e - 1"
      using job_can_finish [OF assms(1), of 0] by auto
    then show False using stuck [of "AFinish 0" e'] by simp
  qed
  have 2: "workers e = 0"
  proof (rule ccontr)
    assume "workers e \<noteq> 0"
    then have "worker_exit e = Some (e\<lparr>workers := workers e - 1\<rparr>)"
      using assms(2) by (simp add: worker_exit_def flushing_def)
    then have "e\<lparr>workers := workers e - 1\<rparr> = e" using stuck [of AExit] by simp
    then have "workers (e\<lparr>workers := workers e - 1\<rparr>) = workers e" by simp
    then show False using \<open>workers e \<noteq> 0\<close> by simp
  qed
  have 3: "events_ch e = []"
  proof (rule ccontr)
    assume ev: "events_ch e \<noteq> []"
    then have "0 < drainers e" using assms(2) 1 by (simp add: flushing_def)
    then obtain e' where e': "drainer_take e = Some e'" "length (events_ch e') < length (events_ch e)"
      using ev by (cases "events_ch e") (auto simp: drainer_take_def take_job_def)
    then show False using stuck [of ADrain e'] by simp
  qed
  have "held_jobs e = {#}" using assms(2) by (auto simp: flushing_def idle_senders_def held_jobs_def held_list_def)
  then have "counted e = {#}" using 1 3 by (simp add: counted_def)
  then have "wg e = 0" using bus_reach_inv [OF assms(1)] by (simp add: count_inv_def)
  moreover have "flush_pc e \<noteq> WaitsForJobs"
  proof
    assume "flush_pc e = WaitsForJobs"
    then have "jobs_waited e = Some (e\<lparr>flush_pc := WaitsForWorkers\<rparr>)" using \<open>wg e = 0\<close> by (simp add: jobs_waited_def)
    then have "flush_pc (e\<lparr>flush_pc := WaitsForWorkers\<rparr>) = flush_pc e" using stuck [of AWaitJobs] by simp
    then show False using \<open>flush_pc e = WaitsForJobs\<close> by simp
  qed
  moreover have "flush_pc e \<noteq> WaitsForWorkers"
  proof
    assume "flush_pc e = WaitsForWorkers"
    then have "workers_waited e = Some (e\<lparr>flush_pc := FlushReturned\<rparr>)" using 1 2 by (simp add: workers_waited_def)
    then have "flush_pc (e\<lparr>flush_pc := FlushReturned\<rparr>) = flush_pc e" using stuck [of AWaitWorkers] by simp
    then show False using \<open>flush_pc e = WaitsForWorkers\<close> by simp
  qed
  ultimately have "flush_pc e = FlushReturned" using assms(2) by (cases "flush_pc e") (simp_all add: flushing_def)
  then show ?thesis using 2 \<open>counted e = {#}\<close> by (simp add: flush_returns_def)
qed

section \<open>Properties\<close>

text \<open>Property C9. Once nothing new is dispatched or started, the handler comes to rest: from a reachable
  state, however its goroutines are scheduled, at most \<open>work e\<close> of their steps change the state.\<close>

theorem bus_comes_to_rest:
  assumes "bus_reach is_a e" and "(move is_a ^^ n) e e'"
  shows "n + work e' \<le> work e"
proof -
  have "n + work e' \<le> work e \<and> bus_reach is_a e'"
    using assms(2)
  proof (induction n arbitrary: e')
    case (Suc n)
    then obtain d where d: "(move is_a ^^ n) e d" "move is_a d e'" by auto
    from Suc.IH [OF d(1)] have "n + work d \<le> work e" "bus_reach is_a d" by auto
    with move_work [OF _ d(2)] show ?case by fastforce
  qed (use assms(1) in simp)
  then show ?thesis ..
qed

text \<open>Property C8. \<open>Flush\<close> returns when no dispatch is in progress: after it, every schedule of the
  goroutines that runs until none can move ends in a state where \<open>Flush\<close> has returned, no worker
  is left and every job ever accepted was run, and no schedule runs for ever.\<close>

theorem flush_returns_eventually:
  assumes "bus_reach is_a e" and "idle_senders e" and "Flush e = Ret e1"
    and "(move is_a ^^ n) e1 e'" and "\<not> (\<exists>d. move is_a e' d)"
  shows "flush_returns e' \<and> wg e' = 0 \<and> workers e' = 0 \<and> in_flight e' = [] \<and>
    mset (finished e') = mset (accepted e') \<and> n \<le> work e1"
proof -
  have e1: "e1 = e\<lparr>closed := True, drainers := drainers e + 1, flush_pc := WaitsForJobs\<rparr>" using assms(3) by (auto simp: Flush_def split: if_splits)
  have r1: "bus_reach is_a e1" by (rule bus_step [OF assms(1), of AFlush]) (simp add: assms(3))
  have f1: "flushing e1" using assms(2) by (simp add: flushing_def idle_senders_def e1)
  have stop: "n + work e' \<le> work e1 \<and> bus_reach is_a e' \<and> flushing e'"
    using assms(4)
  proof (induction n arbitrary: e')
    case (Suc n)
    then obtain d where d: "(move is_a ^^ n) e1 d" "move is_a d e'" by auto
    from Suc.IH [OF d(1)] have "n + work d \<le> work e1" "bus_reach is_a d" "flushing d" by auto
    with move_work [OF _ d(2)] flushing_move [OF d(2)] show ?case by fastforce
  qed (use r1 f1 in simp)
  then have rest: "flush_returns e'" "counted e' = {#}" "workers e' = 0"
    using flushing_rest [of is_a e'] assms(5) by auto
  have "todo_jobs e' = {#}" using stop by (auto simp: flushing_def idle_senders_def todo_jobs_def)
  then show ?thesis
    using bus_reach_inv [of is_a e'] stop rest by (simp add: count_inv_def) (simp add: counted_def)
qed

lemma moveI: "internal a \<Longrightarrow> bus_act is_a a e = Some e' \<Longrightarrow> wg e' \<noteq> wg e \<or> drainers e' \<noteq> drainers e \<or> flush_pc e' \<noteq> flush_pc e \<Longrightarrow> move is_a e e'"
  unfolding move_def by (intro exI [of _ a]) auto

lemma bus_comes_to_rest_witness:
  "\<exists>e e'. bus_run any_type [AListen user_type [ok_listener], ADispatch user_type 1] New_EventHandler = Some e \<and>
     (move any_type ^^ 1) e e' \<and> work e = 7 \<and> 1 + work e' \<le> 7"
proof -
  obtain e where e: "bus_run any_type [AListen user_type [ok_listener], ADispatch user_type 1] New_EventHandler = Some e"
    "work e = 7" "\<exists>e'. arm 0 e = Some e' \<and> wg e' \<noteq> wg e"
    by (simp add: bus_eval work_def sender_work_def closing_def waits_left_def)
  then obtain e' where "move any_type e e'" using moveI [of "AArm 0" any_type e] by auto
  then have m: "(move any_type ^^ 1) e e'" by (simp add: eq_OO)
  show ?thesis using bus_comes_to_rest [OF bus_run_reach [OF bus_init e(1)] m] e(1,2) m by auto
qed

definition sent_bus :: "nat EventHandler" where
  "sent_bus = the (bus_run any_type [AListen user_type [ok_listener], ADispatch user_type 1, AArm 0, ASend 0] New_EventHandler)"

definition flush_at :: "nat \<Rightarrow> nat EventHandler" where
  "flush_at n = the (bus_run any_type (take n [AFlush, ADrain, AFinish 0, ADrainExit, AWaitJobs, AWaitWorkers]) sent_bus)"

lemma sent_bus_run:
  "bus_run any_type [AListen user_type [ok_listener], ADispatch user_type 1, AArm 0, ASend 0] New_EventHandler = Some sent_bus"
  by (simp add: sent_bus_def bus_eval)

lemma flush_returns_eventually_witness:
  "\<exists>e1 e'. Flush sent_bus = Ret e1 \<and> (move any_type ^^ 5) e1 e' \<and> flush_returns e' \<and> 5 \<le> work e1"
proof -
  note ev = flush_at_def sent_bus_def bus_eval numeral_3_eq_3 numeral_2_eq_2
  have num: "(5::nat) = Suc (Suc (Suc (Suc (Suc 0))))" "(6::nat) = Suc (Suc (Suc (Suc (Suc (Suc 0)))))"
    "(4::nat) = Suc (Suc (Suc (Suc 0)))" by simp_all
  have f: "Flush sent_bus = Ret (flush_at 1)" by (simp add: ev)
  have m: "move any_type (flush_at 1) (flush_at 2)" "move any_type (flush_at 2) (flush_at 3)" "move any_type (flush_at 3) (flush_at 4)"
    "move any_type (flush_at 4) (flush_at 5)" "move any_type (flush_at 5) (flush_at 6)"
    by (rule moveI [of ADrain], simp_all add: ev, rule moveI [of "AFinish 0"], simp_all add: ev,
        rule moveI [of ADrainExit], simp_all add: ev num, rule moveI [of AWaitJobs], simp_all add: ev num,
        rule moveI [of AWaitWorkers], simp_all add: ev num)
  have five: "(move any_type ^^ 5) (flush_at 1) (flush_at 6)"
    unfolding num(1) using m by (auto intro!: relcomppI)
  have rest: "\<not> (\<exists>d. move any_type (flush_at 6) d)"
  proof
    assume "\<exists>d. move any_type (flush_at 6) d"
    then obtain a d where "internal a" "bus_act any_type a (flush_at 6) = Some d" "d \<noteq> flush_at 6" by (auto simp: move_def)
    then show False by (cases a) (auto simp: ev num split: if_splits)
  qed
  have idle: "idle_senders sent_bus" by (simp add: idle_senders_def ev)
  show ?thesis
    using flush_returns_eventually [OF bus_run_reach [OF bus_init sent_bus_run] idle f five rest] f five by blast
qed

end
