(* ===== verification/Queue_Core.thy ===== *)
theory Queue_Core
  imports Go_Duration
begin

text \<open>
  \<open>queue/\<close>: jobs and their options (\<open>types.go\<close>, \<open>options.go\<close>) and the consumer with its observer
  (\<open>consumer.go\<close>, \<open>consumer_observer.go\<close>, \<open>errors.go\<close>). A driver's message is the record of its
  operations on the state \<open>'s\<close> of the driver. The retry helper of \<open>flow\<close> is the parameter \<open>retry\<close>.
  The locale \<open>message_driver\<close> says what the consumer may expect of a driver; the drivers interpret it.
\<close>

section \<open>Jobs and options\<close>

type_synonym queue_name = string
type_synonym task_name = string

datatype option_type = OnQueueOpt | AtOpt | AfterOpt | IDOpt | MaxTriesOpt

datatype job_option = onQueue queue_name | atOption int | afterOption i64 | iDOption string | maxTriesOpt int

fun opt_Type :: "job_option \<Rightarrow> option_type" where
  "opt_Type (onQueue q) = OnQueueOpt"
| "opt_Type (atOption t) = AtOpt"
| "opt_Type (afterOption d) = AfterOpt"
| "opt_Type (iDOption i) = IDOpt"
| "opt_Type (maxTriesOpt m) = MaxTriesOpt"

text \<open>\<open>String()\<close>; the layout of a time is the parameter \<open>fmt_time\<close>.\<close>

fun opt_String :: "(int \<Rightarrow> string) \<Rightarrow> job_option \<Rightarrow> string" where
  "opt_String fmt_time (onQueue q) = ''OnQueue('' @ q @ '')''"
| "opt_String fmt_time (atOption t) = ''At('' @ fmt_time t @ '')''"
| "opt_String fmt_time (afterOption d) = ''After('' @ Duration_String d @ '')''"
| "opt_String fmt_time (iDOption i) = ''ID('' @ i @ '')''"
| "opt_String fmt_time (maxTriesOpt m) =
     ''MaxTries('' @ (if m < 0 then CHR ''-'' # nat_digits (nat (- m)) else nat_digits (nat m)) @ '')''"

datatype opt_value = VQueue queue_name | VTime int | VDuration i64 | VString string | VInt int

fun opt_Value :: "job_option \<Rightarrow> opt_value" where
  "opt_Value (onQueue q) = VQueue q"
| "opt_Value (atOption t) = VTime t"
| "opt_Value (afterOption d) = VDuration d"
| "opt_Value (iDOption i) = VString i"
| "opt_Value (maxTriesOpt m) = VInt m"

definition OnQueue :: "queue_name \<Rightarrow> job_option" where
  "OnQueue q = onQueue q"

definition At :: "int \<Rightarrow> job_option" where
  "At t = atOption t"

definition After :: "i64 \<Rightarrow> job_option" where
  "After d = afterOption d"

definition withID :: "string \<Rightarrow> job_option" where
  "withID i = iDOption i"

definition WithMaxTries :: "int \<Rightarrow> job_option" where
  "WithMaxTries m = maxTriesOpt m"

fun QueueFromOptions :: "job_option list \<Rightarrow> queue_name" where
  "QueueFromOptions [] = ''default''"
| "QueueFromOptions (opt # opts) =
     (if opt_Type opt = OnQueueOpt then (case opt_Value opt of VQueue q \<Rightarrow> q | _ \<Rightarrow> ''default'')
      else QueueFromOptions opts)"

record qjob =
  job_ID :: string
  job_Task :: task_name
  CreatedAt :: int
  Payload :: "u8 list"
  Options :: "job_option list"

definition NewJob :: "int \<Rightarrow> string \<Rightarrow> task_name \<Rightarrow> u8 list \<Rightarrow> job_option list \<Rightarrow> qjob" where
  "NewJob now i task payload options =
     \<lparr>job_ID = i, job_Task = task, CreatedAt = now, Payload = payload, Options = options\<rparr>"

section \<open>The observers\<close>

text \<open>The Prometheus counters by task, and the errors handed to Sentry.\<close>

record consumer_metrics =
  JobsProcessed :: "task_name \<Rightarrow> nat"
  JobsErrors :: "task_name \<Rightarrow> nat"
  JobsProcessedSeconds :: "task_name \<Rightarrow> nat"
  JobsDeadlettered :: "task_name \<Rightarrow> nat"
  JobsSkipped :: "task_name \<Rightarrow> nat"
  captured :: "go_error list"

definition no_metrics :: consumer_metrics where
  "no_metrics = \<lparr>JobsProcessed = (\<lambda>_. 0), JobsErrors = (\<lambda>_. 0), JobsProcessedSeconds = (\<lambda>_. 0),
     JobsDeadlettered = (\<lambda>_. 0), JobsSkipped = (\<lambda>_. 0), captured = []\<rparr>"

record SentryOpts =
  Enabled :: bool
  Skipper :: "(go_error \<Rightarrow> bool) list"

record ConsumerObserver =
  sentry :: SentryOpts

definition NewConsumerObserver :: "SentryOpts \<Rightarrow> ConsumerObserver" where
  "NewConsumerObserver so =
     \<lparr>sentry = so\<lparr>Skipper := (Skipper so @ [\<lambda>err. errors_Is err ErrDeadLetter]) @ [\<lambda>err. errors_Is err ErrSkipRetry]\<rparr>\<rparr>"

text \<open>\<open>observeStart\<close> puts a hub on the context when Sentry is enabled; \<open>hub\<close> says whether the
  context carries one.\<close>

definition observeStart :: "ConsumerObserver \<Rightarrow> bool \<Rightarrow> bool" where
  "observeStart o' hub = (if \<not> Enabled (sentry o') then hub else True)"

definition inc :: "task_name \<Rightarrow> (task_name \<Rightarrow> nat) \<Rightarrow> task_name \<Rightarrow> nat" where
  "inc t c = c(t := Suc (c t))"

definition observeSuccess :: "qjob \<Rightarrow> consumer_metrics \<Rightarrow> consumer_metrics" where
  "observeSuccess job m =
     m\<lparr>JobsProcessed := inc (job_Task job) (JobsProcessed m),
       JobsProcessedSeconds := inc (job_Task job) (JobsProcessedSeconds m)\<rparr>"

definition reportError :: "ConsumerObserver \<Rightarrow> bool \<Rightarrow> go_error \<Rightarrow> consumer_metrics \<Rightarrow> consumer_metrics" where
  "reportError o' hub err m =
     (if \<not> Enabled (sentry o') then m
      else if list_ex (\<lambda>s. s err) (Skipper (sentry o')) then m
      else if hub then m\<lparr>captured := captured m @ [err]\<rparr> else m)"

definition observeError :: "ConsumerObserver \<Rightarrow> bool \<Rightarrow> qjob \<Rightarrow> go_error \<Rightarrow> consumer_metrics \<Rightarrow> consumer_metrics" where
  "observeError o' hub job err m0 =
     (let t = job_Task job;
          m1 = m0\<lparr>JobsProcessed := inc t (JobsProcessed m0), JobsErrors := inc t (JobsErrors m0),
                  JobsProcessedSeconds := inc t (JobsProcessedSeconds m0)\<rparr>;
          m2 = (if errors_Is err ErrDeadLetter then m1\<lparr>JobsDeadlettered := inc t (JobsDeadlettered m1)\<rparr> else m1);
          m3 = (if errors_Is err ErrSkipRetry then m2\<lparr>JobsSkipped := inc t (JobsSkipped m2)\<rparr> else m2)
      in if Enabled (sentry o') then reportError o' hub err m3 else m3)"

section \<open>The consumer\<close>

type_synonym 's effect = "'s \<Rightarrow> go_error option \<times> 's"

record 's message =
  msg_Job :: qjob
  msg_Ack :: "'s effect"
  msg_Cancel :: "'s effect"
  msg_Nack :: "'s effect"
  msg_Deadletter :: "'s effect"
  msg_InProgress :: "'s effect option"

text \<open>\<open>flow.RetryDelay\<close>: the function, the number of attempts and the delay.\<close>

type_synonym 's retrier = "'s effect \<Rightarrow> nat \<Rightarrow> i64 \<Rightarrow> 's effect"

record ConsumerOpts =
  Concurrency :: int
  AckAttempts :: int
  AckBackoff :: i64
  HeartbeatInterval :: i64

definition ConsumerOpts_withDefaults :: "int \<Rightarrow> ConsumerOpts \<Rightarrow> ConsumerOpts" where
  "ConsumerOpts_withDefaults numCPU c0 =
     (let c1 = (if Concurrency c0 = 0 then c0\<lparr>Concurrency := numCPU\<rparr> else c0);
          c2 = (if AckAttempts c1 = 0 then c1\<lparr>AckAttempts := 3\<rparr> else c1);
          c3 = (if AckBackoff c2 = 0 then c2\<lparr>AckBackoff := 5000000\<rparr> else c2)
      in if HeartbeatInterval c3 = 0 then c3\<lparr>HeartbeatInterval := 10000000000\<rparr> else c3)"

type_synonym HandlerFunc = "u8 list \<Rightarrow> go_error option"

record 's Consumer =
  c_obs :: ConsumerObserver
  c_opts :: ConsumerOpts
  c_handlers :: "task_name \<Rightarrow> HandlerFunc option"
  c_shutdowns :: "'s effect list"
  c_close :: "'s effect"

definition NewConsumer :: "int \<Rightarrow> 's effect \<Rightarrow> ConsumerObserver option \<Rightarrow> ConsumerOpts \<Rightarrow> 's Consumer" where
  "NewConsumer numCPU close observer opts =
     \<lparr>c_obs = (case observer of None \<Rightarrow> NewConsumerObserver \<lparr>Enabled = False, Skipper = []\<rparr> | Some o' \<Rightarrow> o'),
      c_opts = ConsumerOpts_withDefaults numCPU opts, c_handlers = Map.empty, c_shutdowns = [], c_close = close\<rparr>"

text \<open>What the consumer works on: the driver's state, its metrics, and the calls of job handlers.\<close>

record 's world =
  drv :: 's
  metrics :: consumer_metrics
  ran :: "qjob list"

text \<open>The heartbeat: \<open>beats\<close> ticks pass while the job's handler runs; errors are ignored.\<close>

fun heartbeat :: "nat \<Rightarrow> 's effect \<Rightarrow> 's \<Rightarrow> 's" where
  "heartbeat 0 pr s = s"
| "heartbeat (Suc n) pr s = heartbeat n pr (snd (pr s))"

definition on_drv :: "'s effect \<Rightarrow> 's world \<Rightarrow> go_error option \<times> 's world" where
  "on_drv f w = (case f (drv w) of (r, s) \<Rightarrow> (r, w\<lparr>drv := s\<rparr>))"

definition Consumer_handler ::
    "'s retrier \<Rightarrow> 's Consumer \<Rightarrow> bool \<Rightarrow> nat \<Rightarrow> 's message \<Rightarrow> 's world \<Rightarrow> go_error option \<times> 's world" where
  "Consumer_handler retry c hub0 beats msg w0 =
     (let job = msg_Job msg;
          hub = observeStart (c_obs c) hub0
      in case c_handlers c (job_Task job) of
           None \<Rightarrow>
             let err = wrapf ''no handler registered for task'' (ESentinel ErrDeadLetter)
             in on_drv (msg_Deadletter msg) (w0\<lparr>metrics := observeError (c_obs c) hub job err (metrics w0)\<rparr>)
         | Some handler \<Rightarrow>
             let w1 = (case msg_InProgress msg of
                         None \<Rightarrow> w0 | Some pr \<Rightarrow> w0\<lparr>drv := heartbeat beats pr (drv w0)\<rparr>);
                 w2 = w1\<lparr>ran := ran w1 @ [job]\<rparr>
             in case handler (Payload job) of
                  Some err \<Rightarrow>
                    let w3 = w2\<lparr>metrics := observeError (c_obs c) hub job err (metrics w2)\<rparr>
                    in if errors_Is err ErrSkipRetry then on_drv (msg_Cancel msg) w3
                       else if errors_Is err ErrDeadLetter then on_drv (msg_Deadletter msg) w3
                       else on_drv (msg_Nack msg) w3
                | None \<Rightarrow>
                    on_drv (retry (msg_Ack msg) 3 (AckBackoff (c_opts c)))
                      (w2\<lparr>metrics := observeSuccess job (metrics w2)\<rparr>))"

text \<open>After the context is done: the driver is closed, then the messages left in the channel are
  handled.\<close>

definition Consume_shutdown ::
    "'s retrier \<Rightarrow> 's Consumer \<Rightarrow> bool \<Rightarrow> nat \<Rightarrow> 's message list \<Rightarrow> 's world \<Rightarrow> go_error option \<times> 's world" where
  "Consume_shutdown retry c hub beats messages w =
     (case on_drv (c_close c) w of
        (Some err, w') \<Rightarrow> (Some (wrapf ''close consumer driver'' err), w')
      | (None, w') \<Rightarrow> (None, fold (\<lambda>msg v. snd (Consumer_handler retry c hub beats msg v)) messages w'))"

definition RegisterShutdown :: "'s effect \<Rightarrow> 's Consumer \<Rightarrow> 's Consumer" where
  "RegisterShutdown f c = c\<lparr>c_shutdowns := c_shutdowns c @ [f]\<rparr>"

definition RegisterHandler :: "task_name \<Rightarrow> HandlerFunc \<Rightarrow> 's Consumer \<Rightarrow> 's Consumer" where
  "RegisterHandler kind h c = c\<lparr>c_handlers := (c_handlers c)(kind \<mapsto> h)\<rparr>"

text \<open>\<open>Close\<close> runs the shutdown functions up to the first error, then closes the driver.\<close>

fun run_shutdowns :: "'s effect list \<Rightarrow> 's effect" where
  "run_shutdowns [] s = (None, s)"
| "run_shutdowns (f # fs) s = (case f s of (Some err, s') \<Rightarrow> (Some err, s') | (None, s') \<Rightarrow> run_shutdowns fs s')"

definition Consumer_Close :: "'s Consumer \<Rightarrow> 's effect" where
  "Consumer_Close c s =
     (case run_shutdowns (c_shutdowns c) s of
        (Some err, s') \<Rightarrow> (Some err, s')
      | (None, s') \<Rightarrow> c_close c s')"

section \<open>What the consumer promises\<close>

text \<open>The documented behaviour of the retry helper: attempts are made until one succeeds, at most
  as many as asked for; the error of the last one is reported in some form.\<close>

definition retry_laws :: "'s retrier \<Rightarrow> bool" where
  "retry_laws retry \<longleftrightarrow>
     (\<forall>f d s n. (fst (f s) = None \<longrightarrow> retry f (Suc n) d s = (None, snd (f s))) \<and>
        (fst (f s) \<noteq> None \<longrightarrow> retry f (Suc (Suc n)) d s = retry f (Suc n) d (snd (f s))) \<and>
        (fst (f s) \<noteq> None \<longrightarrow> fst (retry f 1 d s) \<noteq> None \<and> snd (retry f 1 d s) = snd (f s)))"

text \<open>A retry helper that meets them.\<close>

fun retry_loop :: "'s effect \<Rightarrow> nat \<Rightarrow> i64 \<Rightarrow> 's effect" where
  "retry_loop f 0 d s = (None, s)"
| "retry_loop f (Suc n) d s =
     (case f s of (None, s') \<Rightarrow> (None, s')
      | (Some e, s') \<Rightarrow> if n = 0 then (Some e, s') else retry_loop f n d s')"

lemma retry_loop_laws: "retry_laws retry_loop"
  by (auto simp: retry_laws_def split: prod.splits option.splits)

lemma retry_result:
  assumes "retry_laws retry" "\<And>s. P s \<Longrightarrow> (if fst (f s) = None then Q (snd (f s)) else P (snd (f s)))" "P s"
  shows "if fst (retry f (Suc n) d s) = None then Q (snd (retry f (Suc n) d s)) else P (snd (retry f (Suc n) d s))"
  using assms(3)
proof (induction n arbitrary: s)
  case 0
  then show ?case
    using assms(1) [unfolded retry_laws_def, rule_format, of f s 0 d] assms(2) [of s] by (cases "fst (f s)") auto
next
  case (Suc n)
  note l = assms(1) [unfolded retry_laws_def, rule_format, of f s]
  show ?case
  proof (cases "fst (f s)")
    case None
    then show ?thesis using l [of "Suc n" d] assms(2) [OF Suc.prems] by simp
  next
    case (Some e)
    then have "retry f (Suc (Suc n)) d s = retry f (Suc n) d (snd (f s))" using l [of n d] by simp
    moreover have "P (snd (f s))" using assms(2) [OF Suc.prems] Some by simp
    ultimately show ?thesis using Suc.IH by simp
  qed
qed

lemma retry_3:
  assumes "retry_laws retry" "\<And>s. P s \<Longrightarrow> (if fst (f s) = None then Q (snd (f s)) else P (snd (f s)))" "P s"
  shows "if fst (retry f 3 d s) = None then Q (snd (retry f 3 d s)) else P (snd (retry f 3 d s))"
proof -
  have 3: "Suc 2 = 3" by simp
  show ?thesis using retry_result [where f = f and P = P and Q = Q and n = 2 and d = d, OF assms] unfolding 3 .
qed

lemma on_drv_simps [simp]:
  "fst (on_drv f w) = fst (f (drv w))" "drv (snd (on_drv f w)) = snd (f (drv w))"
  "metrics (snd (on_drv f w)) = metrics w" "ran (snd (on_drv f w)) = ran w"
  by (simp_all add: on_drv_def split: prod.split)

datatype settlement = Acked | Cancelled | Nacked | Deadlettered

text \<open>What a job deserves: decided by its handler's error, a dead letter when it has none.\<close>

definition verdict :: "'s Consumer \<Rightarrow> qjob \<Rightarrow> settlement" where
  "verdict c job =
     (case c_handlers c (job_Task job) of
        None \<Rightarrow> Deadlettered
      | Some h \<Rightarrow> (case h (Payload job) of
          None \<Rightarrow> Acked
        | Some err \<Rightarrow> if errors_Is err ErrSkipRetry then Cancelled
                      else if errors_Is err ErrDeadLetter then Deadlettered else Nacked))"

text \<open>A driver settles its message: each operation that succeeds adds its settlement to the log; one
  that fails may have been carried out all the same, as when only the reply was lost; a heartbeat
  settles nothing.\<close>

definition may_record :: "('s \<Rightarrow> settlement list) \<Rightarrow> 's effect \<Rightarrow> settlement \<Rightarrow> bool" where
  "may_record log f a \<longleftrightarrow> (\<forall>s. log (snd (f s)) = log s @ [a] \<or> fst (f s) \<noteq> None \<and> log (snd (f s)) = log s)"

text \<open>How often the log may show the settlement \<open>v\<close> of a message whose handling returned \<open>e\<close>.\<close>

definition settled_by :: "'s message \<Rightarrow> settlement \<Rightarrow> go_error option \<Rightarrow> nat \<Rightarrow> bool" where
  "settled_by msg v e j \<longleftrightarrow>
     (e = None \<longrightarrow> 1 \<le> j) \<and> j \<le> 3 \<and> (v \<noteq> Acked \<or> (\<forall>s. fst (msg_Ack msg s) = None) \<longrightarrow> j \<le> 1)"

locale message_driver =
  fixes msg :: "'s message" and log :: "'s \<Rightarrow> settlement list"
  assumes ack: "may_record log (msg_Ack msg) Acked"
    and cancel: "may_record log (msg_Cancel msg) Cancelled"
    and nack: "may_record log (msg_Nack msg) Nacked"
    and deadletter: "may_record log (msg_Deadletter msg) Deadlettered"
    and in_progress: "msg_InProgress msg = Some pr \<Longrightarrow> log (snd (pr s)) = log s"
begin

lemma heartbeat_log: "msg_InProgress msg = Some pr \<Longrightarrow> log (heartbeat n pr s) = log s"
  by (induction n arbitrary: s) (simp_all add: in_progress)

lemma once:
  assumes "may_record log f v" "v \<noteq> Acked"
  shows "\<exists>j. log (snd (f s)) = log s @ replicate j v \<and> settled_by msg v (fst (f s)) j"
  using assms(1) [unfolded may_record_def, rule_format, of s]
proof
  assume "log (snd (f s)) = log s @ [v]"
  then show ?thesis by (intro exI [of _ 1]) (simp add: settled_by_def)
qed (intro exI [of _ 0], auto simp: settled_by_def)

lemma ack_attempts:
  assumes "retry_laws retry"
  shows "\<exists>j \<le> Suc n. log (snd (retry (msg_Ack msg) (Suc n) d s)) = log s @ replicate j Acked \<and>
    (fst (retry (msg_Ack msg) (Suc n) d s) = None \<longrightarrow> 1 \<le> j)"
proof (induction n arbitrary: s)
  case 0
  have r: "fst (retry (msg_Ack msg) (Suc 0) d s) = None \<longleftrightarrow> fst (msg_Ack msg s) = None" "snd (retry (msg_Ack msg) (Suc 0) d s) = snd (msg_Ack msg s)"
    using assms [unfolded retry_laws_def, rule_format, of "msg_Ack msg" s 0 d] by (cases "fst (msg_Ack msg s)"; simp)+
  show ?case
    using ack [unfolded may_record_def, rule_format, of s] unfolding r
    by (elim disjE) (rule exI [of _ 1], simp, rule exI [of _ 0], simp)
next
  case (Suc n)
  note l = assms [unfolded retry_laws_def, rule_format, of "msg_Ack msg" s]
  show ?case
  proof (cases "fst (msg_Ack msg s)")
    case None
    then show ?thesis using l [of "Suc n" d] ack [unfolded may_record_def, rule_format, of s] by (intro exI [of _ 1]) simp
  next
    case (Some e)
    then have r: "retry (msg_Ack msg) (Suc (Suc n)) d s = retry (msg_Ack msg) (Suc n) d (snd (msg_Ack msg s))" using l [of n d] by simp
    obtain j where j: "j \<le> Suc n" "log (snd (retry (msg_Ack msg) (Suc n) d (snd (msg_Ack msg s)))) = log (snd (msg_Ack msg s)) @ replicate j Acked"
      "fst (retry (msg_Ack msg) (Suc n) d (snd (msg_Ack msg s))) = None \<longrightarrow> 1 \<le> j" using Suc.IH by blast
    from ack [unfolded may_record_def, rule_format, of s] show ?thesis
    proof
      assume "log (snd (msg_Ack msg s)) = log s @ [Acked]"
      then show ?thesis using j unfolding r by (intro exI [of _ "Suc j"]) simp
    next
      assume "fst (msg_Ack msg s) \<noteq> None \<and> log (snd (msg_Ack msg s)) = log s"
      then show ?thesis using j unfolding r by (intro exI [of _ j]) simp
    qed
  qed
qed

lemma ack_retried:
  assumes "retry_laws retry"
  shows "\<exists>j. log (snd (retry (msg_Ack msg) 3 d s)) = log s @ replicate j Acked \<and>
    settled_by msg Acked (fst (retry (msg_Ack msg) 3 d s)) j"
proof (cases "\<forall>x. fst (msg_Ack msg x) = None")
  case True
  then have "retry (msg_Ack msg) 3 d s = (None, snd (msg_Ack msg s))"
    using assms [unfolded retry_laws_def, rule_format, of "msg_Ack msg" s 2 d] by (simp add: numeral_3_eq_3)
  then show ?thesis using True ack [unfolded may_record_def, rule_format, of s]
    by (intro exI [of _ 1]) (simp add: settled_by_def)
next
  case False
  then show ?thesis using ack_attempts [OF assms, of 2 d s] by (auto simp: settled_by_def numeral_3_eq_3)
qed

text \<open>One message is settled as its job deserves and in no other way: at least once when the handling
  returns no error.\<close>

lemma handler_settles:
  assumes "retry_laws retry"
  shows "\<exists>j. log (drv (snd (Consumer_handler retry c hub beats msg w))) = log (drv w) @ replicate j (verdict c (msg_Job msg)) \<and>
    settled_by msg (verdict c (msg_Job msg)) (fst (Consumer_handler retry c hub beats msg w)) j"
proof (cases "c_handlers c (job_Task (msg_Job msg))")
  case None
  then show ?thesis using once [OF deadletter] by (simp add: Consumer_handler_def verdict_def Let_def)
next
  case (Some h)
  note h = this
  let ?w1 = "case msg_InProgress msg of None \<Rightarrow> w | Some pr \<Rightarrow> w\<lparr>drv := heartbeat beats pr (drv w)\<rparr>"
  have beat: "log (drv ?w1) = log (drv w)" by (simp add: heartbeat_log split: option.split)
  show ?thesis
  proof (cases "h (Payload (msg_Job msg))")
    case None
    then show ?thesis using ack_retried [OF assms, of "AckBackoff (c_opts c)" "drv ?w1"]
      unfolding Consumer_handler_def Let_def h verdict_def by (simp add: beat)
  next
    case (Some err)
    then show ?thesis
      using once [OF cancel, of "drv ?w1"] once [OF deadletter, of "drv ?w1"] once [OF nack, of "drv ?w1"]
      unfolding Consumer_handler_def Let_def h verdict_def by (simp add: beat)
  qed
qed

end

section \<open>Properties\<close>

text \<open>The metrics after one message, whatever its driver does.\<close>

definition failed :: "'s Consumer \<Rightarrow> qjob \<Rightarrow> go_error option" where
  "failed c job =
     (case c_handlers c (job_Task job) of
        None \<Rightarrow> Some (wrapf ''no handler registered for task'' (ESentinel ErrDeadLetter))
      | Some h \<Rightarrow> h (Payload job))"

definition observed :: "'s Consumer \<Rightarrow> bool \<Rightarrow> qjob \<Rightarrow> consumer_metrics \<Rightarrow> consumer_metrics" where
  "observed c hub0 job m =
     (case failed c job of
        None \<Rightarrow> observeSuccess job m
      | Some err \<Rightarrow> observeError (c_obs c) (observeStart (c_obs c) hub0) job err m)"

lemma handler_metrics:
  "metrics (snd (Consumer_handler retry c hub beats msg w)) = observed c hub (msg_Job msg) (metrics w)"
  by (simp add: Consumer_handler_def observed_def failed_def Let_def split: option.split)

definition error_class :: "(go_error \<Rightarrow> bool) \<Rightarrow> 's Consumer \<Rightarrow> task_name \<Rightarrow> qjob list \<Rightarrow> nat" where
  "error_class P c t jobs =
     length (filter (\<lambda>j. job_Task j = t \<and> (case failed c j of None \<Rightarrow> False | Some e \<Rightarrow> P e)) jobs)"

lemma observed_counts:
  "JobsProcessed (observed c hub j m) t = JobsProcessed m t + (if job_Task j = t then 1 else 0)"
  "JobsErrors (observed c hub j m) t = JobsErrors m t + error_class (\<lambda>_. True) c t [j]"
  "JobsDeadlettered (observed c hub j m) t = JobsDeadlettered m t + error_class (\<lambda>e. errors_Is e ErrDeadLetter) c t [j]"
  "JobsSkipped (observed c hub j m) t = JobsSkipped m t + error_class (\<lambda>e. errors_Is e ErrSkipRetry) c t [j]"
  by (simp_all add: observed_def observeSuccess_def observeError_def reportError_def inc_def error_class_def Let_def
      split: option.split)

lemma error_class_Cons: "error_class P c t (j # js) = error_class P c t [j] + error_class P c t js"
  by (simp add: error_class_def)

definition handle_all :: "'s retrier \<Rightarrow> 's Consumer \<Rightarrow> bool \<Rightarrow> nat \<Rightarrow> 's message list \<Rightarrow> 's world \<Rightarrow> 's world" where
  "handle_all retry c hub beats msgs w = fold (\<lambda>msg v. snd (Consumer_handler retry c hub beats msg v)) msgs w"

text \<open>Property C22. The counters are exact: after any sequence of messages, each task's counters hold
  the number of its jobs processed, of its jobs that failed, and of those whose error wraps
  \<open>ErrDeadLetter\<close> (jobs without a handler among them) or \<open>ErrSkipRetry\<close>.\<close>

theorem consumer_counters_exact:
  "JobsProcessed (metrics (handle_all retry c hub beats msgs w)) t =
     JobsProcessed (metrics w) t + length (filter (\<lambda>j. job_Task j = t) (map msg_Job msgs)) \<and>
   JobsErrors (metrics (handle_all retry c hub beats msgs w)) t =
     JobsErrors (metrics w) t + error_class (\<lambda>_. True) c t (map msg_Job msgs) \<and>
   JobsDeadlettered (metrics (handle_all retry c hub beats msgs w)) t =
     JobsDeadlettered (metrics w) t + error_class (\<lambda>e. errors_Is e ErrDeadLetter) c t (map msg_Job msgs) \<and>
   JobsSkipped (metrics (handle_all retry c hub beats msgs w)) t =
     JobsSkipped (metrics w) t + error_class (\<lambda>e. errors_Is e ErrSkipRetry) c t (map msg_Job msgs)"
proof (induction msgs arbitrary: w)
  case Nil
  then show ?case by (simp add: handle_all_def error_class_def)
next
  case (Cons m ms)
  have "handle_all retry c hub beats (m # ms) w = handle_all retry c hub beats ms (snd (Consumer_handler retry c hub beats m w))"
    by (simp add: handle_all_def)
  moreover have "error_class P c t (map msg_Job (m # ms)) = error_class P c t [msg_Job m] + error_class P c t (map msg_Job ms)" for P
    unfolding list.map by (rule error_class_Cons)
  ultimately show ?case
    using Cons.IH [of "snd (Consumer_handler retry c hub beats m w)"] by (simp add: handler_metrics observed_counts)
qed

text \<open>Sentry never hears of a job that asked for its dead letter or its cancellation,
  wrapped or not, and hears of nothing while it is disabled; any other error that no skipper of the
  options takes is reported once.\<close>

theorem sentry_reports:
  assumes "c_obs c = NewConsumerObserver so"
  shows "captured (metrics (snd (Consumer_handler retry c hub beats msg w))) = captured (metrics w) @
    (case failed c (msg_Job msg) of
       None \<Rightarrow> []
     | Some err \<Rightarrow> if Enabled so \<and> \<not> list_ex (\<lambda>s. s err) (Skipper so) \<and> \<not> errors_Is err ErrDeadLetter \<and> \<not> errors_Is err ErrSkipRetry
                   then [err] else [])"
  using assms
  by (auto simp: handler_metrics observed_def observeSuccess_def observeError_def reportError_def observeStart_def
      NewConsumerObserver_def Let_def split: option.split)

definition demo_consumer :: "unit Consumer" where
  "demo_consumer = RegisterHandler ''t'' (\<lambda>_. Some (EOther ''boom''))
     (NewConsumer 4 (\<lambda>s. (None, s)) (Some (NewConsumerObserver \<lparr>Enabled = True, Skipper = []\<rparr>))
       \<lparr>Concurrency = 0, AckAttempts = 7, AckBackoff = 0, HeartbeatInterval = 0\<rparr>)"

definition demo_message :: "task_name \<Rightarrow> unit message" where
  "demo_message t = \<lparr>msg_Job = NewJob 0 ''1'' t [] [], msg_Ack = Pair None, msg_Cancel = Pair None, msg_Nack = Pair None,
     msg_Deadletter = Pair None, msg_InProgress = None\<rparr>"

lemma sentry_reports_witness:
  "captured (metrics (snd (Consumer_handler retry_loop demo_consumer False 0 (demo_message ''t'')
     \<lparr>drv = (), metrics = no_metrics, ran = []\<rparr>))) = [EOther ''boom'']"
  by (subst sentry_reports [of _ "\<lparr>Enabled = True, Skipper = []\<rparr>"])
    (simp_all add: demo_consumer_def demo_message_def RegisterHandler_def NewConsumer_def NewJob_def failed_def no_metrics_def)

text \<open>The option \<open>AckAttempts\<close> has no effect: the handler tries to acknowledge three
  times whatever the option says, although the option is documented and given a default.\<close>

theorem ack_attempts_ignored:
  "Consumer_handler retry (c\<lparr>c_opts := (c_opts c)\<lparr>AckAttempts := n\<rparr>\<rparr>) hub beats msg w =
   Consumer_handler retry c hub beats msg w"
  by (simp add: Consumer_handler_def Let_def cong: option.case_cong if_cong)

text \<open>\<open>Close\<close> runs the registered shutdown functions in the order of their
  registration and stops at the first error, which it returns without closing the driver; when all
  succeed, the driver is closed last and its error returned.\<close>

theorem close_order:
  "(run_shutdowns (a @ f # b) s =
     (case run_shutdowns a s of (Some e, s') \<Rightarrow> (Some e, s')
      | (None, s') \<Rightarrow> (case f s' of (Some e, s'') \<Rightarrow> (Some e, s'') | (None, s'') \<Rightarrow> run_shutdowns b s''))) \<and>
   Consumer_Close (RegisterShutdown f c) s =
     (case run_shutdowns (c_shutdowns c) s of (Some e, s') \<Rightarrow> (Some e, s')
      | (None, s') \<Rightarrow> (case f s' of (Some e, s'') \<Rightarrow> (Some e, s'') | (None, s'') \<Rightarrow> c_close c s''))"
proof -
  have run: "run_shutdowns (a @ f # b) s =
     (case run_shutdowns a s of (Some e, s') \<Rightarrow> (Some e, s')
      | (None, s') \<Rightarrow> (case f s' of (Some e, s'') \<Rightarrow> (Some e, s'') | (None, s'') \<Rightarrow> run_shutdowns b s''))" for a b s
    by (induction a arbitrary: s) (auto split: prod.splits option.splits)
  show ?thesis using run [of a b s] run [of "c_shutdowns c" "[]" s]
    by (simp add: Consumer_Close_def RegisterShutdown_def split: prod.splits option.splits)
qed

end
