(* ===== verification/Consumer_Machine.thy ===== *)
theory Consumer_Machine
  imports Queue_Core
begin

text \<open>
  \<open>Consumer.Consume\<close> of \<open>queue/consumer.go\<close> as a machine: the channel of capacity twice the
  concurrency, the workers that are idle or handle a message, and the goroutine of \<open>Consume\<close> that
  waits for the context, closes the driver and empties the channel. One action is one operation on
  the channel or the context, or one run of the handler; a driver may send whenever there is room.
\<close>

section \<open>The machine\<close>

text \<open>\<open>busy\<close> holds the messages the workers have taken and not yet handled. \<open>draining\<close> is the number of
  rounds left of the last loop, which asks for the length of the channel once, before it begins.\<close>

record 's running =
  rworld :: "'s world"
  chan :: "'s message list"
  idle :: nat
  busy :: "'s message list"
  ctx_done :: bool
  draining :: "nat option"
  returned :: "go_error option option"

text \<open>\<open>Consume\<close> up to its wait: \<open>start\<close> is the driver's \<open>Consume\<close>, and a channel cannot have a
  negative capacity.\<close>

definition Consume_start :: "'s effect \<Rightarrow> 's Consumer \<Rightarrow> 's world \<Rightarrow> (go_error + 's running) outcome" where
  "Consume_start start c w =
     (if Concurrency (c_opts c) * 2 < 0 then Panic ''makechan: size out of range''
      else case on_drv start w of
             (Some err, _) \<Rightarrow> Ret (Inl (wrapf ''consume from driver'' err))
           | (None, w') \<Rightarrow> Ret (Inr \<lparr>rworld = w', chan = [], idle = nat (Concurrency (c_opts c)), busy = [],
                                 ctx_done = False, draining = None, returned = None\<rparr>))"

datatype 's consume_action =
    CSend "'s message" | CTake | CHandle nat bool nat | CWorkerReturn | CCancel | CClose | CDrain bool nat | CReturn

fun consume_act :: "'s retrier \<Rightarrow> 's Consumer \<Rightarrow> 's consume_action \<Rightarrow> 's running \<Rightarrow> 's running option" where
  "consume_act retry c (CSend msg) r =
     (if length (chan r) < nat (Concurrency (c_opts c) * 2) then Some (r\<lparr>chan := chan r @ [msg]\<rparr>) else None)"
| "consume_act retry c CTake r =
     (case chan r of
        [] \<Rightarrow> None
      | msg # rest \<Rightarrow>
          if idle r = 0 then None else Some (r\<lparr>chan := rest, idle := idle r - 1, busy := busy r @ [msg]\<rparr>))"
| "consume_act retry c (CHandle i hub beats) r =
     (if i < length (busy r)
      then Some (r\<lparr>rworld := snd (Consumer_handler retry c hub beats (busy r ! i) (rworld r)),
             busy := remove_nth i (busy r), idle := idle r + 1\<rparr>)
      else None)"
| "consume_act retry c CWorkerReturn r = (if ctx_done r \<and> idle r \<noteq> 0 then Some (r\<lparr>idle := idle r - 1\<rparr>) else None)"
| "consume_act retry c CCancel r = Some (r\<lparr>ctx_done := True\<rparr>)"
| "consume_act retry c CClose r =
     (if ctx_done r \<and> draining r = None \<and> returned r = None
      then (case on_drv (c_close c) (rworld r) of
              (Some err, w) \<Rightarrow> Some (r\<lparr>rworld := w, returned := Some (Some (wrapf ''close consumer driver'' err))\<rparr>)
            | (None, w) \<Rightarrow> Some (r\<lparr>rworld := w, draining := Some (length (chan r))\<rparr>))
      else None)"
| "consume_act retry c (CDrain hub beats) r =
     (case (draining r, chan r) of
        (Some (Suc n), msg # rest) \<Rightarrow>
          Some (r\<lparr>rworld := snd (Consumer_handler retry c hub beats msg (rworld r)), chan := rest, draining := Some n\<rparr>)
      | _ \<Rightarrow> None)"
| "consume_act retry c CReturn r =
     (if draining r = Some 0 \<and> returned r = None then Some (r\<lparr>returned := Some None\<rparr>) else None)"

fun consume_acts :: "'s retrier \<Rightarrow> 's Consumer \<Rightarrow> 's consume_action list \<Rightarrow> 's running \<Rightarrow> 's running option" where
  "consume_acts retry c [] r = Some r"
| "consume_acts retry c (a # as) r =
     (case consume_act retry c a r of None \<Rightarrow> None | Some r' \<Rightarrow> consume_acts retry c as r')"

fun sent :: "'s consume_action list \<Rightarrow> 's message list" where
  "sent [] = []"
| "sent (CSend msg # as) = msg # sent as"
| "sent (_ # as) = sent as"

text \<open>The messages that a run handles, in order, each with what its handler returned.\<close>

fun handled_by :: "'s retrier \<Rightarrow> 's Consumer \<Rightarrow> 's consume_action \<Rightarrow> 's running \<Rightarrow> ('s message \<times> go_error option) list" where
  "handled_by retry c (CHandle i hub beats) r = [(busy r ! i, fst (Consumer_handler retry c hub beats (busy r ! i) (rworld r)))]"
| "handled_by retry c (CDrain hub beats) r =
     (case chan r of [] \<Rightarrow> [] | msg # rest \<Rightarrow> [(msg, fst (Consumer_handler retry c hub beats msg (rworld r)))])"
| "handled_by retry c _ r = []"

fun handled :: "'s retrier \<Rightarrow> 's Consumer \<Rightarrow> 's consume_action list \<Rightarrow> 's running \<Rightarrow> ('s message \<times> go_error option) list" where
  "handled retry c [] r = []"
| "handled retry c (a # as) r =
     handled_by retry c a r @ (case consume_act retry c a r of None \<Rightarrow> [] | Some r' \<Rightarrow> handled retry c as r')"

section \<open>Runs\<close>

lemma consume_acts_Cons:
  "consume_acts retry c (a # as) r = Some r' \<longleftrightarrow>
     (\<exists>r1. consume_act retry c a r = Some r1 \<and> consume_acts retry c as r1 = Some r')"
  by (simp split: option.split)

lemma consume_acts_invariant:
  assumes "consume_acts retry c as r = Some r'" "Q r"
    and "\<And>a r r'. a \<in> set as \<Longrightarrow> Q r \<Longrightarrow> consume_act retry c a r = Some r' \<Longrightarrow> Q r'"
  shows "Q r'"
  using assms
proof (induction as arbitrary: r)
  case (Cons a as)
  then obtain r1 where r1: "consume_act retry c a r = Some r1" "consume_acts retry c as r1 = Some r'"
    unfolding consume_acts_Cons by blast
  moreover have "Q r1" by (rule Cons.prems(3) [OF _ Cons.prems(2) r1(1)]) simp
  ultimately show ?case using Cons.IH [of r1] Cons.prems(3) by (meson list.set_intros(2))
qed simp

lemma handler_ran:
  "ran (snd (Consumer_handler retry c hub beats msg w)) =
     ran w @ (if c_handlers c (job_Task (msg_Job msg)) = None then [] else [msg_Job msg])"
  by (simp add: Consumer_handler_def Let_def split: option.split)

definition within_bounds :: "'s Consumer \<Rightarrow> 's running \<Rightarrow> bool" where
  "within_bounds c r \<longleftrightarrow>
     length (chan r) \<le> nat (Concurrency (c_opts c) * 2) \<and> idle r + length (busy r) \<le> nat (Concurrency (c_opts c))"

lemma length_remove_nth: "i < length xs \<Longrightarrow> length (remove_nth i xs) = length xs - 1"
  by (simp add: remove_nth_def)

lemma act_within_bounds: "within_bounds c r \<Longrightarrow> consume_act retry c a r = Some r' \<Longrightarrow> within_bounds c r'"
  by (cases a) (auto simp: within_bounds_def length_remove_nth split: list.splits if_splits prod.splits option.splits nat.splits)

definition weight :: "('a \<Rightarrow> 'm::comm_monoid_add) \<Rightarrow> 'a list \<Rightarrow> 'm" where
  "weight g xs = sum_mset (image_mset g (mset xs))"

lemma weight_simps [simp]:
  "weight g [] = 0" "weight g (m # xs) = g m + weight g xs" "weight g (xs @ ys) = weight g xs + weight g ys"
  by (simp_all add: weight_def)

lemma weight_remove_nth: "i < length xs \<Longrightarrow> weight g xs = g (xs ! i) + weight g (remove_nth i xs)"
  using mset_remove_nth [of i xs] by (simp add: weight_def)

text \<open>What the handling of messages adds to the world is independent of the order in which the
  workers come to it: \<open>val\<close> is what is measured and \<open>g\<close> what one message adds.\<close>

locale consumer_tally =
  fixes retry :: "'s retrier" and c :: "'s Consumer" and val :: "'s world \<Rightarrow> 'm::comm_monoid_add" and g :: "'s message \<Rightarrow> 'm"
  assumes handled: "val (snd (Consumer_handler retry c hub beats msg w)) = val w + g msg"
    and closed: "val (snd (on_drv f w)) = val w"
begin

lemma tally_act:
  assumes "consume_act retry c a r = Some r'"
  shows "val (rworld r') + weight g (busy r' @ chan r') = val (rworld r) + weight g (busy r @ chan r) + weight g (sent [a])"
proof (cases a)
  case CClose
  then show ?thesis using assms closed [of "c_close c" "rworld r"] by (auto split: if_splits prod.splits option.splits)
next
  case (CHandle i hub beats)
  then show ?thesis using assms weight_remove_nth [of i "busy r" g] by (auto simp: handled ac_simps split: if_splits)
qed (use assms in \<open>auto simp: handled ac_simps split: if_splits list.splits option.splits nat.splits\<close>)

lemma tally_acts:
  assumes "consume_acts retry c as r = Some r'"
  shows "val (rworld r') + weight g (busy r' @ chan r') = val (rworld r) + weight g (busy r @ chan r) + weight g (sent as)"
  using assms
proof (induction as arbitrary: r)
  case (Cons a as)
  then obtain r1 where r1: "consume_act retry c a r = Some r1" "consume_acts retry c as r1 = Some r'"
    unfolding consume_acts_Cons by blast
  moreover have "weight g (sent (a # as)) = weight g (sent [a]) + weight g (sent as)" by (cases a) simp_all
  ultimately show ?case unfolding Cons.IH [OF r1(2)] tally_act [OF r1(1)] by (simp only: add.assoc)
qed simp

end

definition runnable :: "'s Consumer \<Rightarrow> qjob list \<Rightarrow> qjob list" where
  "runnable c = filter (\<lambda>j. c_handlers c (job_Task j) \<noteq> None)"

lemma handled_in_order:
  "ran (fold (\<lambda>msg v. snd (Consumer_handler retry c hub beats msg v)) xs w) = ran w @ runnable c (map msg_Job xs)"
  by (induction xs arbitrary: w) (simp_all add: handler_ran runnable_def)

interpretation ran_tally: consumer_tally retry c "\<lambda>w. mset (ran w)" "\<lambda>m. mset (runnable c [msg_Job m])" for retry c
  by unfold_locales (simp_all add: handler_ran runnable_def)

interpretation processed_tally:
  consumer_tally retry c "\<lambda>w. JobsProcessed (metrics w) t" "\<lambda>m. if job_Task (msg_Job m) = t then 1 else 0" for retry c t
  by unfold_locales (simp_all add: handler_metrics observed_counts)

interpretation errors_tally:
  consumer_tally retry c "\<lambda>w. JobsErrors (metrics w) t" "\<lambda>m. error_class (\<lambda>_. True) c t [msg_Job m]" for retry c t
  by unfold_locales (simp_all add: handler_metrics observed_counts)

lemma ran_weight: "weight (\<lambda>m. mset (runnable c [msg_Job m])) xs = mset (runnable c (map msg_Job xs))"
  by (induction xs) (simp_all add: runnable_def)

lemma processed_weight: "weight (\<lambda>m. if job_Task (msg_Job m) = t then 1 else 0) xs = length (filter (\<lambda>m. job_Task (msg_Job m) = t) xs)"
  by (induction xs) simp_all

lemma errors_weight: "weight (\<lambda>m. error_class (\<lambda>_. True) c t [msg_Job m]) xs = error_class (\<lambda>_. True) c t (map msg_Job xs)"
proof (induction xs)
  case (Cons m xs)
  then show ?case using error_class_Cons [of "\<lambda>_. True" c t "msg_Job m" "map msg_Job xs"] by simp
qed (simp add: error_class_def)

lemma start_state:
  assumes "Consume_start start c w = Ret (Inr r)"
  shows "rworld r = snd (on_drv start w)" "chan r = []" "busy r = []" "within_bounds c r" "returned r = None" "draining r = None"
  using assms by (auto simp: Consume_start_def within_bounds_def split: if_splits prod.splits option.splits)

section \<open>Properties\<close>

text \<open>Property C11. Whatever the interleaving of the driver, the workers, the cancellation and the shutdown,
  no message is lost and none is handled twice: the jobs that ran, together with those that a worker
  holds or that wait in the channel, are exactly those sent whose task has a handler, and each
  counter of processed jobs is short of the messages sent by those in flight. The channel never
  holds more than twice the concurrency and at most that many workers exist.\<close>

theorem consume_accounts:
  assumes "Consume_start start c w = Ret (Inr r0)" "consume_acts retry c as r0 = Some r"
  shows "mset (ran (rworld r)) + mset (runnable c (map msg_Job (busy r @ chan r))) =
      mset (ran w) + mset (runnable c (map msg_Job (sent as))) \<and>
    JobsProcessed (metrics (rworld r)) t + length (filter (\<lambda>m. job_Task (msg_Job m) = t) (busy r @ chan r)) =
      JobsProcessed (metrics w) t + length (filter (\<lambda>m. job_Task (msg_Job m) = t) (sent as)) \<and>
    JobsErrors (metrics (rworld r)) t + error_class (\<lambda>_. True) c t (map msg_Job (busy r @ chan r)) =
      JobsErrors (metrics w) t + error_class (\<lambda>_. True) c t (map msg_Job (sent as)) \<and>
    length (chan r) \<le> nat (Concurrency (c_opts c) * 2) \<and> idle r + length (busy r) \<le> nat (Concurrency (c_opts c))"
proof -
  note s = start_state [OF assms(1)]
  have "within_bounds c r"
    by (rule consume_acts_invariant [OF assms(2), of "within_bounds c"]) (auto simp: s intro: act_within_bounds)
  then show ?thesis
    using ran_tally.tally_acts [OF assms(2)] processed_tally.tally_acts [OF assms(2), of t] errors_tally.tally_acts [OF assms(2), of t]
    by (simp only: ran_weight processed_weight errors_weight s within_bounds_def on_drv_simps) (simp add: runnable_def error_class_def)
qed

lemma drain_all:
  assumes "draining r = Some (length (chan r))" "returned r = None"
  shows "\<exists>r'. consume_acts retry c (replicate (length (chan r)) (CDrain hub beats) @ [CReturn]) r = Some r' \<and>
    rworld r' = fold (\<lambda>msg v. snd (Consumer_handler retry c hub beats msg v)) (chan r) (rworld r) \<and>
    returned r' = Some None \<and> chan r' = []"
  using assms
proof (induction "chan r" arbitrary: r)
  case Nil
  then show ?case by (simp add: Nil(1) [symmetric])
next
  case (Cons m ms)
  let ?r = "r\<lparr>rworld := snd (Consumer_handler retry c hub beats m (rworld r)), chan := ms, draining := Some (length ms)\<rparr>"
  have "consume_act retry c (CDrain hub beats) r = Some ?r" using Cons.prems by (simp add: Cons.hyps(2) [symmetric])
  then show ?case using Cons.hyps(1) [of ?r] Cons.prems by (simp add: Cons.hyps(2) [symmetric])
qed

lemma sent_none: "sent as = [] \<longleftrightarrow> (\<forall>a \<in> set as. sent [a] = [])"
proof (induction as)
  case (Cons a as)
  then show ?case by (cases a) simp_all
qed simp

lemma shutdown_returns:
  assumes "ctx_done r" "draining r = None" "returned r = None"
  shows "\<exists>as r'. consume_acts retry c (CClose # as) r = Some r' \<and> sent as = [] \<and>
    (rworld r', returned r') = (let (res, w) = Consume_shutdown retry c hub beats (chan r) (rworld r) in (w, Some res)) \<and>
    (returned r' = Some None \<longrightarrow> chan r' = [])"
proof (cases "on_drv (c_close c) (rworld r)")
  case (Pair res w)
  have sends: "sent (replicate n (CDrain hub beats) @ [CReturn]) = []" for n by (induction n) simp_all
  show ?thesis
  proof (cases res)
    case None
    let ?r = "r\<lparr>rworld := w, draining := Some (length (chan r))\<rparr>"
    have "consume_act retry c CClose r = Some ?r" using assms Pair None by simp
    then show ?thesis
      using drain_all [of ?r retry c hub beats] assms(3) sends Pair None
      by (intro exI [of _ "replicate (length (chan r)) (CDrain hub beats) @ [CReturn]"]) (auto simp: Consume_shutdown_def)
  next
    case (Some err)
    then show ?thesis using assms Pair by (intro exI [of _ "[]"]) (simp add: Consume_shutdown_def)
  qed
qed

text \<open>What holds from the closing of the driver on, when no worker is left: \<open>res\<close> and \<open>W\<close> are the
  results of the sequential function.\<close>

definition shutting_down ::
    "'s retrier \<Rightarrow> 's Consumer \<Rightarrow> bool \<Rightarrow> nat \<Rightarrow> go_error option \<Rightarrow> 's world \<Rightarrow> 's running \<Rightarrow> bool" where
  "shutting_down retry c hub beats res W r \<longleftrightarrow>
     idle r = 0 \<and> busy r = [] \<and>
     (if res = None
      then draining r = Some (length (chan r)) \<and> fold (\<lambda>msg v. snd (Consumer_handler retry c hub beats msg v)) (chan r) (rworld r) = W \<and>
        (returned r = None \<or> returned r = Some None \<and> chan r = [])
      else draining r = None \<and> returned r = Some res \<and> rworld r = W)"

lemma act_shutting_down:
  assumes "shutting_down retry c hub beats res W r" "consume_act retry c a r = Some r'" "sent [a] = []"
    and "\<And>h n. a = CDrain h n \<Longrightarrow> h = hub \<and> n = beats"
  shows "shutting_down retry c hub beats res W r'"
  using assms by (cases a) (auto simp: shutting_down_def split: if_splits list.splits option.splits nat.splits prod.splits)

text \<open>Property C12. Once the workers have returned, the machine's shutdown is the sequential function
  \<open>Consume_shutdown\<close>: it can always return, and whenever it has, the driver was closed, its error
  returned at once, and otherwise every message of the channel handled in order.\<close>

theorem shutdown_refined:
  assumes "ctx_done r" "idle r = 0" "busy r = []" "draining r = None" "returned r = None"
    and "Consume_shutdown retry c hub beats (chan r) (rworld r) = (res, W)"
  shows "(\<exists>as r'. consume_acts retry c (CClose # as) r = Some r' \<and> sent as = [] \<and> returned r' = Some res \<and> rworld r' = W) \<and>
    (\<forall>as r' res'. consume_acts retry c (CClose # as) r = Some r' \<and> sent as = [] \<and>
       (\<forall>h n. CDrain h n \<in> set as \<longrightarrow> h = hub \<and> n = beats) \<and> returned r' = Some res' \<longrightarrow>
       res' = res \<and> rworld r' = W \<and> (res = None \<longrightarrow> chan r' = []))"
proof -
  have "res' = res \<and> rworld r' = W \<and> (res = None \<longrightarrow> chan r' = [])"
    if "consume_acts retry c (CClose # as) r = Some r'" "sent as = []"
      "\<forall>h n. CDrain h n \<in> set as \<longrightarrow> h = hub \<and> n = beats" "returned r' = Some res'" for as r' res'
  proof -
    from that(1) obtain r1 where r1: "consume_act retry c CClose r = Some r1" "consume_acts retry c as r1 = Some r'"
      unfolding consume_acts_Cons by blast
    have "shutting_down retry c hub beats res W r1"
      using assms r1(1) by (auto simp: shutting_down_def Consume_shutdown_def split: prod.splits option.splits)
    then have "shutting_down retry c hub beats res W r'"
      by (rule consume_acts_invariant [OF r1(2)]) (use that(2,3) sent_none act_shutting_down in blast)
    then show ?thesis using that(4) by (auto simp: shutting_down_def split: if_splits)
  qed
  moreover obtain as r' where "consume_acts retry c (CClose # as) r = Some r'" "sent as = []" "returned r' = Some res" "rworld r' = W"
    using shutdown_returns [OF assms(1,4,5), of retry c hub beats] assms(6) by auto
  ultimately show ?thesis by blast
qed

definition never_drained :: "'s running \<Rightarrow> bool" where
  "never_drained r \<longleftrightarrow> returned r = None \<and> (\<exists>n. draining r = Some n \<and> length (chan r) < n)"

lemma act_never_drained:
  "never_drained r \<Longrightarrow> consume_act retry c a r = Some r' \<Longrightarrow> sent [a] = [] \<Longrightarrow> never_drained r'"
  by (cases a) (auto simp: never_drained_def split: list.splits if_splits prod.splits option.splits nat.splits)

text \<open>Property C37. The length of the channel is read before the loop that empties it: when a worker takes
  one of the counted messages (its \<open>select\<close> may still choose the channel after the cancellation), the
  loop waits for a message that never comes, because the driver is closed: \<open>Consume\<close> does not return,
  whatever the workers do.\<close>

theorem drain_can_hang:
  assumes "draining r = Some n" "length (chan r) < n" "returned r = None"
    and "consume_acts retry c as r = Some r'" "sent as = []"
  shows "returned r' = None"
proof -
  have "never_drained r" using assms(1-3) by (auto simp: never_drained_def)
  then have "never_drained r'"
    by (rule consume_acts_invariant [OF assms(4)]) (use assms(5) sent_none act_never_drained in blast)
  then show ?thesis by (simp add: never_drained_def)
qed

definition one_worker :: "unit Consumer" where
  "one_worker = RegisterHandler ''t'' (\<lambda>_. None)
     (NewConsumer 4 (\<lambda>s. (None, s)) None \<lparr>Concurrency = 1, AckAttempts = 0, AckBackoff = 0, HeartbeatInterval = 0\<rparr>)"

definition quiet_world :: "unit world" where
  "quiet_world = \<lparr>drv = (), metrics = no_metrics, ran = []\<rparr>"

lemma one_worker_opts: "Concurrency (c_opts one_worker) = 1" "c_close one_worker = (\<lambda>s. (None, s))"
  by (simp_all add: one_worker_def RegisterHandler_def NewConsumer_def ConsumerOpts_withDefaults_def Let_def)

definition idle_start :: "unit running" where
  "idle_start = \<lparr>rworld = quiet_world, chan = [], idle = 1, busy = [], ctx_done = False, draining = None, returned = None\<rparr>"

lemma one_worker_start: "Consume_start (\<lambda>s. (None, s)) one_worker quiet_world = Ret (Inr idle_start)"
  by (simp add: Consume_start_def one_worker_opts on_drv_def quiet_world_def idle_start_def)

text \<open>One worker: a message is taken, another one waits when the driver is closed, and the worker,
  done with the first, takes the second before the loop does.\<close>

definition racing :: "unit consume_action list" where
  "racing = [CSend (demo_message ''t''), CTake, CSend (demo_message ''t''), CCancel, CClose, CHandle 0 False 0, CTake]"

lemma drain_can_hang_witness:
  "\<exists>r. consume_acts retry_loop one_worker racing idle_start = Some r \<and> draining r = Some 1 \<and> chan r = [] \<and>
     (\<forall>as r'. sent as = [] \<and> consume_acts retry_loop one_worker as r = Some r' \<longrightarrow> returned r' = None)"
proof -
  have "\<exists>r. consume_acts retry_loop one_worker racing idle_start = Some r \<and> draining r = Some 1 \<and> chan r = [] \<and> returned r = None"
    by (simp add: racing_def idle_start_def one_worker_opts on_drv_def remove_nth_def)
  then show ?thesis using drain_can_hang [of _ 1 retry_loop one_worker] by fastforce
qed

lemma consume_accounts_witness:
  "\<exists>r. consume_acts retry_loop one_worker racing idle_start = Some r \<and>
     mset (ran (rworld r)) + {#msg_Job (demo_message ''t'')#} = {#msg_Job (demo_message ''t''), msg_Job (demo_message ''t'')#}"
proof -
  obtain r where r: "consume_acts retry_loop one_worker racing idle_start = Some r" "busy r = [demo_message ''t'']" "chan r = []"
    by (simp add: racing_def idle_start_def one_worker_opts on_drv_def remove_nth_def)
  have "runnable one_worker [msg_Job (demo_message ''t'')] = [msg_Job (demo_message ''t'')]"
    by (simp add: runnable_def one_worker_def RegisterHandler_def demo_message_def NewJob_def)
  then show ?thesis using conjunct1 [OF consume_accounts [OF one_worker_start r(1)]] r
    by (simp add: runnable_def racing_def quiet_world_def split: if_splits)
qed

lemma shutdown_refined_witness:
  "\<exists>as r'. consume_acts retry_loop one_worker (CClose # as) (idle_start\<lparr>chan := [demo_message ''t''], idle := 0, ctx_done := True\<rparr>) = Some r' \<and>
     ran (rworld r') = [msg_Job (demo_message ''t'')] \<and> returned r' = Some None"
proof -
  have "Consume_shutdown retry_loop one_worker False 0 [demo_message ''t''] quiet_world =
      (None, snd (Consumer_handler retry_loop one_worker False 0 (demo_message ''t'') quiet_world))"
    by (simp add: Consume_shutdown_def one_worker_opts on_drv_def quiet_world_def)
  moreover have "ran (snd (Consumer_handler retry_loop one_worker False 0 (demo_message ''t'') quiet_world)) = [msg_Job (demo_message ''t'')]"
    by (simp add: handler_ran quiet_world_def one_worker_def RegisterHandler_def demo_message_def NewJob_def)
  ultimately show ?thesis
    using conjunct1 [OF shutdown_refined [of "idle_start\<lparr>chan := [demo_message ''t''], idle := 0, ctx_done := True\<rparr>" retry_loop one_worker False 0]]
    by (force simp: idle_start_def)
qed

end
