(* ===== verification/Queue_Producer.thy ===== *)
theory Queue_Producer
  imports Queue_Core
begin

text \<open>
  The producer of \<open>queue/\<close> with its observer (\<open>producer.go\<close>, \<open>producer_observer.go\<close>). A driver's
  \<open>Push\<close> takes the job and returns an error; the observer is a value that \<open>Push\<close> returns changed.
\<close>

section \<open>The observer\<close>

datatype push_line = JobPushed queue_name task_name "job_option list" | JobPushFailed queue_name task_name go_error

text \<open>The two counters by queue and task, whether they are registered, and the lines of the logger,
  \<open>None\<close> without one.\<close>

record ProducerObserver =
  JobsPushed :: "queue_name \<times> task_name \<Rightarrow> nat"
  JobsPushedErrors :: "queue_name \<times> task_name \<Rightarrow> nat"
  po_registered :: bool
  po_logger :: "push_line list option"

definition NewProducerObserver :: "bool \<Rightarrow> push_line list option \<Rightarrow> ProducerObserver" where
  "NewProducerObserver reg logger =
     \<lparr>JobsPushed = (\<lambda>_. 0), JobsPushedErrors = (\<lambda>_. 0), po_registered = reg, po_logger = logger\<rparr>"

definition observerJobPushed :: "task_name \<Rightarrow> job_option list \<Rightarrow> ProducerObserver \<Rightarrow> ProducerObserver" where
  "observerJobPushed task opts o' =
     o'\<lparr>po_logger := map_option (\<lambda>ls. ls @ [JobPushed (QueueFromOptions opts) task opts]) (po_logger o')\<rparr>"

definition observerJobPushedError :: "task_name \<Rightarrow> job_option list \<Rightarrow> go_error \<Rightarrow> ProducerObserver \<Rightarrow> ProducerObserver" where
  "observerJobPushedError task opts err o' =
     o'\<lparr>po_logger := map_option (\<lambda>ls. ls @ [JobPushFailed (QueueFromOptions opts) task err]) (po_logger o')\<rparr>"

section \<open>The producer\<close>

record 's Producer =
  p_Push :: "qjob \<Rightarrow> 's effect"
  p_Close :: "'s effect"
  p_obs :: ProducerObserver

definition NewProducer :: "(qjob \<Rightarrow> 's effect) \<Rightarrow> 's effect \<Rightarrow> ProducerObserver option \<Rightarrow> 's Producer" where
  "NewProducer push close observer =
     \<lparr>p_Push = push, p_Close = close,
      p_obs = (case observer of None \<Rightarrow> NewProducerObserver False None | Some o' \<Rightarrow> o')\<rparr>"

text \<open>What the producer hands to its driver.\<close>

definition Producer_Push :: "(qjob \<Rightarrow> 's effect) \<Rightarrow> qjob \<Rightarrow> 's effect" where
  "Producer_Push push job = push (job\<lparr>Options := Options job @ [withID (job_ID job)]\<rparr>)"

definition Push :: "qjob \<Rightarrow> 's Producer \<Rightarrow> 's \<Rightarrow> go_error option \<times> 's Producer \<times> 's" where
  "Push job p s =
     (let opts = Options job @ [withID (job_ID job)]
      in case Producer_Push (p_Push p) job s of
           (Some err, s') \<Rightarrow> (Some err, p\<lparr>p_obs := observerJobPushedError (job_Task job) opts err (p_obs p)\<rparr>, s')
         | (None, s') \<Rightarrow> (None, p\<lparr>p_obs := observerJobPushed (job_Task job) opts (p_obs p)\<rparr>, s'))"

definition Producer_Close :: "'s Producer \<Rightarrow> 's effect" where
  "Producer_Close p = p_Close p"

section \<open>What is observed\<close>

fun push_all :: "qjob list \<Rightarrow> 's Producer \<Rightarrow> 's \<Rightarrow> go_error option list \<times> 's Producer \<times> 's" where
  "push_all [] p s = ([], p, s)"
| "push_all (job # jobs) p s =
     (case Push job p s of (r, p1, s1) \<Rightarrow> (case push_all jobs p1 s1 of (rs, p2, s2) \<Rightarrow> (r # rs, p2, s2)))"

definition line_of :: "qjob \<Rightarrow> go_error option \<Rightarrow> push_line" where
  "line_of job r =
     (case r of
        None \<Rightarrow> JobPushed (QueueFromOptions (Options job)) (job_Task job) (Options job @ [withID (job_ID job)])
      | Some err \<Rightarrow> JobPushFailed (QueueFromOptions (Options job)) (job_Task job) err)"

lemma QueueFromOptions_withID [simp]: "QueueFromOptions (opts @ [withID i]) = QueueFromOptions opts"
  by (induction opts) (auto simp: withID_def)

lemma push_observed:
  "Push job p s = (r, p', s') \<Longrightarrow>
     (r, s') = Producer_Push (p_Push p) job s \<and> p_Push p' = p_Push p \<and> p_Close p' = p_Close p \<and>
     JobsPushed (p_obs p') = JobsPushed (p_obs p) \<and> JobsPushedErrors (p_obs p') = JobsPushedErrors (p_obs p) \<and>
     po_logger (p_obs p') = map_option (\<lambda>ls. ls @ [line_of job r]) (po_logger (p_obs p))"
  by (auto simp: Push_def Let_def observerJobPushed_def observerJobPushedError_def line_of_def split: prod.splits option.splits)

text \<open>Every push returns what the driver returned and is logged once, in order, with the queue the
  drivers use; and however many jobs are pushed, the counters that the observer registers stay at
  zero.\<close>

theorem pushes_logged_not_counted:
  assumes "push_all jobs (NewProducer push close (Some (NewProducerObserver reg (Some [])))) s = (rs, p, s')"
  shows "length rs = length jobs \<and> po_logger (p_obs p) = Some (map2 line_of jobs rs) \<and>
    (\<forall>q. JobsPushed (p_obs p) q = 0 \<and> JobsPushedErrors (p_obs p) q = 0)"
proof -
  have "push_all jobs p0 s = (rs, p, s') \<Longrightarrow> po_logger (p_obs p0) = Some ls \<Longrightarrow>
      length rs = length jobs \<and> po_logger (p_obs p) = Some (ls @ map2 line_of jobs rs) \<and>
      JobsPushed (p_obs p) = JobsPushed (p_obs p0) \<and> JobsPushedErrors (p_obs p) = JobsPushedErrors (p_obs p0)" for p0 ls
  proof (induction jobs arbitrary: p0 s rs ls)
    case (Cons job jobs)
    then obtain r p1 s1 rs1 where st: "Push job p0 s = (r, p1, s1)" "push_all jobs p1 s1 = (rs1, p, s')" "rs = r # rs1"
      by (auto split: prod.splits)
    show ?case using push_observed [OF st(1)] Cons.IH [OF st(2)] Cons.prems(2) st(3) by simp
  qed simp
  from this [OF assms] show ?thesis by (simp add: NewProducer_def NewProducerObserver_def)
qed

lemma pushes_logged_not_counted_witness:
  "\<exists>rs p s'. push_all [NewJob 0 ''7'' ''t'' [] []] (NewProducer (\<lambda>j s. (None, s @ [j])) (\<lambda>s. (None, s))
       (Some (NewProducerObserver True (Some [])))) [] = (rs, p, s') \<and> length rs = 1 \<and> JobsPushed (p_obs p) (''default'', ''t'') = 0"
proof -
  obtain rs p s' where p: "push_all [NewJob 0 ''7'' ''t'' [] []] (NewProducer (\<lambda>j s. (None, s @ [j])) (\<lambda>s. (None, s))
       (Some (NewProducerObserver True (Some [])))) [] = (rs, p, s')" by (metis prod_cases3)
  from pushes_logged_not_counted [OF this] p show ?thesis by auto
qed

end
