(* ===== verification/Consumer_Settling.thy ===== *)
theory Consumer_Settling
  imports Consumer_Machine
begin

text \<open>
  The running consumer over a driver: what becomes of the messages that were sent into the channel,
  by their numbers. The locale \<open>message_family\<close> is the contract of a driver for many messages, each
  with its own log of settlements; the drivers interpret it.
\<close>

section \<open>The contract of a driver for many messages\<close>

locale message_family =
  fixes msgs :: "'i \<Rightarrow> 's message" and log :: "'i \<Rightarrow> 's \<Rightarrow> settlement list"
  assumes driver: "message_driver (msgs n) (log n)"
    and ack_frame: "n \<noteq> n' \<Longrightarrow> log n' (snd (msg_Ack (msgs n) s)) = log n' s"
    and cancel_frame: "n \<noteq> n' \<Longrightarrow> log n' (snd (msg_Cancel (msgs n) s)) = log n' s"
    and nack_frame: "n \<noteq> n' \<Longrightarrow> log n' (snd (msg_Nack (msgs n) s)) = log n' s"
    and deadletter_frame: "n \<noteq> n' \<Longrightarrow> log n' (snd (msg_Deadletter (msgs n) s)) = log n' s"
    and progress_frame: "n \<noteq> n' \<Longrightarrow> msg_InProgress (msgs n) = Some pr \<Longrightarrow> log n' (snd (pr s)) = log n' s"
begin

lemma retry_frame:
  assumes "retry_laws retry" "n \<noteq> n'"
  shows "log n' (snd (retry (msg_Ack (msgs n)) 3 d s)) = log n' s"
  using retry_3 [OF assms(1), where P = "\<lambda>x. log n' x = log n' s" and Q = "\<lambda>x. log n' x = log n' s" and f = "msg_Ack (msgs n)"
      and s = s and d = d] ack_frame [OF assms(2)]
  by (simp split: if_splits)

lemma heartbeat_frame:
  assumes "n \<noteq> n'" "msg_InProgress (msgs n) = Some pr"
  shows "log n' (heartbeat k pr s) = log n' s"
  by (induction k arbitrary: s) (simp_all add: progress_frame [OF assms])

text \<open>Handling one message settles it at most once and leaves the others alone.\<close>

lemma handler_frame:
  assumes "retry_laws retry" "n \<noteq> n'"
  shows "log n' (drv (snd (Consumer_handler retry c hub beats (msgs n) w))) = log n' (drv w)"
  using assms(2)
  by (simp add: Consumer_handler_def Let_def retry_frame [OF assms] heartbeat_frame cancel_frame nack_frame deadletter_frame
      split: option.split)

text \<open>What a list of handled messages, each with the error returned and how often its settlement was
  recorded, adds to a log.\<close>

definition settlements :: "'s Consumer \<Rightarrow> ('i \<times> go_error option \<times> nat) list \<Rightarrow> 'i \<Rightarrow> settlement list" where
  "settlements c hs n =
     concat (map (\<lambda>(n', e, j). if n' = n then replicate j (verdict c (msg_Job (msgs n))) else []) hs)"

lemma settlements_simps [simp]:
  "settlements c [] n = []" "settlements c (hs @ hs') n = settlements c hs n @ settlements c hs' n"
  by (simp_all add: settlements_def)

lemma handler_log:
  assumes "retry_laws retry"
  obtains j where "settled_by (msgs n) (verdict c (msg_Job (msgs n))) (fst (Consumer_handler retry c hub beats (msgs n) w)) j"
    and "\<And>n'. log n' (drv (snd (Consumer_handler retry c hub beats (msgs n) w))) =
      log n' (drv w) @ settlements c [(n, fst (Consumer_handler retry c hub beats (msgs n) w), j)] n'"
proof -
  obtain j where j: "log n (drv (snd (Consumer_handler retry c hub beats (msgs n) w))) = log n (drv w) @ replicate j (verdict c (msg_Job (msgs n)))"
    "settled_by (msgs n) (verdict c (msg_Job (msgs n))) (fst (Consumer_handler retry c hub beats (msgs n) w)) j"
    using message_driver.handler_settles [OF driver assms, of n c hub beats w] by blast
  have "log n' (drv (snd (Consumer_handler retry c hub beats (msgs n) w))) =
      log n' (drv w) @ settlements c [(n, fst (Consumer_handler retry c hub beats (msgs n) w), j)] n'" for n'
    using j(1) handler_frame [OF assms, of n n' c hub beats w] by (cases "n = n'") (simp_all add: settlements_def)
  then show ?thesis by (rule that [OF j(2)])
qed

text \<open>The messages in the channel and with the workers, by number, and those handled.\<close>

definition flow :: "'s Consumer \<Rightarrow> 's world \<Rightarrow> ('i \<times> go_error option \<times> nat) list \<Rightarrow> 'i list \<Rightarrow> 'i list \<Rightarrow> 's running \<Rightarrow> bool" where
  "flow c w hs bs cs r \<longleftrightarrow> busy r = map msgs bs \<and> chan r = map msgs cs \<and>
     (\<forall>n. log n (drv (rworld r)) = log n (drv w) @ settlements c hs n) \<and>
     (\<forall>(n, e, j) \<in> set hs. settled_by (msgs n) (verdict c (msg_Job (msgs n))) e j)"

definition results :: "('i \<times> go_error option \<times> nat) list \<Rightarrow> ('s message \<times> go_error option) list" where
  "results hs = map (\<lambda>(n, e, j). (msgs n, e)) hs"

lemma results_simps [simp]:
  "results [] = []" "results ((n, e, j) # hs) = (msgs n, e) # results hs" "results (hs @ hs') = results hs @ results hs'"
  by (simp_all add: results_def)

lemma flow_act:
  assumes "retry_laws retry" "\<And>n s. log n (snd (c_close c s)) = log n s" "flow c w hs bs cs r"
    and "consume_act retry c a r = Some r'" "sent [a] = map msgs ns"
  obtains new bs' cs' where "flow c w (hs @ new) bs' cs' r'" and "handled_by retry c a r = results new"
    and "mset (map fst new) + mset bs' + mset cs' = mset bs + mset cs + mset ns"
proof (cases a)
  case (CSend msg)
  then obtain n where "ns = [n]" "msg = msgs n" using assms(5) by (cases ns) auto
  then show ?thesis using assms(3,4) CSend by (intro that [of "[]" bs "cs @ [n]"]) (auto simp: flow_def split: if_splits)
next
  case CTake
  then obtain n cs1 where "cs = n # cs1" using assms(3,4) by (cases cs) (auto simp: flow_def)
  then show ?thesis using assms(3,4,5) CTake by (intro that [of "[]" "bs @ [n]" cs1]) (auto simp: flow_def split: if_splits)
next
  case (CHandle i hub beats)
  have i: "i < length bs" using assms(3,4) CHandle by (auto simp: flow_def split: if_splits)
  let ?e = "fst (Consumer_handler retry c hub beats (msgs (bs ! i)) (rworld r))"
  obtain j where j: "settled_by (msgs (bs ! i)) (verdict c (msg_Job (msgs (bs ! i)))) ?e j"
    "\<And>n'. log n' (drv (snd (Consumer_handler retry c hub beats (msgs (bs ! i)) (rworld r)))) =
      log n' (drv (rworld r)) @ settlements c [(bs ! i, ?e, j)] n'"
    by (rule handler_log [OF assms(1)]) (rule that)
  have "flow c w (hs @ [(bs ! i, ?e, j)]) (remove_nth i bs) cs r'"
    using assms(3,4) CHandle i j by (auto simp: flow_def map_remove_nth split: if_splits)
  then show ?thesis using i assms(3,5) CHandle mset_remove_nth [OF i]
    by (intro that [of "[(bs ! i, ?e, j)]" "remove_nth i bs" cs]) (auto simp: flow_def)
next
  case (CDrain hub beats)
  then obtain n cs1 where cs: "cs = n # cs1" using assms(3,4) by (cases cs) (auto simp: flow_def split: option.splits nat.splits)
  let ?e = "fst (Consumer_handler retry c hub beats (msgs n) (rworld r))"
  obtain j where j: "settled_by (msgs n) (verdict c (msg_Job (msgs n))) ?e j"
    "\<And>n'. log n' (drv (snd (Consumer_handler retry c hub beats (msgs n) (rworld r)))) =
      log n' (drv (rworld r)) @ settlements c [(n, ?e, j)] n'"
    by (rule handler_log [OF assms(1)]) (rule that)
  have "flow c w (hs @ [(n, ?e, j)]) bs cs1 r'"
    using assms(3,4) CDrain cs j by (auto simp: flow_def split: option.splits nat.splits)
  then show ?thesis using assms(3,5) CDrain cs by (intro that [of "[(n, ?e, j)]" bs cs1]) (auto simp: flow_def)
next
  case CClose
  obtain res w1 where cl: "on_drv (c_close c) (rworld r) = (res, w1)" by fastforce
  then have "log n (drv w1) = log n (drv (rworld r))" for n
    using assms(2) [of n "drv (rworld r)"] on_drv_simps(2) [of "c_close c" "rworld r"] by simp
  then show ?thesis using assms(3,4,5) CClose cl
    by (intro that [of "[]" bs cs]) (auto simp: flow_def split: if_splits option.splits)
qed (use assms(3,4,5) in \<open>auto intro: that [of "[]" bs cs] simp: flow_def split: if_splits\<close>)

text \<open>The same for a run that sends numbered messages.\<close>

lemma flow_acts:
  assumes "retry_laws retry" "\<And>n s. log n (snd (c_close c s)) = log n s"
  shows "flow c w hs bs cs r \<Longrightarrow> consume_acts retry c as r = Some r' \<Longrightarrow> sent as = map msgs ns \<Longrightarrow>
    \<exists>new bs' cs'. flow c w (hs @ new) bs' cs' r' \<and> handled retry c as r = results new \<and>
      mset (map fst new) + mset bs' + mset cs' = mset bs + mset cs + mset ns"
proof (induction as arbitrary: r hs bs cs ns)
  case Nil
  then show ?case by (intro exI [of _ "[]"] exI [of _ bs] exI [of _ cs]) auto
next
  case (Cons a as)
  obtain r1 where r1: "consume_act retry c a r = Some r1" "consume_acts retry c as r1 = Some r'"
    using Cons.prems(2) unfolding consume_acts_Cons by blast
  have "sent (a # as) = sent [a] @ sent as" by (cases a) simp_all
  then obtain ns1 ns2 where ns: "ns = ns1 @ ns2" "sent [a] = map msgs ns1" "sent as = map msgs ns2"
    using Cons.prems(3) by (metis append_eq_map_conv)
  obtain new1 bs1 cs1 where s1: "flow c w (hs @ new1) bs1 cs1 r1" "handled_by retry c a r = results new1"
    "mset (map fst new1) + mset bs1 + mset cs1 = mset bs + mset cs + mset ns1"
    by (rule flow_act [OF assms Cons.prems(1) r1(1) ns(2)])
  obtain new2 bs2 cs2 where s2: "flow c w ((hs @ new1) @ new2) bs2 cs2 r'" "handled retry c as r1 = results new2"
    "mset (map fst new2) + mset bs2 + mset cs2 = mset bs1 + mset cs1 + mset ns2"
    using Cons.IH [OF s1(1) r1(2) ns(3)] by blast
  have "mset (map fst (new1 @ new2)) + mset bs2 + mset cs2 = mset bs + mset cs + mset ns"
  proof -
    have "mset (map fst (new1 @ new2)) + mset bs2 + mset cs2 = mset (map fst new1) + (mset (map fst new2) + mset bs2 + mset cs2)"
      by (simp add: ac_simps)
    also have "\<dots> = mset (map fst new1) + mset bs1 + mset cs1 + mset ns2" unfolding s2(3) by (simp add: ac_simps)
    finally show ?thesis unfolding s1(3) ns(1) by (simp add: ac_simps)
  qed
  then show ?case using s1(2) s2(1,2) r1(1)
    by (intro exI [of _ "new1 @ new2"] exI [of _ bs2] exI [of _ cs2]) simp
qed

lemma settlements_none: "n \<notin> fst ` set hs \<Longrightarrow> settlements c hs n = []"
  by (induction hs) (auto simp: settlements_def)

lemma settlements_one:
  assumes "distinct (map fst hs)" "(n, e, j) \<in> set hs"
  shows "settlements c hs n = replicate j (verdict c (msg_Job (msgs n)))"
proof -
  obtain xs ys where hs: "hs = xs @ (n, e, j) # ys" using assms(2) by (meson split_list)
  then have "n \<notin> fst ` set xs" "n \<notin> fst ` set ys" using assms(1) by auto
  then have "settlements c xs n = []" "settlements c ys n = []" using settlements_none by blast+
  moreover have "hs = xs @ [(n, e, j)] @ ys" using hs by simp
  moreover have "settlements c [(n, e, j)] n = replicate j (verdict c (msg_Job (msgs n)))" by (simp add: settlements_def)
  ultimately show ?thesis by (simp only: settlements_simps append_Nil append_Nil2)
qed

text \<open>Distinct messages: each is in the channel, with a worker, or was handled once, and only then, and
  as its job deserves, it is settled.\<close>

lemma settled_once:
  assumes "retry_laws retry" "\<And>n s. log n (snd (c_close c s)) = log n s"
    and "chan r0 = []" "busy r0 = []" "consume_acts retry c as r0 = Some r" "sent as = map msgs ns" "distinct ns"
  shows "\<exists>hs bs cs. handled retry c as r0 = map (\<lambda>(n, e). (msgs n, e)) hs \<and> busy r = map msgs bs \<and> chan r = map msgs cs \<and>
    mset (map fst hs @ bs @ cs) = mset ns \<and>
    (\<forall>n \<in> set (bs @ cs). log n (drv (rworld r)) = log n (drv (rworld r0))) \<and>
    (\<forall>(n, e) \<in> set hs. \<exists>j. log n (drv (rworld r)) = log n (drv (rworld r0)) @ replicate j (verdict c (msg_Job (msgs n))) \<and>
       settled_by (msgs n) (verdict c (msg_Job (msgs n))) e j)"
proof -
  have "flow c (rworld r0) [] [] [] r0" using assms(3,4) by (simp add: flow_def)
  from flow_acts [OF assms(1,2) this assms(5,6)] obtain hs bs cs where
    f: "flow c (rworld r0) hs bs cs r" "handled retry c as r0 = results hs" "mset (map fst hs) + mset bs + mset cs = mset ns" by auto
  have m: "mset (map fst hs @ bs @ cs) = mset ns" using f(3) by (simp only: mset_append add.assoc)
  have "distinct (map fst hs @ bs @ cs) = distinct ns" by (rule mset_eq_imp_distinct_iff [OF m])
  then have d: "distinct (map fst hs)" "\<And>n. n \<in> set (bs @ cs) \<Longrightarrow> n \<notin> fst ` set hs" using assms(7) by auto
  let ?hs = "map (\<lambda>(n, e, j). (n, e)) hs"
  have h: "handled retry c as r0 = map (\<lambda>(n, e). (msgs n, e)) ?hs" "map fst ?hs = map fst hs"
    using f(2) by (auto simp: results_def)
  have "log n (drv (rworld r)) = log n (drv (rworld r0))" if "n \<in> set (bs @ cs)" for n
    using f(1) settlements_none [OF d(2) [OF that]] by (simp add: flow_def)
  moreover have "\<exists>j. log n (drv (rworld r)) = log n (drv (rworld r0)) @ replicate j (verdict c (msg_Job (msgs n))) \<and>
      settled_by (msgs n) (verdict c (msg_Job (msgs n))) e j" if "(n, e) \<in> set ?hs" for n e
  proof -
    obtain j where j: "(n, e, j) \<in> set hs" using \<open>(n, e) \<in> set ?hs\<close> by auto
    then show ?thesis using f(1) settlements_one [OF d(1) j] by (auto simp: flow_def)
  qed
  moreover have "busy r = map msgs bs" "chan r = map msgs cs" using f(1) by (simp_all add: flow_def)
  ultimately show ?thesis using h(1) m unfolding h(2) [symmetric]
    by (intro exI [of _ ?hs] exI [of _ bs] exI [of _ cs]) blast
qed

end

end
