(* ===== verification/Queue_Asynq.thy ===== *)
theory Queue_Asynq
  imports Queue_Producer Consumer_Settling
begin

text \<open>
  \<open>queue/asynq/\<close>: the Redis driver. A task that asynq hands to the server waits on a channel of
  capacity one for the error that settles it; the channels are the driver's state, by address. The
  asynq client and server are parameters.
\<close>

section \<open>Messages\<close>

type_synonym task_chans = "nat \<Rightarrow> go_error option list"

definition send_out :: "nat \<Rightarrow> go_error option \<Rightarrow> task_chans effect" where
  "send_out a err s = (None, s(a := s a @ [err]))"

definition asynq_Ack :: "nat \<Rightarrow> task_chans effect" where
  "asynq_Ack a = send_out a None"

definition asynq_Cancel :: "nat \<Rightarrow> task_chans effect" where
  "asynq_Cancel a = send_out a (Some (ESentinel AsynqRevokeTask))"

definition asynq_Deadletter :: "nat \<Rightarrow> task_chans effect" where
  "asynq_Deadletter a = send_out a (Some (ESentinel AsynqSkipRetry))"

definition asynq_Nack :: "nat \<Rightarrow> task_chans effect" where
  "asynq_Nack a = send_out a (Some (EOther ''task nacked''))"

definition asynq_newMessage :: "qjob \<Rightarrow> nat \<Rightarrow> task_chans message" where
  "asynq_newMessage job a =
     \<lparr>msg_Job = job, msg_Ack = asynq_Ack a, msg_Cancel = asynq_Cancel a, msg_Nack = asynq_Nack a,
      msg_Deadletter = asynq_Deadletter a, msg_InProgress = None\<rparr>"

section \<open>The consumer\<close>

text \<open>The options of the Redis client, with whether it is instrumented.\<close>

record RedisOpts =
  r_Addr :: string
  r_Password :: string
  r_DB :: int
  OtelEnabled :: bool

definition RedisOpts_Client :: "RedisOpts \<Rightarrow> (string \<times> string \<times> int) \<times> bool" where
  "RedisOpts_Client r = ((r_Addr r, r_Password r, r_DB r), OtelEnabled r)"

record asynq_config =
  cfg_Concurrency :: int
  cfg_Queues :: "(queue_name \<times> nat) list"

text \<open>The queues are a Go map: a repeated name has one entry.\<close>

definition asynq_queues :: "queue_name list \<Rightarrow> (queue_name \<times> nat) list" where
  "asynq_queues qs = foldl (\<lambda>m q. if map_of m q = None then m @ [(q, 9)] else m) [] qs"

definition asynq_NewConsumer :: "int \<Rightarrow> go_error option \<Rightarrow> queue_name list \<Rightarrow> int \<Rightarrow> go_error + asynq_config" where
  "asynq_NewConsumer numCPU ping qs concurrency =
     (case ping of
        Some err \<Rightarrow> Inl err
      | None \<Rightarrow> Inr \<lparr>cfg_Concurrency = (if concurrency = 0 then numCPU else concurrency), cfg_Queues = asynq_queues qs\<rparr>)"

text \<open>The function given to the server, with the message handled by the consumer of \<open>queue\<close>: the
  result is \<open>None\<close> while nothing was sent on the channel.\<close>

definition asynq_process ::
    "('p \<Rightarrow> go_error + qjob) \<Rightarrow> task_chans retrier \<Rightarrow> task_chans Consumer \<Rightarrow> bool \<Rightarrow> nat \<Rightarrow> nat \<Rightarrow> 'p \<Rightarrow>
     task_chans world \<Rightarrow> go_error option option \<times> task_chans world" where
  "asynq_process unmarshal retry c hub beats a payload w =
     (case unmarshal payload of
        Inl err \<Rightarrow> (Some (Some (wrapf ''unmarshal job'' err)), w)
      | Inr job \<Rightarrow>
          let w1 = w\<lparr>drv := (drv w)(a := [])\<rparr>;
              w2 = snd (Consumer_handler retry c hub beats (asynq_newMessage job a) w1)
          in (case drv w2 a of [] \<Rightarrow> None | err # rest \<Rightarrow> Some err, w2))"

text \<open>\<open>Consume\<close> returns what the server's start returns, and \<open>Close\<close> shuts it down without an error.\<close>

definition asynq_Consume :: "'s effect \<Rightarrow> 's effect" where
  "asynq_Consume server_start = server_start"

definition asynq_Close :: "('s \<Rightarrow> 's) \<Rightarrow> 's effect" where
  "asynq_Close shutdown s = (None, shutdown s)"

section \<open>The producer\<close>

datatype asynq_option = ProcessAt int | ProcessIn i64 | TaskID string | MaxRetry int

fun asynqOptsFromQueueOpts :: "job_option list \<Rightarrow> asynq_option list" where
  "asynqOptsFromQueueOpts [] = []"
| "asynqOptsFromQueueOpts (opt # opts) =
     (case opt of
        atOption t \<Rightarrow> [ProcessAt t]
      | afterOption d \<Rightarrow> [ProcessIn d]
      | iDOption i \<Rightarrow> [TaskID i]
      | maxTriesOpt m \<Rightarrow> [MaxRetry m]
      | onQueue q \<Rightarrow> []) @ asynqOptsFromQueueOpts opts"

record 'p asynq_task =
  task_Type :: string
  task_Payload :: 'p
  task_Opts :: "asynq_option list"

definition asynq_Push ::
    "(qjob \<Rightarrow> go_error + 'p) \<Rightarrow> ('p asynq_task \<Rightarrow> queue_name \<Rightarrow> 's effect) \<Rightarrow> qjob \<Rightarrow> 's effect" where
  "asynq_Push marshal enqueue job s =
     (case marshal job of
        Inl err \<Rightarrow> (Some (wrapf ''marshal job'' err), s)
      | Inr by \<Rightarrow> enqueue \<lparr>task_Type = job_Task job, task_Payload = by, task_Opts = asynqOptsFromQueueOpts (Options job)\<rparr>
          (QueueFromOptions (Options job)) s)"

definition asynq_NewProducer :: "RedisOpts \<Rightarrow> go_error option \<Rightarrow> go_error + (string \<times> string \<times> int) \<times> bool" where
  "asynq_NewProducer opts ping = (case ping of Some err \<Rightarrow> Inl err | None \<Rightarrow> Inr (RedisOpts_Client opts))"

definition asynq_producer_Close :: "'s effect \<Rightarrow> 's effect" where
  "asynq_producer_Close client_close = client_close"

section \<open>The logger\<close>

datatype log_level = LDebug | LInfo | LWarn | LError

datatype asynq_level = AInfo | ADebug | AError | AFatal | AWarn

fun slog_level :: "asynq_level \<Rightarrow> log_level" where
  "slog_level AInfo = LInfo"
| "slog_level ADebug = LDebug"
| "slog_level AError = LError"
| "slog_level AFatal = LError"
| "slog_level AWarn = LWarn"

text \<open>A record is the level, the first argument as text and the rest; a nil logger drops it.\<close>

definition asynq_log ::
    "('a \<Rightarrow> string) \<Rightarrow> asynq_level \<Rightarrow> 'a list \<Rightarrow> (log_level \<times> string \<times> 'a list) list option \<Rightarrow>
     (log_level \<times> string \<times> 'a list) list option" where
  "asynq_log show_v lvl args log =
     (case (args, log) of
        (a # rest, Some l) \<Rightarrow> Some (l @ [(slog_level lvl, show_v a, rest)])
      | _ \<Rightarrow> log)"

section \<open>The driver keeps the contract\<close>

definition settlement_of :: "go_error option \<Rightarrow> settlement" where
  "settlement_of r =
     (case r of None \<Rightarrow> Acked
      | Some e \<Rightarrow> if errors_Is e AsynqRevokeTask then Cancelled
                  else if errors_Is e AsynqSkipRetry then Deadlettered else Nacked)"

lemmas asynq_ops = asynq_newMessage_def asynq_Ack_def asynq_Cancel_def asynq_Nack_def asynq_Deadletter_def send_out_def

interpretation asynq: message_driver "asynq_newMessage job a" "\<lambda>s. map settlement_of (s a)" for job a
  by unfold_locales (simp_all add: asynq_ops settlement_of_def may_record_def)

lemma asynq_never_fails:
  assumes "retry_laws retry"
  shows "fst (Consumer_handler retry c hub beats (asynq_newMessage job a) w) = None"
proof -
  have "retry f 3 d s = (None, snd (f s))" if "fst (f s) = None" for f d and s :: task_chans
    using assms [unfolded retry_laws_def, rule_format, of f s 2 d] that by (simp add: numeral_3_eq_3 numeral_2_eq_2)
  then show ?thesis by (simp add: Consumer_handler_def asynq_ops Let_def split: option.split)
qed

interpretation asynq_family: message_family "\<lambda>a. asynq_newMessage (job a) a" "\<lambda>a s. map settlement_of (s a)" for job
  by (intro message_family.intro asynq.message_driver_axioms) (simp_all add: asynq_ops)

text \<open>A task's channel gets exactly one error per handling, as no send fails.\<close>

lemma asynq_settled:
  assumes "settled_by (asynq_newMessage job a) v e j" "e = None"
  shows "j = 1"
  using assms by (auto simp: settled_by_def asynq_ops)

section \<open>Properties\<close>

text \<open>Property C15. What asynq is told of a task: an undecodable payload is an error that it retries;
  otherwise exactly one error reaches the task's channel, so that it never blocks, and it is what
  the job deserves: \<open>nil\<close> after success, \<open>RevokeTask\<close> for \<open>ErrSkipRetry\<close>, \<open>SkipRetry\<close> for
  \<open>ErrDeadLetter\<close> and for a task without handler, an error that is retried in all other cases.\<close>

theorem asynq_task_settled:
  assumes "retry_laws retry"
  shows "case unmarshal payload of
      Inl err \<Rightarrow> asynq_process unmarshal retry c hub beats a payload w = (Some (Some (wrapf ''unmarshal job'' err)), w)
    | Inr job \<Rightarrow> (\<exists>r w'. asynq_process unmarshal retry c hub beats a payload w = (Some r, w') \<and>
        settlement_of r = verdict c job \<and> length (drv w' a) = 1)"
proof (cases "unmarshal payload")
  case (Inr job)
  let ?w2 = "snd (Consumer_handler retry c hub beats (asynq_newMessage job a) (w\<lparr>drv := (drv w)(a := [])\<rparr>))"
  obtain j where j: "map settlement_of (drv ?w2 a) = replicate j (verdict c job)"
    "settled_by (asynq_newMessage job a) (verdict c job) (fst (Consumer_handler retry c hub beats (asynq_newMessage job a)
       (w\<lparr>drv := (drv w)(a := [])\<rparr>))) j"
    using asynq.handler_settles [OF assms, where a = a and c = c and hub = hub and beats = beats and job = job
        and w = "w\<lparr>drv := (drv w)(a := [])\<rparr>"]
    by (auto simp: asynq_newMessage_def)
  have "map settlement_of (drv ?w2 a) = [verdict c job]"
    unfolding j(1) asynq_settled [OF j(2) asynq_never_fails [OF assms]] by simp
  then obtain r where "drv ?w2 a = [r]" "settlement_of r = verdict c job" by auto
  then show ?thesis using Inr by (simp add: asynq_process_def Let_def)
qed (simp add: asynq_process_def)

definition asynq_demo :: "task_chans Consumer" where
  "asynq_demo = RegisterHandler ''t'' (\<lambda>p. if p = [] then None else Some (ESentinel ErrSkipRetry))
     (NewConsumer 4 (\<lambda>s. (None, s)) None \<lparr>Concurrency = 0, AckAttempts = 0, AckBackoff = 0, HeartbeatInterval = 0\<rparr>)"

lemma asynq_task_settled_witness:
  "\<exists>r w'. asynq_process (\<lambda>p. Inr (NewJob 0 ''1'' ''t'' p [])) retry_loop asynq_demo False 0 5 [1]
      \<lparr>drv = (\<lambda>_. []), metrics = no_metrics, ran = []\<rparr> = (Some r, w') \<and> settlement_of r = Cancelled \<and> length (drv w' 5) = 1"
  using asynq_task_settled [OF retry_loop_laws, of "\<lambda>p. Inr (NewJob 0 ''1'' ''t'' p [])" asynq_demo False 0 5 "[1]"
      "\<lparr>drv = (\<lambda>_. []), metrics = no_metrics, ran = []\<rparr>"]
  by (simp add: asynq_demo_def RegisterHandler_def NewConsumer_def NewJob_def verdict_def)

text \<open>The producer of \<open>queue\<close> on this driver: the task carries the job's id as its
  \<open>TaskID\<close>, its options in their order, and goes to the first queue named, \<open>default\<close> otherwise.\<close>

theorem asynq_push:
  assumes "marshal (job\<lparr>Options := Options job @ [withID (job_ID job)]\<rparr>) = Inr by"
  shows "Producer_Push (asynq_Push marshal enqueue) job s =
     enqueue \<lparr>task_Type = job_Task job, task_Payload = by,
              task_Opts = asynqOptsFromQueueOpts (Options job) @ [TaskID (job_ID job)]\<rparr>
       (case filter (\<lambda>o'. opt_Type o' = OnQueueOpt) (Options job) of onQueue q # rest \<Rightarrow> q | _ \<Rightarrow> ''default'') s"
proof -
  have "asynqOptsFromQueueOpts (xs @ ys) = asynqOptsFromQueueOpts xs @ asynqOptsFromQueueOpts ys" for xs ys
    by (induction xs) auto
  moreover have "QueueFromOptions (xs @ [iDOption i]) =
      (case filter (\<lambda>o'. opt_Type o' = OnQueueOpt) xs of onQueue q # rest \<Rightarrow> q | _ \<Rightarrow> ''default'')" for xs i
  proof (induction xs)
    case (Cons x xs)
    then show ?case by (cases x) auto
  qed simp
  ultimately show ?thesis using assms by (simp add: Producer_Push_def asynq_Push_def withID_def)
qed

lemma asynq_push_witness:
  "Producer_Push (asynq_Push (\<lambda>j. Inr (Payload j)) (\<lambda>t q s. (None, s @ [(t, q)]))) (NewJob 0 ''7'' ''t'' [1] [After 5, OnQueue ''mail'']) [] =
   (None, [(\<lparr>task_Type = ''t'', task_Payload = [1], task_Opts = [ProcessIn 5, TaskID ''7'']\<rparr>, ''mail'')])"
  by (subst asynq_push) (simp_all add: NewJob_def After_def OnQueue_def)

lemma handled_tasks:
  assumes "retry_laws retry"
  shows "consume_acts retry c as r = Some r' \<Longrightarrow> (msg, e) \<in> set (handled retry c as r) \<Longrightarrow>
    \<exists>hub beats w. e = fst (Consumer_handler retry c hub beats msg w)"
proof (induction as arbitrary: r)
  case (Cons a as)
  then show ?case by (cases a) (auto split: option.splits list.splits if_splits)
qed simp

lemma settled_tasks:
  assumes "retry_laws retry" "c_close c = asynq_Close stop" "\<And>a s. map settlement_of (stop s a) = map settlement_of (s a)"
    and "Consume_start (asynq_Consume start) c w = Ret (Inr r0)" "consume_acts retry c as r0 = Some r"
    and "sent as = map (\<lambda>a. asynq_newMessage (job a) a) ns" "distinct ns"
  shows "\<exists>bs cs. busy r = map (\<lambda>a. asynq_newMessage (job a) a) bs \<and> chan r = map (\<lambda>a. asynq_newMessage (job a) a) cs \<and>
    distinct (bs @ cs) \<and> set (bs @ cs) \<subseteq> set ns \<and>
    (\<forall>a \<in> set bs \<union> set cs. length (drv (rworld r) a) = length (drv (rworld r0) a)) \<and>
    (\<forall>a \<in> set ns - (set bs \<union> set cs). map settlement_of (drv (rworld r) a) =
       map settlement_of (drv (rworld r0) a) @ [verdict c (job a)])"
proof -
  have close: "map settlement_of (snd (c_close c s) a) = map settlement_of (s a)" for a s
    using assms(3) [of s a] by (simp add: assms(2) asynq_Close_def)
  from asynq_family.settled_once [OF assms(1) close start_state(2,3) [OF assms(4)] assms(5-7)]
  obtain hs bs cs where f: "handled retry c as r0 = map (\<lambda>(n, e). (asynq_newMessage (job n) n, e)) hs"
    "busy r = map (\<lambda>a. asynq_newMessage (job a) a) bs" "chan r = map (\<lambda>a. asynq_newMessage (job a) a) cs"
    "mset (map fst hs @ bs @ cs) = mset ns"
    "\<forall>n \<in> set (bs @ cs). map settlement_of (drv (rworld r) n) = map settlement_of (drv (rworld r0) n)"
    "\<forall>(n, e) \<in> set hs. \<exists>j. map settlement_of (drv (rworld r) n) =
         map settlement_of (drv (rworld r0) n) @ replicate j (verdict c (msg_Job (asynq_newMessage (job n) n))) \<and>
       settled_by (asynq_newMessage (job n) n) (verdict c (msg_Job (asynq_newMessage (job n) n))) e j"
    by auto
  have "distinct (map fst hs @ bs @ cs)" using mset_eq_imp_distinct_iff [OF f(4)] assms(7) by simp
  moreover have ns: "set ns = fst ` set hs \<union> set bs \<union> set cs" using mset_eq_setD [OF f(4)] by (auto simp: Un_assoc)
  moreover have "length (drv (rworld r) a) = length (drv (rworld r0) a)" if "a \<in> set bs \<union> set cs" for a
    using f(5) [rule_format, of a] that by (metis length_map set_append)
  moreover have "map settlement_of (drv (rworld r) a) = map settlement_of (drv (rworld r0) a) @ [verdict c (job a)]"
    if a: "a \<in> set ns - (set bs \<union> set cs)" for a
  proof -
    obtain e where e: "(a, e) \<in> set hs" using a ns by auto
    then have "(asynq_newMessage (job a) a, e) \<in> set (handled retry c as r0)" unfolding f(1) by force
    from handled_tasks [OF assms(1,5) this] have "e = None" using asynq_never_fails [OF assms(1)] by auto
    moreover obtain j where j: "map settlement_of (drv (rworld r) a) =
        map settlement_of (drv (rworld r0) a) @ replicate j (verdict c (msg_Job (asynq_newMessage (job a) a)))"
      "settled_by (asynq_newMessage (job a) a) (verdict c (msg_Job (asynq_newMessage (job a) a))) e j"
      using f(6) e by blast
    ultimately have "j = 1" using asynq_settled by blast
    then show ?thesis using j(1) by (simp add: asynq_newMessage_def)
  qed
  ultimately show ?thesis using f(2,3) by (intro exI [of _ bs] exI [of _ cs]) auto
qed

text \<open>Property C14. The tasks of a running consumer: in every interleaving of the driver, the workers, the
  cancellation and the shutdown, each task sent is in the channel, with a worker, or handled, and only
  there; its own channel has received nothing before it is handled, and exactly one error once it was,
  the one that its job deserves. No two tasks share a channel, and stopping the server sends nothing on
  them. (Safety only: a message that is never handled leaves its task without an error.)\<close>

theorem asynq_tasks_settled_once:
  assumes "retry_laws retry" "c_close c = asynq_Close stop" "\<And>a s. map settlement_of (stop s a) = map settlement_of (s a)"
    and "Consume_start (asynq_Consume start) c w = Ret (Inr r0)" "consume_acts retry c as r0 = Some r"
    and "sent as = map (\<lambda>a. asynq_newMessage (job a) a) ns" "distinct ns"
  shows "\<exists>bs cs. busy r = map (\<lambda>a. asynq_newMessage (job a) a) bs \<and> chan r = map (\<lambda>a. asynq_newMessage (job a) a) cs \<and>
    distinct (bs @ cs) \<and> set (bs @ cs) \<subseteq> set ns \<and>
    (\<forall>a \<in> set bs \<union> set cs. length (drv (rworld r) a) = length (drv (rworld r0) a)) \<and>
    (\<forall>a \<in> set ns - (set bs \<union> set cs). map settlement_of (drv (rworld r) a) =
       map settlement_of (drv (rworld r0) a) @ [verdict c (job a)])"
  by (rule settled_tasks [OF assms])

definition two_tasks :: "task_chans consume_action list" where
  "two_tasks = [CSend (asynq_newMessage (NewJob 0 ''1'' ''t'' [] []) 5), CTake, CSend (asynq_newMessage (NewJob 0 ''2'' ''t'' [1] []) 6),
     CHandle 0 False 0, CCancel, CWorkerReturn]"

definition asynq_one :: "task_chans Consumer" where
  "asynq_one = asynq_demo\<lparr>c_close := asynq_Close (\<lambda>s. s), c_opts := (c_opts asynq_demo)\<lparr>Concurrency := 1\<rparr>\<rparr>"

definition no_tasks :: "task_chans world" where
  "no_tasks = \<lparr>drv = (\<lambda>_. []), metrics = no_metrics, ran = []\<rparr>"

lemma asynq_one_simps:
  "c_close asynq_one = asynq_Close (\<lambda>s. s)" "Concurrency (c_opts asynq_one) = 1"
  "c_handlers asynq_one ''t'' = Some (\<lambda>p. if p = [] then None else Some (ESentinel ErrSkipRetry))"
  by (simp_all add: asynq_one_def asynq_demo_def RegisterHandler_def NewConsumer_def)

definition task_jobs :: "nat \<Rightarrow> qjob" where
  "task_jobs a = (if a = 5 then NewJob 0 ''1'' ''t'' [] [] else NewJob 0 ''2'' ''t'' [1] [])"

lemma two_tasks_run:
  obtains r0 r where "Consume_start (asynq_Consume (\<lambda>s. (None, s))) asynq_one no_tasks = Ret (Inr r0)" "rworld r0 = no_tasks"
    "consume_acts retry_loop asynq_one two_tasks r0 = Some r" "sent two_tasks = map (\<lambda>a. asynq_newMessage (task_jobs a) a) [5, 6]"
    "busy r = []" "chan r = [asynq_newMessage (task_jobs 6) 6]" "ctx_done r" "idle r = 0" "draining r = None" "returned r = None"
proof -
  obtain r0 where r0: "Consume_start (asynq_Consume (\<lambda>s. (None, s))) asynq_one no_tasks = Ret (Inr r0)"
    by (simp add: Consume_start_def asynq_one_simps on_drv_def asynq_Consume_def)
  then show ?thesis
    by (intro that [of r0]) (auto simp: Consume_start_def asynq_one_simps on_drv_def asynq_Consume_def asynq_Close_def two_tasks_def task_jobs_def remove_nth_def)
qed

lemma asynq_newMessage_inject: "asynq_newMessage j a = asynq_newMessage j' a' \<Longrightarrow> a = a'"
proof -
  assume "asynq_newMessage j a = asynq_newMessage j' a'"
  then have "msg_Ack (asynq_newMessage j a) (\<lambda>_. []) = msg_Ack (asynq_newMessage j' a') (\<lambda>_. [])" by simp
  then show ?thesis by (auto simp: asynq_ops fun_eq_iff split: if_splits)
qed

lemma asynq_tasks_settled_once_witness:
  "\<exists>r0 r. Consume_start (asynq_Consume (\<lambda>s. (None, s))) asynq_one no_tasks = Ret (Inr r0) \<and>
     consume_acts retry_loop asynq_one two_tasks r0 = Some r \<and>
     map settlement_of (drv (rworld r) 5) = [Acked] \<and> drv (rworld r) 6 = []"
proof -
  obtain r0 r where t: "Consume_start (asynq_Consume (\<lambda>s. (None, s))) asynq_one no_tasks = Ret (Inr r0)" "rworld r0 = no_tasks"
    "consume_acts retry_loop asynq_one two_tasks r0 = Some r" "sent two_tasks = map (\<lambda>a. asynq_newMessage (task_jobs a) a) [5, 6]"
    "busy r = []" "chan r = [asynq_newMessage (task_jobs 6) 6]"
    by (rule two_tasks_run)
  obtain bs cs where f: "busy r = map (\<lambda>a. asynq_newMessage (task_jobs a) a) bs" "chan r = map (\<lambda>a. asynq_newMessage (task_jobs a) a) cs"
    "\<forall>a \<in> set bs \<union> set cs. length (drv (rworld r) a) = length (drv (rworld r0) a)"
    "\<forall>a \<in> set [5, 6] - (set bs \<union> set cs). map settlement_of (drv (rworld r) a) =
       map settlement_of (drv (rworld r0) a) @ [verdict asynq_one (task_jobs a)]"
    using asynq_tasks_settled_once [OF retry_loop_laws asynq_one_simps(1) _ t(1,3,4)] by auto
  have "bs = []" "cs = [6]" using f(1,2) t(5,6) by (auto dest: asynq_newMessage_inject)
  then show ?thesis using f(3,4) t
    by (intro exI [of _ r0] exI [of _ r])
      (auto simp: no_tasks_def verdict_def task_jobs_def NewJob_def asynq_one_simps)
qed

end
