(* ===== verification/Queue_Nats.thy ===== *)
theory Queue_Nats
  imports Queue_Producer Consumer_Settling
begin

text \<open>
  \<open>queue/nats/\<close>: the JetStream driver with its processed log. JetStream's message and key-value
  store are records of their operations on the state \<open>'s\<close> of the server; the locale
  \<open>processed_log\<close> states what the code relies on, and is discharged on a server of maps. The
  reachable states of the last sections interleave deliveries with the settling of the messages
  that were handed on.
\<close>

section \<open>The server's interface\<close>

record 's js_msg =
  js_Header :: "string \<Rightarrow> string"
  js_Data :: string
  js_DoubleAck :: "'s effect"
  js_Term :: "'s effect"
  js_TermWithReason :: "string \<Rightarrow> 's effect"
  js_Nak :: "'s effect"
  js_NakWithDelay :: "int \<Rightarrow> 's effect"
  js_InProgress :: "'s effect"

record 's kv_store =
  kv_Create :: "string \<Rightarrow> string \<Rightarrow> 's effect"
  kv_Get :: "string \<Rightarrow> 's \<Rightarrow> (go_error + string) \<times> 's"
  kv_Put :: "string \<Rightarrow> string \<Rightarrow> 's effect"
  kv_Delete :: "string \<Rightarrow> 's effect"

definition kvStateProcessing :: string where "kvStateProcessing = ''processing''"
definition kvStateProcessed :: string where "kvStateProcessed = ''processed''"
definition DelayedHeader :: string where "DelayedHeader = ''Nak-Until''"

section \<open>Messages\<close>

text \<open>\<open>m.kv\<close> is nil when the processed log is disabled.\<close>

definition nats_Ack :: "'s kv_store option \<Rightarrow> string \<Rightarrow> 's js_msg \<Rightarrow> 's effect" where
  "nats_Ack kv i m s =
     (case kv of
        None \<Rightarrow> js_DoubleAck m s
      | Some k \<Rightarrow>
          (case kv_Put k i kvStateProcessed s of
             (Some err, s') \<Rightarrow> (Some (wrapf ''mark processed'' err), s')
           | (None, s') \<Rightarrow> js_DoubleAck m s'))"

definition nats_Cancel :: "'s js_msg \<Rightarrow> 's effect" where
  "nats_Cancel m = js_Term m"

definition nats_Deadletter :: "'s js_msg \<Rightarrow> 's effect" where
  "nats_Deadletter m = js_TermWithReason m ''deadlettered''"

definition nats_Nack :: "'s kv_store option \<Rightarrow> string \<Rightarrow> 's js_msg \<Rightarrow> 's effect" where
  "nats_Nack kv i m s = js_Nak m (case kv of None \<Rightarrow> s | Some k \<Rightarrow> snd (kv_Delete k i s))"

definition nats_InProgress :: "'s js_msg \<Rightarrow> 's effect" where
  "nats_InProgress m = js_InProgress m"

definition nats_newMessage :: "qjob \<Rightarrow> 's js_msg \<Rightarrow> 's kv_store option \<Rightarrow> string \<Rightarrow> 's message" where
  "nats_newMessage job m kv i =
     \<lparr>msg_Job = job, msg_Ack = nats_Ack kv i m, msg_Cancel = nats_Cancel m, msg_Nack = nats_Nack kv i m,
      msg_Deadletter = nats_Deadletter m, msg_InProgress = Some (nats_InProgress m)\<rparr>"

section \<open>The consumer\<close>

record nats_opts =
  Backoff :: "i64 list"
  MaxDelivery :: int
  AckWait :: i64
  BatchSize :: int
  FetchMaxWait :: i64
  ProcessLogEnabled :: "bool option"
  ProcessedLogTTL :: i64
  ProcessedLogReplicas :: int

definition nats_withDefaults :: "nats_opts \<Rightarrow> nats_opts" where
  "nats_withDefaults c0 =
     (let c1 = (if Backoff c0 = [] then c0\<lparr>Backoff := [500000000, 1000000000, 3000000000]\<rparr> else c0);
          c2 = (if MaxDelivery c1 = 0 then c1\<lparr>MaxDelivery := 25\<rparr> else c1);
          c3 = (if AckWait c2 = 0 then c2\<lparr>AckWait := 60000000000\<rparr> else c2);
          c4 = (if BatchSize c3 = 0 then c3\<lparr>BatchSize := 100\<rparr> else c3);
          c5 = (if FetchMaxWait c4 = 0 then c4\<lparr>FetchMaxWait := 1000000000\<rparr> else c4);
          c6 = (if ProcessLogEnabled c5 = None then c5\<lparr>ProcessLogEnabled := Some True\<rparr> else c5);
          c7 = (if ProcessedLogTTL c6 = 0 then c6\<lparr>ProcessedLogTTL := 3600000000000\<rparr> else c6)
      in if ProcessedLogReplicas c7 = 0 then c7\<lparr>ProcessedLogReplicas := 3\<rparr> else c7)"

record 's nats_consumer =
  nkv :: "'s kv_store option"
  nopts :: nats_opts

definition nats_NewConsumer :: "go_error option \<Rightarrow> go_error option \<Rightarrow> nats_opts \<Rightarrow> go_error + 's nats_consumer" where
  "nats_NewConsumer connect js_new opts =
     (case connect of
        Some err \<Rightarrow> Inl (wrapf ''connect to nats'' err)
      | None \<Rightarrow> (case js_new of
          Some err \<Rightarrow> Inl (wrapf ''create js instance'' err)
        | None \<Rightarrow> Inr \<lparr>nkv = None, nopts = nats_withDefaults opts\<rparr>))"

definition log_enabled :: "nats_opts \<Rightarrow> bool" where
  "log_enabled opts = (case ProcessLogEnabled opts of Some b \<Rightarrow> b | None \<Rightarrow> False)"

text \<open>\<open>Consume\<close> up to its goroutine: \<open>stream\<close>, \<open>create_kv\<close> and \<open>create_consumer\<close> are the results of
  the calls on the server.\<close>

definition nats_Consume_setup ::
    "go_error option \<Rightarrow> go_error + 's kv_store \<Rightarrow> go_error option \<Rightarrow> 's nats_consumer \<Rightarrow> go_error option \<times> 's nats_consumer" where
  "nats_Consume_setup stream create_kv create_consumer c =
     (case stream of
        Some err \<Rightarrow> (Some (wrapf ''get stream'' err), c)
      | None \<Rightarrow>
          (case (if log_enabled (nopts c) then map_sum id Some create_kv else Inr (nkv c)) of
             Inl err \<Rightarrow> (Some (wrapf ''create processed log store'' err), c)
           | Inr kv \<Rightarrow>
               let c' = c\<lparr>nkv := kv\<rparr>
               in (case create_consumer of
                     Some err \<Rightarrow> (Some (wrapf ''create or update consumer'' err), c')
                   | None \<Rightarrow> (None, c'))))"

text \<open>The end of \<open>handleMessage\<close>: the job is decoded and the message handed on. An undecodable one
  is put back.\<close>

definition nats_decode ::
    "(string \<Rightarrow> go_error + qjob) \<Rightarrow> 's kv_store option \<Rightarrow> 's js_msg \<Rightarrow> string \<Rightarrow> 's \<Rightarrow> ('s message option \<times> 's) outcome" where
  "nats_decode unmarshal kv msg i s =
     (case unmarshal (js_Data msg) of
        Inl err \<Rightarrow> Ret (None, snd (js_Nak msg s))
      | Inr job \<Rightarrow> Ret (Some (nats_newMessage job msg kv i), s))"

text \<open>\<open>handleMessage\<close>: the message handed on, if any, and the state. \<open>parse_time\<close> yields the zero
  time for what it cannot read, as the ignored error does.\<close>

definition nats_handleMessage ::
    "(string \<Rightarrow> int) \<Rightarrow> (string \<Rightarrow> go_error + qjob) \<Rightarrow> 's nats_consumer \<Rightarrow> int \<Rightarrow> 's js_msg \<Rightarrow> 's \<Rightarrow>
     ('s message option \<times> 's) outcome" where
  "nats_handleMessage parse_time unmarshal c now msg s =
     (if log_enabled (nopts c) \<and> nkv c = None then Panic ''kv processed log is nil''
      else
        let i = js_Header msg ''Nats-Msg-Id'' in
        if i = '''' then Ret (None, snd (js_TermWithReason msg ''message has no id'' s))
        else
          let untilRaw = js_Header msg DelayedHeader in
          if untilRaw \<noteq> '''' \<and> 0 < parse_time untilRaw - now
          then Ret (None, snd (js_NakWithDelay msg (parse_time untilRaw - now) s))
          else
            if log_enabled (nopts c)
               then (case nkv c of
                       None \<Rightarrow> Panic ''unreachable''
                     | Some k \<Rightarrow>
                         (case kv_Create k i kvStateProcessing s of
                            (None, s1) \<Rightarrow> nats_decode unmarshal (nkv c) msg i s1
                          | (Some err, s1) \<Rightarrow>
                              if errors_Is err JetstreamErrKeyExists
                              then (case kv_Get k i s1 of
                                      (Inr v, s2) \<Rightarrow>
                                        if v = kvStateProcessed
                                        then Ret (None, snd (js_TermWithReason msg ''message already processed'' s2))
                                        else Ret (None, snd (js_Nak msg s2))
                                    | (Inl getErr, s2) \<Rightarrow> Ret (None, snd (js_Nak msg s2)))
                              else Ret (None, snd (js_Nak msg s1))))
               else nats_decode unmarshal (nkv c) msg i s)"

text \<open>One round of the goroutine of \<open>Consume\<close>: a batch is fetched, each message with the time at which
  it is handled; after an error the next round comes.\<close>

fun nats_batch ::
    "(string \<Rightarrow> int) \<Rightarrow> (string \<Rightarrow> go_error + qjob) \<Rightarrow> 's nats_consumer \<Rightarrow> (int \<times> 's js_msg) list \<Rightarrow> 's \<Rightarrow>
     ('s message list \<times> 's) outcome" where
  "nats_batch pt um c [] s = Ret ([], s)"
| "nats_batch pt um c ((now, m) # ms) s =
     (case nats_handleMessage pt um c now m s of
        Panic p \<Rightarrow> Panic p
      | Ret (fwd, s') \<Rightarrow>
          (case nats_batch pt um c ms s' of
             Panic p \<Rightarrow> Panic p
           | Ret (out, s'') \<Rightarrow> Ret ((case fwd of None \<Rightarrow> out | Some msg \<Rightarrow> msg # out), s'')))"

definition nats_fetch ::
    "(string \<Rightarrow> int) \<Rightarrow> (string \<Rightarrow> go_error + qjob) \<Rightarrow> 's nats_consumer \<Rightarrow> go_error + (int \<times> 's js_msg) list \<Rightarrow> 's \<Rightarrow>
     ('s message list \<times> 's) outcome" where
  "nats_fetch pt um c fetched s = (case fetched of Inl err \<Rightarrow> Ret ([], s) | Inr ms \<Rightarrow> nats_batch pt um c ms s)"

section \<open>The producer\<close>

datatype publish_opt = WithMsgID string

text \<open>\<open>fresh\<close> is the random id drawn when no option has one.\<close>

definition jsOptsFromQueueOpts :: "string \<Rightarrow> job_option list \<Rightarrow> publish_opt list" where
  "jsOptsFromQueueOpts fresh opts =
     (let (out, hasId) = foldl (\<lambda>(out, h) opt. case opt of iDOption i \<Rightarrow> (out @ [WithMsgID i], True) | _ \<Rightarrow> (out, h)) ([], False) opts
      in if \<not> hasId then out @ [WithMsgID fresh] else out)"

record 'p nats_msg =
  Subject :: string
  Header :: "(string \<times> string) list"
  Data :: 'p

text \<open>The last of the options \<open>At\<close> and \<open>After\<close> decides; the zero time, here \<open>0\<close>, is no time.\<close>

definition run_at :: "int \<Rightarrow> job_option list \<Rightarrow> int" where
  "run_at now opts = foldl (\<lambda>t opt. case opt of afterOption d \<Rightarrow> now + sint d | atOption u \<Rightarrow> u | _ \<Rightarrow> t) 0 opts"

definition nats_Push ::
    "(int \<Rightarrow> string) \<Rightarrow> (qjob \<Rightarrow> go_error + 'p) \<Rightarrow> ('p nats_msg \<Rightarrow> publish_opt list \<Rightarrow> 's effect) \<Rightarrow> int \<Rightarrow> string \<Rightarrow>
     qjob \<Rightarrow> 's effect" where
  "nats_Push rfc3339 marshal publish now fresh job s =
     (case marshal job of
        Inl err \<Rightarrow> (Some (wrapf ''mnarshal job'' err), s)
      | Inr by \<Rightarrow>
          let t = run_at now (Options job)
          in publish \<lparr>Subject = QueueFromOptions (Options job) @ ''.'' @ job_Task job,
                      Header = (if t \<noteq> 0 then [(DelayedHeader, rfc3339 t)] else []), Data = by\<rparr>
               (jsOptsFromQueueOpts fresh (Options job)) s)"

text \<open>\<open>js_new\<close> is the JetStream of the connection, when it can be made. \<open>Close\<close>, of the producer and of the
  consumer, closes the connection and has no error.\<close>

definition nats_NewProducer :: "go_error option \<Rightarrow> go_error + 'js \<Rightarrow> go_error + 'js" where
  "nats_NewProducer connect js_new =
     (case connect of
        Some err \<Rightarrow> Inl (wrapf ''connect to nats'' err)
      | None \<Rightarrow> (case js_new of Inl err \<Rightarrow> Inl (wrapf ''create js object'' err) | Inr js \<Rightarrow> Inr js))"

definition nats_Close :: "('s \<Rightarrow> 's) \<Rightarrow> 's effect" where
  "nats_Close close_conn s = (None, close_conn s)"

section \<open>The processed log's laws\<close>

text \<open>What the code needs of the key-value store, on a view of its keys, and of the messages: a
  creation succeeds only for an absent key and writes it, and one that fails may have written an
  absent key all the same; a put that succeeds writes, one that fails may or may not have; a deletion
  only removes its key; the operations of messages leave the log alone.\<close>

definition js_frame :: "('s \<Rightarrow> string \<Rightarrow> string option) \<Rightarrow> 's js_msg \<Rightarrow> bool" where
  "js_frame view m \<longleftrightarrow>
     (\<forall>s. view (snd (js_DoubleAck m s)) = view s \<and> view (snd (js_Term m s)) = view s \<and>
        view (snd (js_Nak m s)) = view s \<and> view (snd (js_InProgress m s)) = view s \<and>
        (\<forall>r. view (snd (js_TermWithReason m r s)) = view s) \<and> (\<forall>d. view (snd (js_NakWithDelay m d s)) = view s))"

locale processed_log =
  fixes k :: "'s kv_store" and view :: "'s \<Rightarrow> string \<Rightarrow> string option"
  assumes create_ok: "fst (kv_Create k i v s) = None \<Longrightarrow> view s i = None \<and> view (snd (kv_Create k i v s)) = (view s)(i \<mapsto> v)"
    and create_err: "fst (kv_Create k i v s) \<noteq> None \<Longrightarrow> view (snd (kv_Create k i v s)) = view s \<or>
      view s i = None \<and> view (snd (kv_Create k i v s)) = (view s)(i \<mapsto> v)"
    and get_view: "view (snd (kv_Get k i s)) = view s"
    and put_ok: "fst (kv_Put k i v s) = None \<Longrightarrow> view (snd (kv_Put k i v s)) = (view s)(i \<mapsto> v)"
    and put_err: "fst (kv_Put k i v s) \<noteq> None \<Longrightarrow> view (snd (kv_Put k i v s)) \<in> {view s, (view s)(i \<mapsto> v)}"
    and delete_view: "view (snd (kv_Delete k i s)) \<in> {view s, (view s)(i := None)}"
begin

lemma ack_view:
  assumes "js_frame view m"
  shows "fst (nats_Ack (Some k) i m s) = None \<Longrightarrow> view (snd (nats_Ack (Some k) i m s)) = (view s)(i \<mapsto> kvStateProcessed)"
    and "view (snd (nats_Ack (Some k) i m s)) \<in> {view s, (view s)(i \<mapsto> kvStateProcessed)}"
  using put_ok [of i kvStateProcessed s] put_err [of i kvStateProcessed s] assms
  by (auto simp: nats_Ack_def js_frame_def split: prod.splits option.splits)

lemma nack_view: "js_frame view m \<Longrightarrow> view (snd (nats_Nack (Some k) i m s)) \<in> {view s, (view s)(i := None)}"
  using delete_view [of i s] by (simp add: nats_Nack_def js_frame_def)

text \<open>A delivery hands a message on only by claiming its id, which nobody held.\<close>

lemma handle_view:
  assumes "js_frame view m" "log_enabled (nopts c)" "nkv c = Some k"
    "nats_handleMessage pt um c now m s = Ret (r, s')"
  shows "(r = None \<longrightarrow> view s' = view s \<or> view s (js_Header m ''Nats-Msg-Id'') = None \<and>
            view s' = (view s)(js_Header m ''Nats-Msg-Id'' \<mapsto> kvStateProcessing)) \<and>
    (\<forall>msg. r = Some msg \<longrightarrow> view s (js_Header m ''Nats-Msg-Id'') = None \<and>
       view s' = (view s)(js_Header m ''Nats-Msg-Id'' \<mapsto> kvStateProcessing) \<and>
       (\<exists>job. msg = nats_newMessage job m (Some k) (js_Header m ''Nats-Msg-Id'')))"
proof -
  define i where "i = js_Header m ''Nats-Msg-Id''"
  define u where "u = js_Header m DelayedHeader"
  have fr: "view (snd (js_Nak m x)) = view x" "view (snd (js_TermWithReason m t x)) = view x"
    "view (snd (js_NakWithDelay m d x)) = view x" for x t d
    using assms(1) by (simp_all add: js_frame_def)
  consider (dropped) "i = '''' \<or> u \<noteq> '''' \<and> 0 < pt u - now"
    | (claim) "i \<noteq> ''''" "\<not> (u \<noteq> '''' \<and> 0 < pt u - now)" by blast
  then show ?thesis
  proof cases
    case dropped
    then have "r = None \<and> view s' = view s"
      using assms(2-4) fr by (auto simp: nats_handleMessage_def Let_def i_def [symmetric] u_def [symmetric] split: if_splits)
    then show ?thesis by simp
  next
    case claim
    obtain e s1 where cr: "kv_Create k i kvStateProcessing s = (e, s1)" by fastforce
    have h: "nats_handleMessage pt um c now m s =
        (case e of None \<Rightarrow> nats_decode um (nkv c) m i s1
         | Some err \<Rightarrow> if errors_Is err JetstreamErrKeyExists
             then (case kv_Get k i s1 of
                     (Inr v, s2) \<Rightarrow> if v = kvStateProcessed then Ret (None, snd (js_TermWithReason m ''message already processed'' s2))
                                   else Ret (None, snd (js_Nak m s2))
                   | (Inl getErr, s2) \<Rightarrow> Ret (None, snd (js_Nak m s2)))
             else Ret (None, snd (js_Nak m s1)))"
      using claim assms(2,3) cr by (auto simp: nats_handleMessage_def Let_def i_def [symmetric] u_def [symmetric])
    show ?thesis
    proof (cases e)
      case None
      then have "view s i = None" "view s1 = (view s)(i \<mapsto> kvStateProcessing)"
        using create_ok [of i kvStateProcessing s] cr by simp_all
      then show ?thesis using assms(3,4) h None fr by (auto simp: nats_decode_def i_def split: sum.splits)
    next
      case (Some err)
      then have "view s1 = view s \<or> view s i = None \<and> view s1 = (view s)(i \<mapsto> kvStateProcessing)"
        using create_err [of i kvStateProcessing s] cr by simp
      moreover have "r = None \<and> view s' = view s1"
        using assms(4) h Some fr get_view [of i s1]
        by (auto split: if_splits sum.splits prod.splits)
      ultimately show ?thesis by (auto simp: i_def)
    qed
  qed
qed

text \<open>A batch hands on at most one message per id, only of ids nobody held, and leaves every claim in
  the log as it was, whatever the batch repeats.\<close>

lemma batch_view:
  assumes "log_enabled (nopts c)" "nkv c = Some k"
  shows "\<forall>p \<in> set ms. js_frame view (snd p) \<Longrightarrow> nats_batch pt um c ms s = Ret (out, s') \<Longrightarrow>
    \<exists>fw. out = map (\<lambda>(i, job, m). nats_newMessage job m (Some k) i) fw \<and> distinct (map fst fw) \<and>
      (\<forall>i \<in> fst ` set fw. view s i = None \<and> view s' i = Some kvStateProcessing) \<and>
      (\<forall>i v. view s i = Some v \<longrightarrow> view s' i = Some v)"
proof (induction ms arbitrary: s out)
  case Nil
  then show ?case by simp
next
  case (Cons p ms)
  obtain now m where p: "p = (now, m)" by fastforce
  let ?i = "js_Header m ''Nats-Msg-Id''"
  obtain fwd s1 out1 where st: "nats_handleMessage pt um c now m s = Ret (fwd, s1)" "nats_batch pt um c ms s1 = Ret (out1, s')"
    "out = (case fwd of None \<Rightarrow> out1 | Some msg \<Rightarrow> msg # out1)"
    using Cons.prems(2) by (auto simp: p split: outcome.splits)
  obtain fw where fw: "out1 = map (\<lambda>(i, job, m). nats_newMessage job m (Some k) i) fw" "distinct (map fst fw)"
    "\<forall>i \<in> fst ` set fw. view s1 i = None \<and> view s' i = Some kvStateProcessing" "\<forall>i v. view s1 i = Some v \<longrightarrow> view s' i = Some v"
    using Cons.IH [OF _ st(2)] Cons.prems(1) by auto
  have fr: "js_frame view m" using Cons.prems(1) by (simp add: p)
  note h = handle_view [OF fr assms st(1)]
  have "view s1 = view s \<or> view s ?i = None \<and> view s1 = (view s)(?i \<mapsto> kvStateProcessing)"
    using h by (cases fwd) auto
  then have keep: "view s1 i = None \<Longrightarrow> view s i = None" "view s i = Some v \<Longrightarrow> view s1 i = Some v" for i v
    by (auto split: if_splits)
  show ?case
  proof (cases fwd)
    case None
    then show ?thesis using fw st(3) None keep by (intro exI [of _ fw]) simp
  next
    case (Some msg)
    then obtain job where j: "view s ?i = None" "view s1 = (view s)(?i \<mapsto> kvStateProcessing)"
      "msg = nats_newMessage job m (Some k) ?i" using h by auto
    have "?i \<notin> fst ` set fw" "view s' ?i = Some kvStateProcessing" using fw(3,4) j(2) by auto
    then show ?thesis using fw st(3) Some j(1,3) keep by (intro exI [of _ "(?i, job, m) # fw"]) simp
  qed
qed

end

section \<open>A server of maps\<close>

record nats_server =
  kvs :: "string \<Rightarrow> string option"
  up :: bool
  acts :: "(nat \<times> settlement) list"

definition when_up :: "(nats_server \<Rightarrow> go_error option \<times> nats_server) \<Rightarrow> nats_server effect" where
  "when_up f s = (if up s then f s else (Some (EOther ''nats: connection closed''), s))"

definition server_kv :: "nats_server kv_store" where
  "server_kv =
     \<lparr>kv_Create = (\<lambda>i v. when_up (\<lambda>s. if kvs s i \<noteq> None then (Some (ESentinel JetstreamErrKeyExists), s)
                                    else (None, s\<lparr>kvs := (kvs s)(i \<mapsto> v)\<rparr>))),
      kv_Get = (\<lambda>i s. if \<not> up s then (Inl (EOther ''nats: connection closed''), s)
                      else case kvs s i of Some v \<Rightarrow> (Inr v, s) | None \<Rightarrow> (Inl (EOther ''nats: key not found''), s)),
      kv_Put = (\<lambda>i v. when_up (\<lambda>s. (None, s\<lparr>kvs := (kvs s)(i \<mapsto> v)\<rparr>))),
      kv_Delete = (\<lambda>i. when_up (\<lambda>s. (None, s\<lparr>kvs := (kvs s)(i := None)\<rparr>)))\<rparr>"

definition settle_act :: "nat \<Rightarrow> settlement \<Rightarrow> nats_server effect" where
  "settle_act n a = when_up (\<lambda>s. (None, s\<lparr>acts := acts s @ [(n, a)]\<rparr>))"

definition server_msg :: "nat \<Rightarrow> string \<Rightarrow> string \<Rightarrow> nats_server js_msg" where
  "server_msg n i data =
     \<lparr>js_Header = (\<lambda>h. if h = ''Nats-Msg-Id'' then i else ''''), js_Data = data, js_DoubleAck = settle_act n Acked,
      js_Term = settle_act n Cancelled, js_TermWithReason = (\<lambda>r. settle_act n Deadlettered), js_Nak = settle_act n Nacked,
      js_NakWithDelay = (\<lambda>d. settle_act n Nacked), js_InProgress = when_up (\<lambda>s. (None, s))\<rparr>"

lemmas server_defs = server_kv_def server_msg_def settle_act_def when_up_def

interpretation server: processed_log server_kv kvs
  by unfold_locales (auto simp: server_defs split: if_splits option.splits)

lemma server_frame: "js_frame kvs (server_msg n i data)"
  by (simp add: js_frame_def server_defs)

text \<open>The settling side of the interface: a log of the settlements that the server recorded for one
  message. An operation that reports success was recorded; one that reports an error, a \<open>DoubleAck\<close>
  whose reply was lost say, may have been.\<close>

locale nats_settling =
  fixes k :: "'s kv_store" and m :: "'s js_msg" and log :: "'s \<Rightarrow> settlement list"
  assumes double_ack: "may_record log (js_DoubleAck m) Acked"
    and terminate: "may_record log (js_Term m) Cancelled"
    and term_reason: "may_record log (js_TermWithReason m r) Deadlettered"
    and nak: "may_record log (js_Nak m) Nacked"
    and beat: "log (snd (js_InProgress m s)) = log s"
    and kv_quiet: "log (snd (kv_Put k i v s)) = log s" "log (snd (kv_Delete k i s)) = log s"
begin

lemma driver: "message_driver (nats_newMessage job m (Some k) i) log"
proof unfold_locales
  show "may_record log (msg_Ack (nats_newMessage job m (Some k) i)) Acked"
    unfolding may_record_def
  proof
    fix s
    obtain e s1 where p: "kv_Put k i kvStateProcessed s = (e, s1)" by fastforce
    then have "log s1 = log s" using kv_quiet(1) [of i kvStateProcessed s] by simp
    then show "log (snd (msg_Ack (nats_newMessage job m (Some k) i) s)) = log s @ [Acked] \<or>
        fst (msg_Ack (nats_newMessage job m (Some k) i) s) \<noteq> None \<and> log (snd (msg_Ack (nats_newMessage job m (Some k) i) s)) = log s"
      using double_ack [unfolded may_record_def, rule_format, of s1] p
      by (cases e) (simp_all add: nats_newMessage_def nats_Ack_def)
  qed
  show "may_record log (msg_Nack (nats_newMessage job m (Some k) i)) Nacked"
    unfolding may_record_def
  proof
    fix s
    show "log (snd (msg_Nack (nats_newMessage job m (Some k) i) s)) = log s @ [Nacked] \<or>
        fst (msg_Nack (nats_newMessage job m (Some k) i) s) \<noteq> None \<and> log (snd (msg_Nack (nats_newMessage job m (Some k) i) s)) = log s"
      using nak [unfolded may_record_def, rule_format, of "snd (kv_Delete k i s)"] kv_quiet(2) [of i s]
      by (simp add: nats_newMessage_def nats_Nack_def)
  qed
qed (use terminate term_reason beat in \<open>auto simp: nats_newMessage_def nats_Cancel_def nats_Deadletter_def nats_InProgress_def may_record_def\<close>)

end

sublocale nats_settling \<subseteq> settled: message_driver "nats_newMessage job m (Some k) i" log for job i
  by (rule driver)

definition act_log :: "nat \<Rightarrow> nats_server \<Rightarrow> settlement list" where
  "act_log n s = map snd (filter (\<lambda>a. fst a = n) (acts s))"

interpretation server_settling: nats_settling server_kv "server_msg n i data" "act_log n" for n i data
  by unfold_locales (auto simp: may_record_def server_defs act_log_def split: if_splits)

text \<open>Many messages, each with its log: no operation on one shows in the log of another.\<close>

locale nats_family =
  fixes k :: "'s kv_store" and m :: "'i \<Rightarrow> 's js_msg" and log :: "'i \<Rightarrow> 's \<Rightarrow> settlement list"
  assumes settling: "nats_settling k (m n) (log n)"
    and others: "n \<noteq> n' \<Longrightarrow> log n' (snd (js_DoubleAck (m n) s)) = log n' s" "n \<noteq> n' \<Longrightarrow> log n' (snd (js_Term (m n) s)) = log n' s"
      "n \<noteq> n' \<Longrightarrow> log n' (snd (js_TermWithReason (m n) x s)) = log n' s" "n \<noteq> n' \<Longrightarrow> log n' (snd (js_Nak (m n) s)) = log n' s"
      "n \<noteq> n' \<Longrightarrow> log n' (snd (js_InProgress (m n) s)) = log n' s"
begin

lemma ack_others: "n \<noteq> n' \<Longrightarrow> log n' (snd (nats_Ack (Some k) i (m n) s)) = log n' s"
  using nats_settling.kv_quiet(1) [OF settling, of n' i kvStateProcessed s]
  by (cases "kv_Put k i kvStateProcessed s") (auto simp: nats_Ack_def others split: option.split)

lemma nack_others: "n \<noteq> n' \<Longrightarrow> log n' (snd (nats_Nack (Some k) i (m n) s)) = log n' s"
  using nats_settling.kv_quiet(2) [OF settling, of n' i s] by (simp add: nats_Nack_def others)

lemma family: "message_family (\<lambda>n. nats_newMessage (job n) (m n) (Some k) (i n)) log"
  by (intro message_family.intro nats_settling.driver [OF settling])
    (auto simp: nats_newMessage_def ack_others nack_others nats_Cancel_def nats_Deadletter_def nats_InProgress_def others)

end

sublocale nats_family \<subseteq> many: message_family "\<lambda>n. nats_newMessage (job n) (m n) (Some k) (i n)" log for job i
  by (rule family)

interpretation server_family: nats_family server_kv "\<lambda>n. server_msg n (i n) (data n)" act_log for i data
  by (intro nats_family.intro server_settling.nats_settling_axioms) (auto simp: server_defs act_log_def)

section \<open>Deliveries and settlements interleaved\<close>

text \<open>The messages handed on and not yet settled, with their ids, and the ids acknowledged.\<close>

record 's nats_run =
  srv :: 's
  flight :: "(string \<times> 's message) list"
  acked :: "string list"

text \<open>The processed log is on and no key expires: the time to live must exceed the time a message
  can be redelivered. A failed acknowledgement is tried again or given up.\<close>

inductive nats_reach for k view pt um c where
  nats_init: "view s = Map.empty \<Longrightarrow> nats_reach k view pt um c \<lparr>srv = s, flight = [], acked = []\<rparr>"
| nats_deliver: "nats_reach k view pt um c r \<Longrightarrow> js_frame view m \<Longrightarrow>
    nats_handleMessage pt um c now m (srv r) = Ret (fwd, s') \<Longrightarrow>
    nats_reach k view pt um c (r\<lparr>srv := s', flight := flight r @
      (case fwd of None \<Rightarrow> [] | Some msg \<Rightarrow> [(js_Header m ''Nats-Msg-Id'', msg)])\<rparr>)"
| nats_acked: "nats_reach k view pt um c r \<Longrightarrow> flight r = xs @ (i, msg) # ys \<Longrightarrow> msg_Ack msg (srv r) = (None, s') \<Longrightarrow>
    nats_reach k view pt um c (r\<lparr>srv := s', flight := xs @ ys, acked := acked r @ [i]\<rparr>)"
| nats_ack_retry: "nats_reach k view pt um c r \<Longrightarrow> flight r = xs @ (i, msg) # ys \<Longrightarrow> msg_Ack msg (srv r) = (Some e, s') \<Longrightarrow>
    nats_reach k view pt um c (r\<lparr>srv := s'\<rparr>)"
| nats_give_up: "nats_reach k view pt um c r \<Longrightarrow> flight r = xs @ (i, msg) # ys \<Longrightarrow> msg_Ack msg (srv r) = (Some e, s') \<Longrightarrow>
    nats_reach k view pt um c (r\<lparr>srv := s', flight := xs @ ys\<rparr>)"
| nats_nacked: "nats_reach k view pt um c r \<Longrightarrow> flight r = xs @ (i, msg) # ys \<Longrightarrow> msg_Nack msg (srv r) = (res, s') \<Longrightarrow>
    nats_reach k view pt um c (r\<lparr>srv := s', flight := xs @ ys\<rparr>)"
| nats_dropped: "nats_reach k view pt um c r \<Longrightarrow> flight r = xs @ (i, msg) # ys \<Longrightarrow>
    msg_Cancel msg (srv r) = (res, s') \<or> msg_Deadletter msg (srv r) = (res, s') \<Longrightarrow>
    nats_reach k view pt um c (r\<lparr>srv := s', flight := xs @ ys\<rparr>)"
| nats_beat: "nats_reach k view pt um c r \<Longrightarrow> flight r = xs @ (i, msg) # ys \<Longrightarrow> msg_InProgress msg = Some pr \<Longrightarrow>
    nats_reach k view pt um c (r\<lparr>srv := snd (pr (srv r))\<rparr>)"

definition nats_entry :: "'s kv_store \<Rightarrow> ('s \<Rightarrow> string \<Rightarrow> string option) \<Rightarrow> string \<times> 's message \<Rightarrow> bool" where
  "nats_entry k view p \<longleftrightarrow> (\<exists>job m. snd p = nats_newMessage job m (Some k) (fst p) \<and> js_frame view m)"

definition flight_ids :: "'s nats_run \<Rightarrow> string set" where
  "flight_ids r = fst ` set (flight r)"

definition nats_inv :: "'s kv_store \<Rightarrow> ('s \<Rightarrow> string \<Rightarrow> string option) \<Rightarrow> 's nats_run \<Rightarrow> bool" where
  "nats_inv k view r \<longleftrightarrow>
     distinct (map fst (flight r)) \<and> distinct (acked r) \<and> flight_ids r \<inter> set (acked r) = {} \<and>
     (\<forall>i \<in> flight_ids r. view (srv r) i \<noteq> None) \<and>
     (\<forall>i \<in> set (acked r). view (srv r) i = Some kvStateProcessed) \<and> list_all (nats_entry k view) (flight r)"

lemma flight_ids_split:
  assumes "flight r = xs @ (i, msg) # ys" "distinct (map fst (flight r))"
  shows "i \<in> flight_ids r" "fst ` set (xs @ ys) = flight_ids r - {i}" "distinct (map fst (xs @ ys))"
  using assms by (auto simp: flight_ids_def image_iff)

context processed_log
begin

lemma entry_ops:
  assumes "nats_entry k view (i, msg)"
  shows "fst (msg_Ack msg s) = None \<Longrightarrow> view (snd (msg_Ack msg s)) = (view s)(i \<mapsto> kvStateProcessed)"
    and "view (snd (msg_Ack msg s)) \<in> {view s, (view s)(i \<mapsto> kvStateProcessed)}"
    and "view (snd (msg_Nack msg s)) \<in> {view s, (view s)(i := None)}"
    and "view (snd (msg_Cancel msg s)) = view s" "view (snd (msg_Deadletter msg s)) = view s"
    and "msg_InProgress msg = Some pr \<Longrightarrow> view (snd (pr s)) = view s"
proof -
  obtain job m where m: "msg = nats_newMessage job m (Some k) i" "js_frame view m"
    using assms by (auto simp: nats_entry_def)
  have ops: "msg_Ack msg = nats_Ack (Some k) i m" "msg_Nack msg = nats_Nack (Some k) i m" "msg_Cancel msg = js_Term m"
    "msg_Deadletter msg = js_TermWithReason m ''deadlettered''" "msg_InProgress msg = Some (js_InProgress m)"
    by (simp_all add: m(1) nats_newMessage_def nats_Cancel_def nats_Deadletter_def nats_InProgress_def)
  show "fst (msg_Ack msg s) = None \<Longrightarrow> view (snd (msg_Ack msg s)) = (view s)(i \<mapsto> kvStateProcessed)"
    "view (snd (msg_Ack msg s)) \<in> {view s, (view s)(i \<mapsto> kvStateProcessed)}"
    "view (snd (msg_Nack msg s)) \<in> {view s, (view s)(i := None)}"
    unfolding ops by (erule ack_view(1) [OF m(2)]) (rule ack_view(2) [OF m(2)], rule nack_view [OF m(2)])
  show "view (snd (msg_Cancel msg s)) = view s" "view (snd (msg_Deadletter msg s)) = view s"
    "msg_InProgress msg = Some pr \<Longrightarrow> view (snd (pr s)) = view s"
    unfolding ops using m(2) by (auto simp: js_frame_def)
qed

lemma remove_inv:
  assumes "nats_inv k view r" "flight r = xs @ (i, msg) # ys"
    "view s' \<in> {view (srv r), (view (srv r))(i := x)}"
  shows "nats_inv k view (r\<lparr>srv := s', flight := xs @ ys\<rparr>)"
proof -
  have d: "distinct (map fst (flight r))" using assms(1) by (simp add: nats_inv_def)
  note sp = flight_ids_split [OF assms(2) d]
  have ids: "flight_ids (r\<lparr>srv := s', flight := xs @ ys\<rparr>) = flight_ids r - {i}"
    using sp(2) by (simp add: flight_ids_def)
  have "i \<notin> set (acked r)" using assms(1) sp(1) by (auto simp: nats_inv_def)
  then have "\<forall>j \<in> (flight_ids r - {i}) \<union> set (acked r). view s' j = view (srv r) j"
    using assms(3) by (auto split: if_splits)
  then show ?thesis using assms(1,2) sp unfolding nats_inv_def ids by auto
qed

lemma same_flight_inv:
  assumes "nats_inv k view r" "view s' \<in> {view (srv r), (view (srv r))(i \<mapsto> kvStateProcessed)}"
  shows "nats_inv k view (r\<lparr>srv := s'\<rparr>)"
proof -
  have ids: "flight_ids (r\<lparr>srv := s'\<rparr>) = flight_ids r" by (simp add: flight_ids_def)
  show ?thesis using assms unfolding nats_inv_def ids by auto
qed

lemma step_inv: "nats_reach k view pt um c r \<Longrightarrow> log_enabled (nopts c) \<Longrightarrow> nkv c = Some k \<Longrightarrow> nats_inv k view r"
proof (induction rule: nats_reach.induct)
  case (nats_init s)
  then show ?case by (simp add: nats_inv_def flight_ids_def)
next
  case (nats_deliver r m now fwd s')
  note h = handle_view [OF nats_deliver.hyps(2) nats_deliver.prems nats_deliver.hyps(3)]
  let ?i = "js_Header m ''Nats-Msg-Id''"
  have inv: "nats_inv k view r" using nats_deliver by blast
  have new: "?i \<notin> flight_ids r" "?i \<notin> set (acked r)" if "view (srv r) ?i = None"
    using inv that by (auto simp: nats_inv_def)
  show ?case
  proof (cases fwd)
    case None
    have ids: "flight_ids (r\<lparr>srv := s', flight := flight r @ []\<rparr>) = flight_ids r" by (simp add: flight_ids_def)
    have "view s' = view (srv r) \<or> view (srv r) ?i = None \<and> view s' = (view (srv r))(?i \<mapsto> kvStateProcessing)"
      using h None by simp
    then have "\<forall>j \<in> flight_ids r \<union> set (acked r). view s' j = view (srv r) j" using new by auto
    then show ?thesis using inv unfolding None option.case nats_inv_def ids by auto
  next
    case (Some msg)
    have v: "view (srv r) ?i = None" "view s' = (view (srv r))(?i \<mapsto> kvStateProcessing)" "nats_entry k view (?i, msg)"
      using h Some nats_deliver.hyps(2) by (auto simp: nats_entry_def)
    have ids: "flight_ids (r\<lparr>srv := s', flight := flight r @ [(?i, msg)]\<rparr>) = insert ?i (flight_ids r)"
      by (simp add: flight_ids_def)
    have "distinct (map fst (flight r @ [(?i, msg)]))"
      using inv new(1) [OF v(1)] by (simp add: nats_inv_def flight_ids_def)
    moreover have "\<forall>j \<in> flight_ids r \<union> set (acked r). view s' j = view (srv r) j" using new [OF v(1)] v(2) by auto
    ultimately show ?thesis using inv v new [OF v(1)] unfolding Some option.case nats_inv_def ids by auto
  qed
next
  case (nats_acked r xs i msg ys s')
  then have inv: "nats_inv k view r" by blast
  then have e: "nats_entry k view (i, msg)" using nats_acked.hyps(2) by (simp add: nats_inv_def)
  have v: "view s' = (view (srv r))(i \<mapsto> kvStateProcessed)" using entry_ops(1) [OF e, of "srv r"] nats_acked.hyps(3) by simp
  have d: "distinct (map fst (flight r))" using inv by (simp add: nats_inv_def)
  note sp = flight_ids_split [OF nats_acked.hyps(2) d]
  have ids: "flight_ids (r\<lparr>srv := s', flight := xs @ ys, acked := acked r @ [i]\<rparr>) = flight_ids r - {i}"
    using sp(2) by (simp add: flight_ids_def)
  have "i \<notin> set (acked r)" using inv sp(1) by (auto simp: nats_inv_def)
  then show ?case using inv sp(3) v nats_acked.hyps(2) unfolding nats_inv_def ids by auto
next
  case (nats_ack_retry r xs i msg ys e s')
  then have inv: "nats_inv k view r" by blast
  then have e: "nats_entry k view (i, msg)" using nats_ack_retry.hyps(2) by (simp add: nats_inv_def)
  have "view s' \<in> {view (srv r), (view (srv r))(i \<mapsto> kvStateProcessed)}"
    using entry_ops(2) [OF e, of "srv r"] nats_ack_retry.hyps(3) by simp
  then show ?case by (rule same_flight_inv [OF inv])
next
  case (nats_give_up r xs i msg ys e s')
  then have inv: "nats_inv k view r" by blast
  then have e: "nats_entry k view (i, msg)" using nats_give_up.hyps(2) by (simp add: nats_inv_def)
  show ?case by (rule remove_inv [OF inv nats_give_up.hyps(2), where x = "Some kvStateProcessed"])
      (use entry_ops(2) [OF e, of "srv r"] nats_give_up.hyps(3) in simp)
next
  case (nats_nacked r xs i msg ys res s')
  then have inv: "nats_inv k view r" by blast
  then have e: "nats_entry k view (i, msg)" using nats_nacked.hyps(2) by (simp add: nats_inv_def)
  show ?case by (rule remove_inv [OF inv nats_nacked.hyps(2), where x = None])
      (use entry_ops(3) [OF e, of "srv r"] nats_nacked.hyps(3) in simp)
next
  case (nats_dropped r xs i msg ys res s')
  then have inv: "nats_inv k view r" by blast
  then have e: "nats_entry k view (i, msg)" using nats_dropped.hyps(2) by (simp add: nats_inv_def)
  have "view s' = view (srv r)" using entry_ops(4,5) [OF e, of "srv r"] nats_dropped.hyps(3) by auto
  then show ?case by (intro remove_inv [OF inv nats_dropped.hyps(2), where x = None]) simp
next
  case (nats_beat r xs i msg ys pr)
  then have inv: "nats_inv k view r" by blast
  then have "nats_entry k view (i, msg)" using nats_beat.hyps(2) by (simp add: nats_inv_def)
  then have "view (snd (pr (srv r))) = view (srv r)" by (rule entry_ops(6)) (rule nats_beat.hyps(3))
  then show ?case by (intro same_flight_inv [OF inv, where i = i]) simp
qed

end

section \<open>Properties\<close>

text \<open>Property C3. As long as no key of the processed log expires (its time to live, an hour by default,
  exceeds the time in which a message can be redelivered): whatever the interleaving of deliveries and
  settlements, with failures of any operation, no two messages of one id are worked on at the same time,
  no id is acknowledged twice, and a redelivery of an id that is in progress or acknowledged is never
  handed on.\<close>

theorem nats_no_duplicates:
  assumes "processed_log k view" "log_enabled (nopts c)" "nkv c = Some k" "nats_reach k view pt um c r"
  shows "distinct (map fst (flight r)) \<and> distinct (acked r) \<and>
    (\<forall>m now fwd s'. js_frame view m \<and> js_Header m ''Nats-Msg-Id'' \<in> fst ` set (flight r) \<union> set (acked r) \<and>
       nats_handleMessage pt um c now m (srv r) = Ret (fwd, s') \<longrightarrow> fwd = None)"
proof -
  have inv: "nats_inv k view r" by (rule processed_log.step_inv [OF assms(1,4,2,3)])
  have "fwd = None"
    if "js_frame view m" "js_Header m ''Nats-Msg-Id'' \<in> fst ` set (flight r) \<union> set (acked r)"
      "nats_handleMessage pt um c now m (srv r) = Ret (fwd, s')" for m now fwd s'
  proof -
    have "view (srv r) (js_Header m ''Nats-Msg-Id'') \<noteq> None" using inv that(2) by (auto simp: nats_inv_def flight_ids_def)
    then show ?thesis
      using processed_log.handle_view [OF assms(1) that(1) assms(2,3) that(3)] by (cases fwd) auto
  qed
  moreover have "distinct (map fst (flight r)) \<and> distinct (acked r)" using inv by (simp add: nats_inv_def)
  ultimately show ?thesis by blast
qed

definition demo_nats :: "nats_server nats_consumer" where
  "demo_nats = \<lparr>nkv = Some server_kv, nopts = nats_withDefaults \<lparr>Backoff = [], MaxDelivery = 0, AckWait = 0, BatchSize = 0,
     FetchMaxWait = 0, ProcessLogEnabled = None, ProcessedLogTTL = 0, ProcessedLogReplicas = 0\<rparr>\<rparr>"

definition demo_job :: qjob where
  "demo_job = NewJob 0 ''7'' ''t'' [] []"

lemma demo_nats_simps:
  "log_enabled (nopts demo_nats)" "nkv demo_nats = Some server_kv"
  by (simp_all add: demo_nats_def nats_withDefaults_def log_enabled_def)

lemma nats_no_duplicates_witness:
  "\<exists>r :: nats_server nats_run. flight r = [(''7'', nats_newMessage demo_job (server_msg 0 ''7'' ''d'') (Some server_kv) ''7'')] \<and>
     (\<forall>now fwd s'. nats_handleMessage (\<lambda>_. 0) (\<lambda>_. Inr demo_job) demo_nats now (server_msg 1 ''7'' ''d'') (srv r) = Ret (fwd, s')
        \<longrightarrow> fwd = None)"
proof -
  let ?s = "\<lparr>kvs = Map.empty, up = True, acts = []\<rparr>" and ?s1 = "\<lparr>kvs = [''7'' \<mapsto> kvStateProcessing], up = True, acts = []\<rparr>"
  let ?m = "nats_newMessage demo_job (server_msg 0 ''7'' ''d'') (Some server_kv) ''7''"
  let ?r = "\<lparr>srv = ?s1, flight = [(''7'', ?m)], acked = []\<rparr>"
  have "nats_handleMessage (\<lambda>_. 0) (\<lambda>_. Inr demo_job) demo_nats 0 (server_msg 0 ''7'' ''d'') ?s = Ret (Some ?m, ?s1)"
    by (simp add: nats_handleMessage_def demo_nats_simps server_defs nats_decode_def DelayedHeader_def Let_def)
  then have "nats_reach server_kv kvs (\<lambda>_. 0) (\<lambda>_. Inr demo_job) demo_nats ?r"
    using nats_deliver [OF nats_init [of kvs ?s] server_frame [of 0 "''7''" "''d''"], of "\<lambda>_. 0" "\<lambda>_. Inr demo_job" demo_nats 0
        "Some ?m" ?s1 server_kv] by (simp add: server_msg_def)
  from nats_no_duplicates [OF server.processed_log_axioms demo_nats_simps this]
  have "fwd = None" if "nats_handleMessage (\<lambda>_. 0) (\<lambda>_. Inr demo_job) demo_nats now (server_msg 1 ''7'' ''d'') (srv ?r) = Ret (fwd, s')"
    for now fwd s' using that server_frame [of 1 "''7''" "''d''"] by (force simp: server_msg_def)
  then show ?thesis by (intro exI [of _ ?r]) simp
qed

text \<open>One NATS message is settled as its job deserves: acknowledged after success,
  terminated for \<open>ErrSkipRetry\<close>, terminated as a dead letter for \<open>ErrDeadLetter\<close> or without a handler,
  put back for any other error; in no other way, and not without the handler returning the server's error
  unless it was recorded.\<close>

theorem nats_message_settled:
  assumes "nats_settling k m log" "retry_laws retry"
  shows "\<exists>j. log (drv (snd (Consumer_handler retry c hub beats (nats_newMessage job m (Some k) i) w))) =
      log (drv w) @ replicate j (verdict c job) \<and>
    (fst (Consumer_handler retry c hub beats (nats_newMessage job m (Some k) i) w) = None \<longrightarrow> 1 \<le> j) \<and>
    j \<le> (if verdict c job = Acked then 3 else 1)"
proof -
  have "msg_Job (nats_newMessage job m (Some k) i) = job" by (simp add: nats_newMessage_def)
  then show ?thesis
    using message_driver.handler_settles [OF nats_settling.driver [OF assms(1), of job i] assms(2), of c hub beats w]
    by (auto simp: settled_by_def)
qed

lemma nats_message_settled_witness:
  "\<exists>j. act_log 4 (drv (snd (Consumer_handler retry_loop
      (NewConsumer 1 (\<lambda>s. (None, s)) None \<lparr>Concurrency = 0, AckAttempts = 0, AckBackoff = 0, HeartbeatInterval = 0\<rparr>) False 2
      (nats_newMessage demo_job (server_msg 4 ''7'' '''') (Some server_kv) ''7'')
      \<lparr>drv = \<lparr>kvs = Map.empty, up = True, acts = []\<rparr>, metrics = no_metrics, ran = []\<rparr>))) = replicate j Deadlettered \<and> j \<le> 1"
  using nats_message_settled [OF server_settling.nats_settling_axioms [of 4 "''7''" "''''"] retry_loop_laws,
      of "NewConsumer 1 (\<lambda>s. (None, s)) None \<lparr>Concurrency = 0, AckAttempts = 0, AckBackoff = 0, HeartbeatInterval = 0\<rparr>" False 2 demo_job "''7''"
      "\<lparr>drv = \<lparr>kvs = Map.empty, up = True, acts = []\<rparr>, metrics = no_metrics, ran = []\<rparr>"]
  by (auto simp: act_log_def verdict_def NewConsumer_def)

text \<open>Property C16. The NATS messages of a running consumer: in every interleaving of the driver, the workers,
  the cancellation and the shutdown, each message sent is in the channel, with a worker, or was handled
  once, and only there. It is unsettled until it is handled; a handling that returns no error has settled
  it as its job deserves, and one that returns an error may have done so (the server's reply was lost);
  no message is settled in any other way, and only an acknowledgement is ever sent more than once, by
  its three attempts.\<close>

theorem nats_messages_settled_once:
  assumes "nats_family k m log" "retry_laws retry" "\<And>n s. log n (snd (c_close c s)) = log n s"
    and "Consume_start start c w = Ret (Inr r0)" "consume_acts retry c as r0 = Some r"
    and "sent as = map (\<lambda>n. nats_newMessage (job n) (m n) (Some k) (i n)) ns" "distinct ns"
  shows "\<exists>hs bs cs. handled retry c as r0 = map (\<lambda>(n, e). (nats_newMessage (job n) (m n) (Some k) (i n), e)) hs \<and>
    busy r = map (\<lambda>n. nats_newMessage (job n) (m n) (Some k) (i n)) bs \<and>
    chan r = map (\<lambda>n. nats_newMessage (job n) (m n) (Some k) (i n)) cs \<and>
    mset (map fst hs @ bs @ cs) = mset ns \<and>
    (\<forall>n \<in> set (bs @ cs). log n (drv (rworld r)) = log n (drv (rworld r0))) \<and>
    (\<forall>(n, e) \<in> set hs. \<exists>j. log n (drv (rworld r)) = log n (drv (rworld r0)) @ replicate j (verdict c (job n)) \<and>
       (e = None \<longrightarrow> 1 \<le> j) \<and> j \<le> (if verdict c (job n) = Acked then 3 else 1))"
proof -
  have j: "msg_Job (nats_newMessage (job n) (m n) (Some k) (i n)) = job n" for n by (simp add: nats_newMessage_def)
  from message_family.settled_once [OF nats_family.family [OF assms(1)] assms(2,3) start_state(2,3) [OF assms(4)] assms(5-7)]
  obtain hs bs cs where f: "handled retry c as r0 = map (\<lambda>(n, e). (nats_newMessage (job n) (m n) (Some k) (i n), e)) hs"
    "busy r = map (\<lambda>n. nats_newMessage (job n) (m n) (Some k) (i n)) bs"
    "chan r = map (\<lambda>n. nats_newMessage (job n) (m n) (Some k) (i n)) cs" "mset (map fst hs @ bs @ cs) = mset ns"
    "\<forall>n \<in> set (bs @ cs). log n (drv (rworld r)) = log n (drv (rworld r0))"
    "\<forall>(n, e) \<in> set hs. \<exists>j. log n (drv (rworld r)) = log n (drv (rworld r0)) @ replicate j (verdict c (job n)) \<and>
       settled_by (nats_newMessage (job n) (m n) (Some k) (i n)) (verdict c (job n)) e j"
    unfolding j by (elim exE conjE) (rule that, assumption+)
  have "\<forall>(n, e) \<in> set hs. \<exists>j. log n (drv (rworld r)) = log n (drv (rworld r0)) @ replicate j (verdict c (job n)) \<and>
       (e = None \<longrightarrow> 1 \<le> j) \<and> j \<le> (if verdict c (job n) = Acked then 3 else 1)"
  proof
    fix p
    assume "p \<in> set hs"
    obtain n e where p: "p = (n, e)" by fastforce
    obtain j where "log n (drv (rworld r)) = log n (drv (rworld r0)) @ replicate j (verdict c (job n))"
      "settled_by (nats_newMessage (job n) (m n) (Some k) (i n)) (verdict c (job n)) e j"
      using bspec [OF f(6) \<open>p \<in> set hs\<close>] unfolding p by auto
    then show "case p of (n, e) \<Rightarrow> \<exists>j. log n (drv (rworld r)) = log n (drv (rworld r0)) @ replicate j (verdict c (job n)) \<and>
       (e = None \<longrightarrow> 1 \<le> j) \<and> j \<le> (if verdict c (job n) = Acked then 3 else 1)"
      unfolding p prod.case by (intro exI [of _ j]) (auto simp: settled_by_def)
  qed
  then show ?thesis by (intro exI [of _ hs] exI [of _ bs] exI [of _ cs] conjI) (rule f, rule f, rule f, rule f, rule f)
qed

definition nats_one :: "nats_server Consumer" where
  "nats_one = RegisterHandler ''t'' (\<lambda>_. None) (NewConsumer 1 (\<lambda>s. (None, s)) None
     \<lparr>Concurrency = 1, AckAttempts = 0, AckBackoff = 0, HeartbeatInterval = 0\<rparr>)"

lemma nats_one_simps:
  "c_close nats_one = (\<lambda>s. (None, s))" "Concurrency (c_opts nats_one) = 1" "c_handlers nats_one ''t'' = Some (\<lambda>_. None)"
  by (simp_all add: nats_one_def RegisterHandler_def NewConsumer_def ConsumerOpts_withDefaults_def Let_def)

lemma nats_messages_settled_once_witness:
  "\<exists>r0 r j. Consume_start (\<lambda>s. (None, s)) nats_one \<lparr>drv = \<lparr>kvs = Map.empty, up = True, acts = []\<rparr>, metrics = no_metrics, ran = []\<rparr> = Ret (Inr r0) \<and>
     consume_acts retry_loop nats_one [CSend (nats_newMessage demo_job (server_msg 4 ''7'' '''') (Some server_kv) ''7''), CTake, CHandle 0 False 1] r0 = Some r \<and>
     act_log 4 (drv (rworld r)) = replicate j Acked \<and> 1 \<le> j"
proof -
  let ?w = "\<lparr>drv = \<lparr>kvs = Map.empty, up = True, acts = []\<rparr>, metrics = no_metrics, ran = []\<rparr> :: nats_server world"
  let ?m = "nats_newMessage demo_job (server_msg 4 ''7'' '''') (Some server_kv) ''7''"
  let ?as = "[CSend ?m, CTake, CHandle 0 False 1]"
  obtain r0 where r0: "Consume_start (\<lambda>s. (None, s)) nats_one ?w = Ret (Inr r0)"
    by (simp add: Consume_start_def nats_one_simps on_drv_def)
  have job: "job_Task demo_job = ''t''" "Payload demo_job = []" by (simp_all add: demo_job_def NewJob_def)
  obtain r where r: "consume_acts retry_loop nats_one ?as r0 = Some r" "busy r = []" "chan r = []" "rworld r0 = ?w"
    "map snd (handled retry_loop nats_one ?as r0) = [None]"
    using r0 by (auto simp: Consume_start_def nats_one_simps on_drv_def remove_nth_def Consumer_handler_def nats_newMessage_def job
        nats_Ack_def nats_InProgress_def server_defs numeral_3_eq_3)
  have cl: "act_log n (snd (c_close nats_one s)) = act_log n s" for n s by (simp add: nats_one_simps)
  have se: "sent ?as = map (\<lambda>n. nats_newMessage demo_job (server_msg n ''7'' '''') (Some server_kv) ''7'') [4]" by simp
  have di: "distinct [4 :: nat]" by simp
  obtain hs bs cs where f: "handled retry_loop nats_one ?as r0 =
      map (\<lambda>(n, e). (nats_newMessage demo_job (server_msg n ''7'' '''') (Some server_kv) ''7'', e)) hs"
    "busy r = map (\<lambda>n. nats_newMessage demo_job (server_msg n ''7'' '''') (Some server_kv) ''7'') bs"
    "chan r = map (\<lambda>n. nats_newMessage demo_job (server_msg n ''7'' '''') (Some server_kv) ''7'') cs"
    "mset (map fst hs @ bs @ cs) = mset [4]"
    "\<forall>(n, e) \<in> set hs. \<exists>j. act_log n (drv (rworld r)) = act_log n (drv (rworld r0)) @ replicate j (verdict nats_one demo_job) \<and>
       (e = None \<longrightarrow> 1 \<le> j) \<and> j \<le> (if verdict nats_one demo_job = Acked then 3 else 1)"
    using nats_messages_settled_once [where job = "\<lambda>_. demo_job" and i = "\<lambda>_. ''7''" and m = "\<lambda>n. server_msg n ''7'' ''''" and k = server_kv,
        OF server_family.nats_family_axioms retry_loop_laws cl r0 r(1) se di]
    by (elim exE conjE) (rule that, assumption+)
  have "bs = []" "cs = []" using f(2,3) r(2,3) by simp_all
  then have "map fst hs = [4]" using f(4) by (cases hs) auto
  moreover have "map snd hs = [None]" using r(5) f(1) by (simp add: comp_def split_def)
  ultimately have "hs = [(4, None)]" by (cases hs) auto
  then obtain j where "act_log 4 (drv (rworld r)) = act_log 4 (drv (rworld r0)) @ replicate j (verdict nats_one demo_job)" "1 \<le> j"
    using f(5) by auto
  then show ?thesis using r0 r(1,4) by (intro exI [of _ r0] exI [of _ r] exI [of _ j]) (auto simp: verdict_def nats_one_simps job act_log_def)
qed

text \<open>A message that is not due yet is put back with the time that remains and claims
  nothing, so that its delivery when due is not taken for a duplicate.\<close>

theorem nats_delay_before_claim:
  assumes "log_enabled (nopts c) \<longrightarrow> nkv c \<noteq> None" "js_Header m ''Nats-Msg-Id'' \<noteq> ''''" "js_Header m DelayedHeader \<noteq> ''''"
    "now < pt (js_Header m DelayedHeader)"
  shows "nats_handleMessage pt um c now m s = Ret (None, snd (js_NakWithDelay m (pt (js_Header m DelayedHeader) - now) s))"
  using assms by (auto simp: nats_handleMessage_def Let_def)

lemma nats_delay_before_claim_witness:
  "nats_handleMessage (\<lambda>_. 90) (\<lambda>_. Inr demo_job) demo_nats 30
     ((server_msg 1 ''7'' ''d'')\<lparr>js_Header := (\<lambda>h. if h = DelayedHeader then ''t'' else ''7'')\<rparr>)
     \<lparr>kvs = Map.empty, up = True, acts = []\<rparr> =
   Ret (None, \<lparr>kvs = Map.empty, up = True, acts = [(1, Nacked)]\<rparr>)"
  by (subst nats_delay_before_claim) (simp_all add: DelayedHeader_def server_defs demo_nats_simps)

text \<open>A message whose job cannot be decoded is put back, but the claim it made is kept:
  the log still says that its id is being processed, so that its redeliveries are put back as
  duplicates until the key expires.\<close>

theorem undecodable_keeps_claim:
  assumes "processed_log k view" "log_enabled (nopts c)" "nkv c = Some k" "js_frame view m"
    "js_Header m ''Nats-Msg-Id'' = i" "i \<noteq> ''''" "js_Header m DelayedHeader = ''''"
    "fst (kv_Create k i kvStateProcessing s) = None" "um (js_Data m) = Inl err"
  shows "\<exists>s'. nats_handleMessage pt um c now m s = Ret (None, s') \<and> view s' i = Some kvStateProcessing"
proof -
  obtain s1 where s1: "kv_Create k i kvStateProcessing s = (None, s1)"
    using assms(8) by (cases "kv_Create k i kvStateProcessing s") auto
  then have "view s1 = (view s)(i \<mapsto> kvStateProcessing)"
    using processed_log.create_ok [OF assms(1), of i kvStateProcessing s] by simp
  moreover have "nats_handleMessage pt um c now m s = Ret (None, snd (js_Nak m s1))"
    using assms(2,3,5-7,9) s1 by (simp add: nats_handleMessage_def nats_decode_def)
  ultimately show ?thesis using assms(4) by (simp add: js_frame_def)
qed

lemma undecodable_keeps_claim_witness:
  "\<exists>s'. nats_handleMessage (\<lambda>_. 0) (\<lambda>_. Inl (EOther ''bad json'')) demo_nats 0 (server_msg 1 ''7'' ''d'')
      \<lparr>kvs = Map.empty, up = True, acts = []\<rparr> = Ret (None, s') \<and> kvs s' ''7'' = Some kvStateProcessing"
  by (rule undecodable_keeps_claim [OF server.processed_log_axioms demo_nats_simps server_frame])
    (simp_all add: server_defs DelayedHeader_def)

text \<open>A closed connection refuses every operation and stays closed.\<close>

definition refuses :: "('s \<Rightarrow> bool) \<Rightarrow> ('s \<Rightarrow> string \<Rightarrow> string option) \<Rightarrow> 's effect \<Rightarrow> bool" where
  "refuses closed view f \<longleftrightarrow>
     (\<forall>s. closed s \<longrightarrow> fst (f s) \<noteq> None \<and> closed (snd (f s)) \<and> view (snd (f s)) = view s)"

definition dead_msg :: "('s \<Rightarrow> bool) \<Rightarrow> ('s \<Rightarrow> string \<Rightarrow> string option) \<Rightarrow> 's kv_store \<Rightarrow> 's js_msg \<Rightarrow> bool" where
  "dead_msg closed view k m \<longleftrightarrow>
     refuses closed view (js_DoubleAck m) \<and> refuses closed view (js_InProgress m) \<and>
     (\<forall>i v. refuses closed view (kv_Put k i v))"

lemma drained_handler:
  assumes "retry_laws retry" "dead_msg closed view k m" "closed (drv w)" "c_handlers c (job_Task job) = Some h" "h (Payload job) = None"
  shows "fst (Consumer_handler retry c hub beats (nats_newMessage job m (Some k) i) w) \<noteq> None \<and>
    closed (drv (snd (Consumer_handler retry c hub beats (nats_newMessage job m (Some k) i) w))) \<and>
    view (drv (snd (Consumer_handler retry c hub beats (nats_newMessage job m (Some k) i) w))) = view (drv w) \<and>
    ran (snd (Consumer_handler retry c hub beats (nats_newMessage job m (Some k) i) w)) = ran w @ [job]"
proof -
  let ?ack = "nats_Ack (Some k) i m"
  have ack: "fst (?ack s) \<noteq> None \<and> closed (snd (?ack s)) \<and> view (snd (?ack s)) = view s" if "closed s" for s
  proof -
    have "fst (kv_Put k i kvStateProcessed s) \<noteq> None \<and> closed (snd (kv_Put k i kvStateProcessed s)) \<and>
        view (snd (kv_Put k i kvStateProcessed s)) = view s"
      using assms(2) that by (simp add: dead_msg_def refuses_def)
    then show ?thesis by (cases "kv_Put k i kvStateProcessed s") (auto simp: nats_Ack_def)
  qed
  have beat: "closed (heartbeat n (js_InProgress m) s) \<and> view (heartbeat n (js_InProgress m) s) = view s" if "closed s" for n s
    using that by (induction n arbitrary: s) (use assms(2) in \<open>auto simp: dead_msg_def refuses_def\<close>)
  have r: "fst (retry ?ack 3 d s) \<noteq> None" "closed (snd (retry ?ack 3 d s))" "view (snd (retry ?ack 3 d s)) = view (drv w)"
    if "closed s" "view s = view (drv w)" for d s
    using retry_3 [OF assms(1), where P = "\<lambda>x. closed x \<and> view x = view (drv w)" and Q = "\<lambda>_. False" and f = ?ack and s = s and d = d]
      ack that by (auto split: if_splits)
  show ?thesis
    using r [of "heartbeat beats (js_InProgress m) (drv w)"] beat [OF assms(3), of beats] assms(4,5)
    by (simp add: Consumer_handler_def nats_newMessage_def nats_InProgress_def Let_def)
qed


definition nats_demo :: "nats_server Consumer" where
  "nats_demo = RegisterHandler ''t'' (\<lambda>_. None) (NewConsumer 1 (nats_Close (\<lambda>s. s\<lparr>up := False\<rparr>)) None
     \<lparr>Concurrency = 0, AckAttempts = 0, AckBackoff = 0, HeartbeatInterval = 0\<rparr>)"

lemma server_dead: "dead_msg (\<lambda>s. \<not> up s) kvs server_kv (server_msg n i data)"
  by (simp add: dead_msg_def refuses_def server_defs)


text \<open>The producer of \<open>queue\<close> on this driver: a job without an id of its own among its
  options is published under its id to the subject of its first queue and its task, and carries the
  time of its last option \<open>At\<close> or \<open>After\<close> in the header that delays it.\<close>

theorem nats_push:
  assumes "\<forall>opt \<in> set (Options job). opt_Type opt \<noteq> IDOpt"
    "marshal (job\<lparr>Options := Options job @ [withID (job_ID job)]\<rparr>) = Inr by"
  shows "Producer_Push (nats_Push rfc3339 marshal publish now fresh) job s =
     publish \<lparr>Subject = QueueFromOptions (Options job) @ ''.'' @ job_Task job,
              Header = (let t = run_at now (Options job) in if t = 0 then [] else [(DelayedHeader, rfc3339 t)]), Data = by\<rparr>
       [WithMsgID (job_ID job)] s"
proof -
  have "foldl (\<lambda>(out, h) opt. case opt of iDOption i \<Rightarrow> (out @ [WithMsgID i], True) | _ \<Rightarrow> (out, h)) a xs = a"
    if "\<forall>opt \<in> set xs. opt_Type opt \<noteq> IDOpt" for a :: "publish_opt list \<times> bool" and xs
    using that
  proof (induction xs arbitrary: a)
    case (Cons x xs)
    then show ?case by (cases x; cases a) auto
  qed simp
  then have "jsOptsFromQueueOpts fresh (Options job @ [iDOption i]) = [WithMsgID i]" for i
    using assms(1) by (simp add: jsOptsFromQueueOpts_def)
  moreover have "QueueFromOptions (xs @ [iDOption i]) = QueueFromOptions xs" for xs i
    by (induction xs) auto
  moreover have "run_at now (xs @ [iDOption i]) = run_at now xs" for xs i by (simp add: run_at_def)
  ultimately show ?thesis using assms(2) by (simp add: Producer_Push_def nats_Push_def withID_def Let_def)
qed

lemma nats_push_witness:
  "Producer_Push (nats_Push (\<lambda>t. ''T'') (\<lambda>j. Inr (Payload j)) (\<lambda>m o' s. (None, s @ [(m, o')])) 100 ''r'')
     (NewJob 0 ''7'' ''t'' [1] [After 5, OnQueue ''mail'']) [] =
   (None, [(\<lparr>Subject = ''mail.t'', Header = [(''Nak-Until'', ''T'')], Data = [1]\<rparr>, [WithMsgID ''7''])])"
  by (subst nats_push) (simp_all add: NewJob_def After_def OnQueue_def run_at_def DelayedHeader_def)

end
