(* ===== verification/Nats_Shutdown.thy ===== *)
theory Nats_Shutdown
  imports Queue_Nats
begin

text \<open>
  What the NATS driver does with the jobs that run when the consumer's context is cancelled. The workers
  of \<open>queue/consumer.go\<close> pass that context on to the message (\<open>queue/nats/message.go\<close>), whose
  key-value operations and \<open>DoubleAck\<close> fail once it is done; \<open>Nak\<close>, \<open>Term\<close> and \<open>InProgress\<close> take no
  context.
\<close>

section \<open>Operations under a context\<close>

definition unless_done :: "bool \<Rightarrow> 's effect \<Rightarrow> 's effect" where
  "unless_done gone f s = (if gone then (Some (ESentinel ContextCanceled), s) else f s)"

definition ctx_kv :: "bool \<Rightarrow> 's kv_store \<Rightarrow> 's kv_store" where
  "ctx_kv gone k =
     \<lparr>kv_Create = (\<lambda>i v. unless_done gone (kv_Create k i v)),
      kv_Get = (\<lambda>i s. if gone then (Inl (ESentinel ContextCanceled), s) else kv_Get k i s),
      kv_Put = (\<lambda>i v. unless_done gone (kv_Put k i v)), kv_Delete = (\<lambda>i. unless_done gone (kv_Delete k i))\<rparr>"

definition ctx_msg :: "bool \<Rightarrow> 's js_msg \<Rightarrow> 's js_msg" where
  "ctx_msg gone m = m\<lparr>js_DoubleAck := unless_done gone (js_DoubleAck m)\<rparr>"

lemma unless_done_simps [simp]: "unless_done False f = f" "unless_done True f = (\<lambda>s. (Some (ESentinel ContextCanceled), s))"
  by (simp_all add: unless_done_def fun_eq_iff)

lemma ctx_live [simp]: "ctx_kv False k = k" "ctx_msg False m = m"
  by (simp_all add: ctx_kv_def ctx_msg_def)

text \<open>A log whose operations may be cancelled is still one.\<close>

lemma ctx_processed_log: "processed_log k view \<Longrightarrow> processed_log (ctx_kv gone k) view"
  by (cases gone) (simp_all add: processed_log_def ctx_kv_def unless_done_def)

lemma ctx_frame: "js_frame view m \<Longrightarrow> js_frame view (ctx_msg gone m)"
  by (simp add: js_frame_def ctx_msg_def unless_done_def)

lemma ack_cancelled:
  "fst (nats_Ack (Some (ctx_kv True k)) i m s) \<noteq> None \<and> snd (nats_Ack (Some (ctx_kv True k)) i m s) = s"
  by (simp add: nats_Ack_def ctx_kv_def unless_done_def)

lemma nack_cancelled: "nats_Nack (Some (ctx_kv True k)) i m = js_Nak m"
  by (rule ext) (simp add: nats_Nack_def ctx_kv_def unless_done_def)

text \<open>All that is needed of the retry helper here, whether it looks at the context or not: what always fails
  without effect, fails without effect.\<close>

definition retry_in_vain :: "'s retrier \<Rightarrow> bool" where
  "retry_in_vain retry \<longleftrightarrow>
     (\<forall>f n d s. (\<forall>s'. fst (f s') \<noteq> None \<and> snd (f s') = s') \<longrightarrow> fst (retry f (Suc n) d s) \<noteq> None \<and> snd (retry f (Suc n) d s) = s)"

lemma retry_laws_in_vain:
  assumes "retry_laws retry"
  shows "retry_in_vain retry"
  unfolding retry_in_vain_def
proof (intro allI impI)
  fix f :: "'a effect" and n d s
  assume f: "\<forall>s'. fst (f s') \<noteq> None \<and> snd (f s') = s'"
  show "fst (retry f (Suc n) d s) \<noteq> None \<and> snd (retry f (Suc n) d s) = s"
    using retry_result [OF assms, where P = "\<lambda>x. x = s" and Q = "\<lambda>_. False" and f = f and n = n and d = d and s = s] f
    by (auto split: if_splits)
qed

lemma heartbeat_ctx: "js_frame view m \<Longrightarrow> view (heartbeat n (js_InProgress (ctx_msg gone m)) s) = view s"
  by (induction n arbitrary: s) (simp_all add: js_frame_def ctx_msg_def)

section \<open>Properties\<close>

text \<open>Property C17. A job that is still running when the consumer's context is cancelled keeps its claim in the
  processed log, however it ends: a success cannot be acknowledged and is reported as an error; an error
  that wraps \<open>ErrSkipRetry\<close> or \<open>ErrDeadLetter\<close> terminates the message; any other error puts the message back
  with \<open>Nak\<close>, but does not release its id. A redelivery of the message is not handed on while the claim
  stays in the log.\<close>

theorem inflight_keeps_claim:
  assumes "processed_log k view" "js_frame view m" "retry_in_vain retry" "c_handlers C (job_Task job) = Some h"
    and "Consumer_handler retry C hub beats (nats_newMessage job (ctx_msg True m) (Some (ctx_kv True k)) i) w = (res, w')"
  shows "ran w' = ran w @ [job] \<and> view (drv w') = view (drv w) \<and>
    (let s = heartbeat beats (js_InProgress m) (drv w)
     in case h (Payload job) of
          None \<Rightarrow> res \<noteq> None \<and> drv w' = s
        | Some err \<Rightarrow> (res, drv w') =
            (if errors_Is err ErrSkipRetry then js_Term m s
             else if errors_Is err ErrDeadLetter then js_TermWithReason m ''deadlettered'' s
             else js_Nak m s)) \<and>
    (\<forall>c pt um now m2 fwd s3. view (drv w) i \<noteq> None \<and> log_enabled (nopts c) \<and> nkv c = Some k \<and> js_frame view m2 \<and>
       js_Header m2 ''Nats-Msg-Id'' = i \<and> nats_handleMessage pt um c now m2 (drv w') = Ret (fwd, s3) \<longrightarrow> fwd = None)"
proof -
  let ?m = "ctx_msg True m" and ?ack = "nats_Ack (Some (ctx_kv True k)) i (ctx_msg True m)"
  have v: "view (heartbeat n (js_InProgress ?m) s) = view s" for n s by (rule heartbeat_ctx [OF assms(2)])
  have fr: "js_frame view ?m" by (rule ctx_frame [OF assms(2)])
  have r: "fst (retry ?ack 3 d s) \<noteq> None \<and> snd (retry ?ack 3 d s) = s" for d s
    using assms(3) [unfolded retry_in_vain_def, rule_format, of ?ack 2 d s] ack_cancelled [of k i ?m]
    by (simp add: numeral_3_eq_3)
  have p: "js_InProgress ?m = js_InProgress m" by (simp add: ctx_msg_def)
  have w': "ran w' = ran w @ [job]" "view (drv w') = view (drv w)"
    using assms(4) arg_cong [OF assms(5), of fst] arg_cong [OF assms(5), of snd] fr v r
    by (auto simp: Consumer_handler_def nats_newMessage_def nats_InProgress_def nack_cancelled nats_Cancel_def nats_Deadletter_def
        Let_def js_frame_def split: option.splits if_splits)
  have out: "let s = heartbeat beats (js_InProgress m) (drv w)
     in case h (Payload job) of
          None \<Rightarrow> res \<noteq> None \<and> drv w' = s
        | Some err \<Rightarrow> (res, drv w') =
            (if errors_Is err ErrSkipRetry then js_Term m s
             else if errors_Is err ErrDeadLetter then js_TermWithReason m ''deadlettered'' s
             else js_Nak m s)"
    using assms(4) arg_cong [OF assms(5), of fst] arg_cong [OF assms(5), of snd] r
    by (auto simp: Consumer_handler_def nats_newMessage_def nats_InProgress_def nack_cancelled nats_Cancel_def nats_Deadletter_def
        Let_def p prod_eq_iff ctx_msg_def split: option.splits)
  have "fwd = None"
    if "view (drv w) i \<noteq> None" "log_enabled (nopts c)" "nkv c = Some k" "js_frame view m2" "js_Header m2 ''Nats-Msg-Id'' = i"
      "nats_handleMessage pt um c now m2 (drv w') = Ret (fwd, s3)" for c pt um now m2 fwd s3
    using processed_log.handle_view [OF assms(1) that(4,2,3,6)] that(1,5) w'(2) by (cases fwd) auto
  then show ?thesis using w' out by blast
qed

lemma inflight_keeps_claim_witness:
  "\<exists>res w'. Consumer_handler retry_loop nats_demo False 0
      (nats_newMessage demo_job (ctx_msg True (server_msg 4 ''7'' '''')) (Some (ctx_kv True server_kv)) ''7'')
      \<lparr>drv = \<lparr>kvs = [''7'' \<mapsto> kvStateProcessing], up = True, acts = []\<rparr>, metrics = no_metrics, ran = []\<rparr> = (res, w') \<and>
    res \<noteq> None \<and> ran w' = [demo_job] \<and> kvs (drv w') ''7'' = Some kvStateProcessing \<and>
    (\<forall>pt um now fwd s3. nats_handleMessage pt um demo_nats now (server_msg 5 ''7'' '''') (drv w') = Ret (fwd, s3) \<longrightarrow> fwd = None)"
proof -
  let ?w = "\<lparr>drv = \<lparr>kvs = [''7'' \<mapsto> kvStateProcessing], up = True, acts = []\<rparr>, metrics = no_metrics, ran = []\<rparr>"
  let ?msg = "nats_newMessage demo_job (ctx_msg True (server_msg 4 ''7'' '''')) (Some (ctx_kv True server_kv)) ''7''"
  obtain res w' where r: "Consumer_handler retry_loop nats_demo False 0 ?msg ?w = (res, w')" by fastforce
  have h: "c_handlers nats_demo (job_Task demo_job) = Some (\<lambda>_. None)"
    by (simp add: nats_demo_def RegisterHandler_def NewConsumer_def demo_job_def NewJob_def)
  have i: "js_Header (server_msg 5 ''7'' '''') ''Nats-Msg-Id'' = ''7''" by (simp add: server_msg_def)
  have t: "fwd = None" if "nats_handleMessage pt um demo_nats now (server_msg 5 ''7'' '''') (drv w') = Ret (fwd, s3)" for pt um now fwd s3
    by (rule conjunct2 [OF conjunct2 [OF conjunct2 [OF inflight_keeps_claim
          [OF server.processed_log_axioms server_frame retry_laws_in_vain [OF retry_loop_laws] h r]]], rule_format])
      (use that demo_nats_simps server_frame i in auto)
  have "ran w' = [demo_job] \<and> kvs (drv w') = [''7'' \<mapsto> kvStateProcessing] \<and> res \<noteq> None"
    using inflight_keeps_claim [OF server.processed_log_axioms server_frame retry_laws_in_vain [OF retry_loop_laws] h r]
    by (simp add: Let_def)
  then show ?thesis using r t by (intro exI [of _ res] exI [of _ w']) auto
qed

end
