(* ===== verification/Spec2Isabelle.thy ===== *)
theory Spec2Isabelle
  imports Platform Log_Context Config_Parser Worker_Runner Uuid String_Duration Crypto_Keys Idempotency_Lease Http_Lifecycle
    Caches Bus_Progress Consumer_Machine Queue_Asynq Nats_Shutdown
begin

text \<open>
  Verification of windowframe, a Go library for services: an event bus, job queues over Redis and
  NATS, an HTTP server with typed handlers, caches, workers that run on one process of several, and the
  small codecs and wrappers around them. Every theory models the code of the packages it names; the
  definitions carry the names of the Go functions, with a prefix where two packages share a name.

  \<^bold>\<open>Conventions.\<close> Go errors are the datatype of \<open>Prelude\<close>, walked by \<open>errors_Is\<close> and
  \<open>errors_As\<close>; a result \<open>(T, error)\<close> is a sum with the error on the left, and a function that can
  panic returns an \<open>outcome\<close>. Strings are byte lists. Durations and the
  other \<open>int64\<close> values are 64-bit words, read with \<open>sint\<close>; instants are unbounded integers of
  nanoseconds, and the \<open>int\<close> fields of options that only count (\<open>Concurrency\<close>, \<open>AckAttempts\<close>) are unbounded as well. Goroutines are components of
  a state, and one action is one operation on a channel, a wait group, a lock or a map; the runs are all
  interleavings of the actions. Libraries are parameters: functions, or records of the operations the code
  calls, and what the code needs of them is a locale or a named predicate that is discharged on a
  concrete instance.

  \<^bold>\<open>The parts and their theories.\<close>

  \<^item> \<open>Prelude\<close>, \<open>Go_Text\<close>, \<open>Go_Duration\<close>: errors, results, lists; the operations of \<open>strings\<close>,
    \<open>strconv\<close>, \<open>regexp\<close> and \<open>time\<close> that the repository uses, with 64-bit wrap-around and the one
    \<open>float64\<close> rounding of \<open>time.ParseDuration\<close>.
  \<^item> \<open>Event_Bus\<close>, \<open>Bus_Progress\<close> (\<open>events/\<close>): listeners by type name, dispatches, the channel of
    capacity 100, the workers of \<open>Run\<close>, the drainer of \<open>Flush\<close>. The wait group counts exactly the jobs
    that are armed and not finished. The two waits of \<open>Flush\<close> are two steps: when it returns, the jobs
    armed before its call have run, and all have when no dispatch was in progress; a job that is armed
    between the waits may stay behind (\<open>flush_leaves_concurrent_job\<close>), and one that reaches the channel
    after the drainer has left keeps a \<open>Flush\<close> in its first wait for ever. A result channel carries one
    result per listener that does not panic. A measure of the work left bounds the internal steps, so
    that the bus comes to rest and a flush that no dispatch disturbs returns.
  \<^item> \<open>Queue_Core\<close>, \<open>Queue_Producer\<close>, \<open>Consumer_Machine\<close>, \<open>Consumer_Settling\<close> (\<open>queue/\<close>): jobs, options, the
    producer with its observer, the handler of a message with its retries
    and heartbeat, the observers, and \<open>Consume\<close> as a machine of a channel, workers and a shutdown. The
    retry helper is a parameter that makes up to 3 attempts. A message is settled in one way
    only, as its job deserves; no message is lost or handled twice in any interleaving; once the workers are gone the
    shutdown of the machine is the sequential one, and before that it may wait for ever. The
    contract of a driver, \<open>message_driver\<close> for one message and \<open>message_family\<close> for many, lets an operation
    that fails have been carried out all the same, as when only the reply was lost; the log of
    settlements of each message in any run follows from the results of its handlings (\<open>handled\<close>).
  \<^item> \<open>Queue_Asynq\<close>, \<open>Queue_Nats\<close> (\<open>queue/asynq/\<close>, \<open>queue/nats/\<close>): the drivers, which interpret the interfaces
    \<open>message_driver\<close> and \<open>message_family\<close> of the consumer. The NATS driver keeps a log of processed ids in a key-value store, whose
    laws are the locale \<open>processed_log\<close>: no id is worked on twice at a time or after its acknowledgement. That
    result and the theorem of this file are about messages that are redelivered before their key expires
    (after \<open>ProcessedLogTTL\<close>, an hour by default). \<open>Nats_Shutdown\<close>: what becomes of
    the jobs that run when the context of the consumer, which the message's operations are given, is
    cancelled; in the other theories that context is not done.
  \<^item> \<open>Http_Server\<close> (\<open>http/\<close>, \<open>http/validation/\<close>, \<open>http/httperrors/\<close>, \<open>http/handlers/\<close>): registration, the wrapper that
    decodes, validates and runs a handler, the table of errors and statuses, the operations of the openapi
    document. \<open>Http_Lifecycle\<close>: \<open>Start\<close> and concurrent \<open>Stop\<close>s as a machine on the fields they share; a stop that
    returns because the server is done has stopped it, one that comes too early is lost; the context that \<open>Start\<close>
    is given may end by itself. \<open>Idempotency\<close> (\<open>http/middleware/\<close>): a request per key runs once and is
    replayed, over a store whose contract is a locale that the Redis store interprets; the middleware is a
    run of the machine of interleaved requests. \<open>Idempotency_Lease\<close> lets the keys expire: leases exclude each
    other as long as all of them are kept.
  \<^item> \<open>Log_Context\<close> (\<open>log/\<close>, \<open>http/common/\<close>, the logging middlewares): values put on a request's context and the
    lines made of them. Contexts obey the laws of \<open>context.WithValue\<close>, as a locale.
  \<^item> \<open>Caches\<close> (\<open>cache/\<close>): the four caches against one contract of a cache with expiry, and the locked regions
    of the expiring cache interleaved.
  \<^item> \<open>Worker_Runner\<close> (\<open>workers/\<close>): the locker of a process, whose test of the leadership and whose entry in
    the map are two steps, a cluster of processes that each have their own view of the election, the monitor
    and the registration of workers.
  \<^item> \<open>Config_Parser\<close> (\<open>config/\<close>): the parser over its extractors and the walk of the flag extractor over
    nested structs by reflection, with the failures of reflection; a configuration keeps its types.
  \<^item> \<open>String_Duration\<close>, \<open>Uuid\<close>, \<open>Crypto_Keys\<close> (\<open>duration/\<close>, \<open>uuid/\<close>, \<open>crypto/\<close>): codecs and their round trips,
    durations that count days, ordered ids, textual keys.
  \<^item> \<open>Platform\<close> (\<open>comms/\<close>, \<open>storage/\<close>, \<open>database/postgres/\<close>, \<open>redis/\<close>, \<open>profiling/\<close>, \<open>tracing/\<close>, \<open>otel/\<close>, \<open>grpc/\<close>): the
    decisions these packages take around the libraries they call.

  The last section of this theory follows one job through the producer, the NATS driver and the consumer.

  \<^bold>\<open>Parameters.\<close> JetStream, asynq, Redis, the LRU of hashicorp, AES-GCM, SHA-256, bcrypt, echo, the
  validator, the schema reflector, the JSON and configuration codecs, gocron, the leader election,
  \<open>slog\<close>'s inner handlers, ctxgen, OpenTelemetry and NATS itself. Randomness, the clock and the scheduler are
  arguments or actions. Loops are structural or have a measure: there is no fuel in the development.

  \<^bold>\<open>Bounds.\<close> The channel of the event bus has capacity 100 and the consumer's twice its concurrency. The
  action of a consumer's worker that handles a message is one step, and so is a call of a store: what the
  code does inside one call of a library is not interleaved with other goroutines.

  \<^bold>\<open>Not modelled.\<close> The expiry of keys in the NATS log. What asynq does when its server is shut down beyond
  what \<open>Queue_Asynq\<close> assumes of it, in particular that it puts unfinished tasks back on their queues.
  Calls of \<open>getV7Time\<close> at the same time, which share \<open>lastV7time\<close> without a lock. The interfaces of \<open>francis/\<close> (method signatures that no code implements or calls, so that there
  is nothing to define or prove) and the helpers of \<open>test/\<close>. The spans that surround calls in other packages are left
  out of those packages' definitions, because they have no effect on the results; so are log lines, except
  where a definition is about them. Methods of the server that only call echo (\<open>Use\<close>, \<open>Routes\<close>, \<open>ServeHTTP\<close>),
  and the gathering of metrics by Prometheus beyond the counters the code sets.
\<close>

section \<open>A job on its way through producer, server and consumer\<close>

text \<open>What JetStream delivers of a published message: its data, its headers, and its id as a header.\<close>

definition delivered :: "string nats_msg \<Rightarrow> publish_opt list \<Rightarrow> 's js_msg \<Rightarrow> bool" where
  "delivered pm opts m \<longleftrightarrow>
     js_Data m = Data pm \<and>
     js_Header m ''Nats-Msg-Id'' = (case last opts of WithMsgID i \<Rightarrow> i) \<and>
     js_Header m DelayedHeader = (case map_of (Header pm) DelayedHeader of None \<Rightarrow> '''' | Some v \<Rightarrow> v)"

lemma nats_hands_on:
  assumes "log_enabled (nopts c)" "nkv c = Some k" "js_Header m ''Nats-Msg-Id'' = i" "i \<noteq> ''''"
    "js_Header m DelayedHeader = '''' \<or> pt (js_Header m DelayedHeader) \<le> now"
    "fst (kv_Create k i kvStateProcessing s) = None" "um (js_Data m) = Inr job"
  shows "nats_handleMessage pt um c now m s =
    Ret (Some (nats_newMessage job m (Some k) i), snd (kv_Create k i kvStateProcessing s))"
  using assms by (auto simp: nats_handleMessage_def nats_decode_def Let_def split: prod.split)

lemma heartbeat_view:
  assumes "js_frame view m"
  shows "view (heartbeat n (js_InProgress m) s) = view s"
  using assms by (induction n arbitrary: s) (simp_all add: js_frame_def)

text \<open>A message handed on whose job succeeds, on a server that accepts its acknowledgement.\<close>

lemma nats_success:
  assumes "processed_log k view" "js_frame view m" "retry_laws retry"
    "c_handlers C (job_Task job) = Some h" "h (Payload job) = None"
    "fst (nats_Ack (Some k) i m (heartbeat beats (js_InProgress m) (drv w))) = None"
  shows "fst (Consumer_handler retry C hub beats (nats_newMessage job m (Some k) i) w) = None"
    and "ran (snd (Consumer_handler retry C hub beats (nats_newMessage job m (Some k) i) w)) = ran w @ [job]"
    and "view (drv (snd (Consumer_handler retry C hub beats (nats_newMessage job m (Some k) i) w))) =
      (view (drv w))(i \<mapsto> kvStateProcessed)"
proof -
  let ?w = "heartbeat beats (js_InProgress m) (drv w)"
  have r: "retry (nats_Ack (Some k) i m) 3 d ?w = (None, snd (nats_Ack (Some k) i m ?w))" for d
    using assms(3) [unfolded retry_laws_def, rule_format, of "nats_Ack (Some k) i m" ?w 2 d] assms(6)
    by (simp add: numeral_3_eq_3)
  have v: "view (snd (nats_Ack (Some k) i m ?w)) = (view (drv w))(i \<mapsto> kvStateProcessed)"
    using processed_log.ack_view(1) [OF assms(1,2,6)] heartbeat_view [OF assms(2)] by simp
  show "fst (Consumer_handler retry C hub beats (nats_newMessage job m (Some k) i) w) = None"
    "ran (snd (Consumer_handler retry C hub beats (nats_newMessage job m (Some k) i) w)) = ran w @ [job]"
    "view (drv (snd (Consumer_handler retry C hub beats (nats_newMessage job m (Some k) i) w))) =
      (view (drv w))(i \<mapsto> kvStateProcessed)"
    using assms(4,5) r v by (simp_all add: Consumer_handler_def nats_newMessage_def nats_InProgress_def Let_def)
qed

text \<open>Property C2. A pushed job runs once: the message its producer publishes carries the job's id; when it
  is delivered (once due) to a log that has not seen the id, it is handed to the consumer, whose
  handler runs the job, acknowledges the message and marks the id as processed. From then on, in
  whatever state of the server in which the log still has that key (it expires after \<open>ProcessedLogTTL\<close>,
  an hour by default): no delivery of a message with that id is handed on or changes the log, and no
  delivery of any message removes the key.\<close>

theorem pushed_job_runs_once:
  assumes "processed_log k view" "log_enabled (nopts c)" "nkv c = Some k" "retry_laws retry"
    and "\<forall>opt \<in> set (Options job). opt_Type opt \<noteq> IDOpt" "job_ID job \<noteq> ''''"
    and "marshal (job\<lparr>Options := Options job @ [withID (job_ID job)]\<rparr>) = Inr bytes" "um bytes = Inr job'"
    and "c_handlers C (job_Task job') = Some h" "h (Payload job') = None"
  shows "\<exists>pm opts. Producer_Push (nats_Push fmt_time marshal publish now fresh) job s = publish pm opts s \<and>
    (\<forall>m now' s1 w. delivered pm opts m \<and> js_frame view m \<and>
       (run_at now (Options job) = 0 \<or> pt (fmt_time (run_at now (Options job))) \<le> now') \<and>
       fst (kv_Create k (job_ID job) kvStateProcessing s1) = None \<and>
       fst (nats_Ack (Some k) (job_ID job) m (heartbeat beats (js_InProgress m) (snd (kv_Create k (job_ID job) kvStateProcessing s1)))) = None \<longrightarrow>
       (\<exists>msg s2. nats_handleMessage pt um c now' m s1 = Ret (Some msg, s2) \<and>
          (let (res, w') = Consumer_handler retry C hub beats msg (w\<lparr>drv := s2\<rparr>)
           in res = None \<and> ran w' = ran w @ [job'] \<and> view (drv w') = (view s1)(job_ID job \<mapsto> kvStateProcessed)))) \<and>
    (\<forall>m2 now2 fwd s4 s5. view s4 (job_ID job) = Some kvStateProcessed \<and> js_frame view m2 \<and>
       nats_handleMessage pt um c now2 m2 s4 = Ret (fwd, s5) \<longrightarrow>
       view s5 (job_ID job) = Some kvStateProcessed \<and>
       (js_Header m2 ''Nats-Msg-Id'' = job_ID job \<longrightarrow> fwd = None \<and> view s5 = view s4))"
proof -
  let ?i = "job_ID job" and ?t = "run_at now (Options job)"
  define pm where "pm = \<lparr>Subject = QueueFromOptions (Options job) @ ''.'' @ job_Task job,
    Header = (let t = ?t in if t = 0 then [] else [(DelayedHeader, fmt_time t)]), Data = bytes\<rparr>"
  have push: "Producer_Push (nats_Push fmt_time marshal publish now fresh) job s = publish pm [WithMsgID ?i] s"
    unfolding pm_def by (rule nats_push [of job marshal bytes]) (rule assms(5,7))+
  have run: "\<exists>msg s2. nats_handleMessage pt um c now' m s1 = Ret (Some msg, s2) \<and>
      (let (res, w') = Consumer_handler retry C hub beats msg (w\<lparr>drv := s2\<rparr>)
       in res = None \<and> ran w' = ran w @ [job'] \<and> view (drv w') = (view s1)(?i \<mapsto> kvStateProcessed))"
    if m: "delivered pm [WithMsgID ?i] m" "js_frame view m" "?t = 0 \<or> pt (fmt_time ?t) \<le> now'"
      "fst (kv_Create k ?i kvStateProcessing s1) = None"
      "fst (nats_Ack (Some k) ?i m (heartbeat beats (js_InProgress m) (snd (kv_Create k ?i kvStateProcessing s1)))) = None"
    for m now' s1 w
  proof -
    let ?s2 = "snd (kv_Create k ?i kvStateProcessing s1)" and ?msg = "nats_newMessage job' m (Some k) ?i"
    obtain res w' where r: "Consumer_handler retry C hub beats ?msg (w\<lparr>drv := ?s2\<rparr>) = (res, w')" by fastforce
    have "nats_handleMessage pt um c now' m s1 = Ret (Some ?msg, ?s2)"
      by (rule nats_hands_on [OF assms(2,3) _ assms(6) _ m(4)]) (use m(1,3) assms(8) in \<open>auto simp: delivered_def pm_def Let_def\<close>)
    moreover have "view ?s2 = (view s1)(?i \<mapsto> kvStateProcessing)" using processed_log.create_ok [OF assms(1) m(4)] by simp
    then have v: "res = None" "ran w' = ran w @ [job']" "view (drv w') = (view s1)(?i \<mapsto> kvStateProcessed)"
      using nats_success [OF assms(1) m(2) assms(4,9,10), where beats = beats and i = ?i and w = "w\<lparr>drv := ?s2\<rparr>" and hub = hub] r m(5)
      by simp_all
    ultimately show ?thesis using r by auto
  qed
  have later: "view s5 ?i = Some kvStateProcessed \<and> (js_Header m2 ''Nats-Msg-Id'' = ?i \<longrightarrow> fwd = None \<and> view s5 = view s4)"
    if "view s4 ?i = Some kvStateProcessed" "js_frame view m2" "nats_handleMessage pt um c now2 m2 s4 = Ret (fwd, s5)"
    for m2 now2 fwd s4 s5
    using processed_log.handle_view [OF assms(1) that(2) assms(2,3) that(3)] that(1) by (cases fwd) auto
  show ?thesis by (intro exI [of _ pm] exI [of _ "[WithMsgID ?i]"]) (use push run later in blast)
qed

definition empty_server :: nats_server where
  "empty_server = \<lparr>kvs = Map.empty, up = True, acts = []\<rparr>"

lemma pushed_job_runs_once_witness:
  "\<exists>msg s2. nats_handleMessage (\<lambda>_. 0) (\<lambda>_. Inr demo_job) demo_nats 5 (server_msg 3 ''7'' ''data'') empty_server = Ret (Some msg, s2) \<and>
     (let (res, w') = Consumer_handler retry_loop nats_demo False 0 msg \<lparr>drv = s2, metrics = no_metrics, ran = []\<rparr>
      in res = None \<and> ran w' = [demo_job] \<and> kvs (drv w') = [''7'' \<mapsto> kvStateProcessed])"
proof -
  let ?publish = "\<lambda>pm opts s. (None, [(pm, opts)])" and ?m = "server_msg 3 ''7'' ''data''"
  have job: "Options demo_job = []" "job_ID demo_job = ''7''" "job_Task demo_job = ''t''" "Payload demo_job = []"
    by (simp_all add: demo_job_def NewJob_def)
  have h: "c_handlers nats_demo ''t'' = Some (\<lambda>_. None)" by (simp add: nats_demo_def RegisterHandler_def)
  have o: "\<forall>opt \<in> set (Options demo_job). opt_Type opt \<noteq> IDOpt" "job_ID demo_job \<noteq> ''''" by (simp_all add: job)
  have t: "c_handlers nats_demo (job_Task demo_job) = Some (\<lambda>_. None)" by (simp add: job h)
  note run = pushed_job_runs_once [where job = demo_job and job' = demo_job
        and marshal = "\<lambda>_. Inr ''data''" and um = "\<lambda>_. Inr demo_job" and bytes = "''data''" and C = nats_demo and h = "\<lambda>_. None"
        and fmt_time = "\<lambda>_. ''T''" and publish = ?publish and now = 1 and fresh = "''r''" and s = "[]"
        and beats = 0 and pt = "\<lambda>_. 0" and hub = False, OF server.processed_log_axioms demo_nats_simps retry_loop_laws o refl refl t refl]
  obtain pm opts where push: "Producer_Push (nats_Push (\<lambda>_. ''T'') (\<lambda>_. Inr ''data'') ?publish 1 ''r'') demo_job [] = ?publish pm opts []"
    and deliver: "\<forall>m now' s1 w. delivered pm opts m \<and> js_frame kvs m \<and>
       (run_at 1 (Options demo_job) = 0 \<or> 0 \<le> now') \<and>
       fst (kv_Create server_kv (job_ID demo_job) kvStateProcessing s1) = None \<and>
       fst (nats_Ack (Some server_kv) (job_ID demo_job) m (heartbeat 0 (js_InProgress m) (snd (kv_Create server_kv (job_ID demo_job) kvStateProcessing s1)))) = None \<longrightarrow>
       (\<exists>msg s2. nats_handleMessage (\<lambda>_. 0) (\<lambda>_. Inr demo_job) demo_nats now' m s1 = Ret (Some msg, s2) \<and>
          (let (res, w') = Consumer_handler retry_loop nats_demo False 0 msg (w\<lparr>drv := s2\<rparr>)
           in res = None \<and> ran w' = ran w @ [demo_job] \<and> kvs (drv w') = (kvs s1)(job_ID demo_job \<mapsto> kvStateProcessed)))"
    using run by (elim exE conjE) (rule that, assumption+)
  have "delivered pm opts ?m"
    using push by (auto simp: Producer_Push_def nats_Push_def job run_at_def withID_def jsOptsFromQueueOpts_def delivered_def server_msg_def DelayedHeader_def)
  then have c: "delivered pm opts ?m \<and> js_frame kvs ?m \<and> (run_at 1 (Options demo_job) = 0 \<or> 0 \<le> (5 :: int)) \<and>
      fst (kv_Create server_kv (job_ID demo_job) kvStateProcessing empty_server) = None \<and>
      fst (nats_Ack (Some server_kv) (job_ID demo_job) ?m (heartbeat 0 (js_InProgress ?m) (snd (kv_Create server_kv (job_ID demo_job) kvStateProcessing empty_server)))) = None"
    using server_frame [of 3 "''7''" "''data''"] by (simp add: server_defs empty_server_def nats_Ack_def)
  obtain msg s2 where "nats_handleMessage (\<lambda>_. 0) (\<lambda>_. Inr demo_job) demo_nats 5 ?m empty_server = Ret (Some msg, s2)"
    "let (res, w') = Consumer_handler retry_loop nats_demo False 0 msg (\<lparr>drv = empty_server, metrics = no_metrics, ran = []\<rparr>\<lparr>drv := s2\<rparr>)
     in res = None \<and> world.ran w' = world.ran \<lparr>drv = empty_server, metrics = no_metrics, ran = []\<rparr> @ [demo_job] \<and>
        kvs (drv w') = (kvs empty_server)(job_ID demo_job \<mapsto> kvStateProcessed)"
    using deliver [rule_format, OF c] by blast
  then show ?thesis by (simp add: job empty_server_def)
qed

end
